(* ===== verification/Prelude.thy ===== *)
theory Prelude
  imports Main "HOL-Library.Word" "HOL-Library.Sublist"
begin

text \<open>
  The library the component theories share: the machine integers of the C code, the state-passing
  shape of its readers, and the arithmetic of shifts and masks read as arithmetic of numbers.

  A C function \<open>int f(CBS *cbs, T *out)\<close> that returns one or zero is a \<open>'a reader\<close>: a function
  of the bytes that are left, with the output (None when the function returned zero) and the bytes
  that are left afterwards. The bytes left after a failure are part of the model, because the C
  code leaves its argument where the failing step put it.
\<close>

unbundle bit_operations_syntax

type_synonym byte = "8 word"
type_synonym u16 = "16 word"
type_synonym u32 = "32 word"
type_synonym u64 = "64 word"

text \<open>A \<open>CBS\<close> is a pointer and a length into a buffer: the bytes that are still to be read.\<close>

type_synonym CBS = "byte list"

type_synonym 'a reader = "CBS \<Rightarrow> 'a option \<times> CBS"

named_theorems framed_rules "rules that compose framed readers"
named_theorems word_nat "words read as natural numbers"

section \<open>Reader combinators\<close>

definition rret :: "'a \<Rightarrow> 'a reader" where
  "rret x s = (Some x, s)"

definition rfail :: "'a reader" where
  "rfail s = (None, s)"

definition rbind :: "'a reader \<Rightarrow> ('a \<Rightarrow> 'b reader) \<Rightarrow> 'b reader" where
  "rbind m f s = (case m s of (None, s') \<Rightarrow> (None, s') | (Some x, s') \<Rightarrow> f x s')"

text \<open>\<open>rcheck b\<close> is the early return \<open>if (!b) return 0\<close>.\<close>

definition rcheck :: "bool \<Rightarrow> unit reader" where
  "rcheck b = (if b then rret () else rfail)"

lemma rbind_simps [simp]:
  "rbind (rret x) f = f x"
  "rbind rfail f = rfail"
  "rbind (rcheck True) f = f ()"
  "rbind (rcheck False) f = rfail"
  by (simp_all add: fun_eq_iff rbind_def rret_def rfail_def rcheck_def)

lemma rret_apply [simp]: "rret x s = (Some x, s)"
  by (simp add: rret_def)

lemma rfail_apply [simp]: "rfail s = (None, s)"
  by (simp add: rfail_def)

lemma rcheck_apply: "rcheck b s = (if b then Some () else None, s)"
  by (simp add: rcheck_def)

lemma rbind_Some: "m s = (Some x, s') \<Longrightarrow> rbind m f s = f x s'"
  by (simp add: rbind_def)

lemma rbind_None: "m s = (None, s') \<Longrightarrow> rbind m f s = (None, s')"
  by (simp add: rbind_def)

lemma rbind_eq_Some:
  "rbind m f s = (Some y, t) \<longleftrightarrow> (\<exists>x s'. m s = (Some x, s') \<and> f x s' = (Some y, t))"
  by (auto simp: rbind_def split: prod.splits option.splits)

lemma rcheck_eq_Some: "rcheck b s = (Some y, t) \<longleftrightarrow> b \<and> t = s"
  by (auto simp: rcheck_apply)

lemma if_None_eq_Some:
  "((if P then x else (None, c)) = (Some w, t)) \<longleftrightarrow> P \<and> x = (Some w, t)"
  by simp

lemma case_prod_if:
  "(case (if c then x else y) of (a, b) \<Rightarrow> f a b) =
   (if c then case x of (a, b) \<Rightarrow> f a b else case y of (a, b) \<Rightarrow> f a b)"
  by simp

lemma case_option_if:
  "(case (if c then x else y) of None \<Rightarrow> a | Some z \<Rightarrow> f z) =
   (if c then case x of None \<Rightarrow> a | Some z \<Rightarrow> f z else case y of None \<Rightarrow> a | Some z \<Rightarrow> f z)"
  by simp

lemma if_conj_nest: "(if P \<and> Q then x else y) = (if P then if Q then x else y else y)"
  by simp

lemma if_eq_distrib: "((if Q then x else y) = z) = (if Q then x = z else y = z)"
  by simp

section \<open>Framed readers\<close>

text \<open>
  A reader is framed when it only ever drops a prefix of its input, and a successful read depends
  on nothing but the prefix it dropped: whatever follows is left untouched and is not looked at.
\<close>

definition framed :: "'a reader \<Rightarrow> bool" where
  "framed r \<longleftrightarrow> (\<forall>s. \<exists>used. s = used @ snd (r s) \<and>
     (\<forall>x. fst (r s) = Some x \<longrightarrow> (\<forall>t. r (used @ t) = (Some x, t))))"

lemma framedI:
  assumes "\<And>s. \<exists>used. s = used @ snd (r s)
            \<and> (\<forall>x. fst (r s) = Some x \<longrightarrow> (\<forall>t. r (used @ t) = (Some x, t)))"
  shows "framed r"
  using assms by (simp add: framed_def)

lemma framed_SomeE:
  assumes "framed r" "r s = (Some x, rest)"
  obtains used where "s = used @ rest" "\<And>t. r (used @ t) = (Some x, t)"
  using assms unfolding framed_def by (metis fst_conv snd_conv)

lemma framed_suffix:
  assumes "framed r" shows "suffix (snd (r s)) s"
  using assms unfolding framed_def suffix_def by metis

lemma framed_length_le:
  assumes "framed r" shows "length (snd (r s)) \<le> length s"
  using framed_suffix [OF assms] suffix_length_le by blast

lemma framed_rret [framed_rules]: "framed (rret x)"
  by (simp add: framed_def)

lemma framed_rfail [framed_rules]: "framed rfail"
  by (simp add: framed_def)

lemma framed_rcheck [framed_rules]: "framed (rcheck b)"
  by (simp add: rcheck_def framed_rules)

lemma framed_rbind [framed_rules]:
  assumes m: "framed m" and f: "\<And>x. framed (f x)"
  shows "framed (rbind m f)"
proof (rule framedI)
  fix s
  show "\<exists>used. s = used @ snd (rbind m f s) \<and>
    (\<forall>y. fst (rbind m f s) = Some y \<longrightarrow> (\<forall>t. rbind m f (used @ t) = (Some y, t)))"
  proof (cases "m s")
    case (Pair o1 s1)
    show ?thesis
    proof (cases o1)
      case None
      with Pair have "rbind m f s = (None, s1)" by (simp add: rbind_None)
      with Pair m show ?thesis by (metis fst_conv framed_def option.distinct(1) snd_conv)
    next
      case (Some x)
      with Pair have ms: "m s = (Some x, s1)" by simp
      then obtain u where u: "s = u @ s1" "\<And>t. m (u @ t) = (Some x, t)"
        using framed_SomeE [OF m ms] by blast
      from f [of x] obtain v where v: "s1 = v @ snd (f x s1)"
        "\<And>y. fst (f x s1) = Some y \<Longrightarrow> (\<forall>t. f x (v @ t) = (Some y, t))"
        unfolding framed_def by blast
      have "rbind m f s = f x s1" by (simp add: rbind_def ms)
      moreover have "rbind m f ((u @ v) @ t) = f x (v @ t)" for t
        by (simp add: rbind_def u(2))
      ultimately show ?thesis using u v by (intro exI [of _ "u @ v"]) auto
    qed
  qed
qed

lemma framed_if [framed_rules]:
  "framed a \<Longrightarrow> framed b \<Longrightarrow> framed (if c then a else b)"
  by simp

lemma framed_Let [framed_rules]: "(\<And>x. framed (f x)) \<Longrightarrow> framed (Let v f)"
  by (simp add: Let_def)

section \<open>Shifts and masks as arithmetic\<close>

lemma unat_bound: "unat (w :: 'a::len word) < 2 ^ LENGTH('a)"
  by (rule unsigned_less)

lemma byte_bound [simp]: "unat (b :: byte) < 256"
  using unat_bound [of b] by simp

lemma byte_less [simp]: "256 \<le> n \<Longrightarrow> unat (b :: byte) < n"
  using byte_bound [of b] by linarith

lemma byte_le: "unat (b :: byte) \<le> 255"
  using byte_bound [of b] by linarith

lemma unat_ucast_up:
  assumes "LENGTH('a) \<le> LENGTH('b)"
  shows "unat (ucast (w :: 'a::len word) :: 'b::len word) = unat w"
proof -
  have "unat w < 2 ^ LENGTH('b)"
    using unat_bound [of w] assms by (rule less_le_trans [OF _ power_increasing]) simp_all
  then show ?thesis by (simp add: unsigned_ucast_eq take_bit_nat_eq_self)
qed

lemma unat_ucast_byte [simp]:
  "unat (ucast (b :: byte) :: u64) = unat b" "unat (ucast (b :: byte) :: u32) = unat b"
  by (simp_all add: unat_ucast_up)

lemma word_eq_of_nat: "unat (w :: 'a::len word) = n \<Longrightarrow> w = of_nat n"
  by auto

lemma uint_shift_or:
  fixes v x :: "'a::len word"
  assumes "uint x < 2 ^ k" "uint v * 2 ^ k < 2 ^ LENGTH('a)"
  shows "uint (push_bit k v OR x) = uint v * 2 ^ k + uint x"
proof -
  have "uint (push_bit k v) = push_bit k (uint v)"
    using assms(2) by (simp only: unsigned_push_bit_eq) (simp add: take_bit_int_eq_self push_bit_eq_mult)
  then have "uint (push_bit k v OR x) = concat_bit k (uint x) (uint v)"
    using assms(1) by (simp add: unsigned_or_eq concat_bit_def or.commute take_bit_int_eq_self)
  then show ?thesis
    using assms(1) by (simp add: concat_bit_eq take_bit_int_eq_self push_bit_eq_mult)
qed

lemma unat_shift_or:
  fixes v x :: "'a::len word"
  assumes "unat x < 2 ^ k" "unat v * 2 ^ k < 2 ^ LENGTH('a)"
  shows "unat (push_bit k v OR x) = unat v * 2 ^ k + unat x"
proof -
  have "int (unat x) < int (2 ^ k)" "int (unat v * 2 ^ k) < int (2 ^ LENGTH('a))"
    using assms by (simp_all only: of_nat_less_iff)
  then have "uint (push_bit k v OR x) = uint v * 2 ^ k + uint x"
    by (intro uint_shift_or) simp_all
  then have "int (unat (push_bit k v OR x)) = int (unat v * 2 ^ k + unat x)"
    by simp
  then show ?thesis by (simp only: of_nat_eq_iff)
qed

lemma unat_and_mask [word_nat]: "unat (x AND mask n) = unat x mod 2 ^ n"
  by (simp only: unsigned_and_eq flip: take_bit_eq_mask take_bit_eq_mod) (rule unsigned_take_bit_eq)

lemma unat_drop_bit [word_nat]: "unat (drop_bit n x) = unat x div 2 ^ n"
  by (simp only: unsigned_drop_bit_eq) (simp add: drop_bit_eq_div take_bit_nat_eq_self)

lemma drop_bit_eq_0_nat: "drop_bit n x = 0 \<longleftrightarrow> unat x < 2 ^ n"
  by (metis div_less less_2_cases_iff unat_drop_bit unat_eq_zero div_eq_0_iff gr0I power_not_zero zero_neq_numeral)

lemma byte_high_bit: "(b :: byte) AND 0x80 = 0 \<longleftrightarrow> unat b < 128"
proof -
  have "b AND 0x80 = 0 \<longleftrightarrow> \<not> bit b 7"
    using and_exp_eq_0_iff_not_bit [of b 7] by simp
  also have "bit b 7 \<longleftrightarrow> odd (unat b div 2 ^ 7)"
    by (metis bit_iff_odd bit_unsigned_iff possible_bit_nat)
  also have "\<not> odd (unat b div 2 ^ 7) \<longleftrightarrow> unat b < 128"
  proof (cases "unat b < 128")
    case False
    then have "unat b div 2 ^ 7 = 1"
      using byte_bound [of b] by (intro div_nat_eqI) simp_all
    with False show ?thesis by simp
  qed simp
  finally show ?thesis .
qed

lemma byte_low_bits: "unat ((b :: byte) AND 0x7f) = unat b mod 128"
  using unat_and_mask [of b 7] by (simp add: mask_eq_exp_minus_1)

section \<open>Big-endian numbers\<close>

text \<open>The number a byte string denotes, most significant byte first, and its \<open>n\<close>-byte encoding.\<close>

fun be_nat :: "byte list \<Rightarrow> nat" where
  "be_nat [] = 0"
| "be_nat (b # bs) = unat b * 256 ^ length bs + be_nat bs"

fun be_bytes :: "nat \<Rightarrow> nat \<Rightarrow> byte list" where
  "be_bytes 0 v = []"
| "be_bytes (Suc n) v = be_bytes n (v div 256) @ [of_nat v]"

lemma be_nat_append: "be_nat (xs @ ys) = be_nat xs * 256 ^ length ys + be_nat ys"
  by (induction xs) (simp_all add: algebra_simps power_add)

lemma be_nat_less: "be_nat bs < 256 ^ length bs"
proof (induction bs)
  case (Cons b bs)
  have "unat b * 256 ^ length bs + be_nat bs < (unat b + 1) * 256 ^ length bs"
    using Cons by (simp add: algebra_simps)
  also have "\<dots> \<le> 256 * 256 ^ length bs"
    using byte_bound [of b] by (intro mult_le_mono1) linarith
  finally show ?case by simp
qed simp

lemma length_be_bytes [simp]: "length (be_bytes n v) = n"
  by (induction n arbitrary: v) simp_all

lemma unat_of_nat_byte: "unat (of_nat v :: byte) = v mod 256"
  by (simp add: unat_of_nat)

lemma be_nat_be_bytes: "be_nat (be_bytes n v) = v mod 256 ^ n"
proof (induction n arbitrary: v)
  case (Suc n)
  have "v mod 256 ^ Suc n = 256 * (v div 256 mod 256 ^ n) + v mod 256"
    by (simp add: mod_mult2_eq)
  with Suc show ?case by (simp add: be_nat_append unat_of_nat_byte)
qed simp

lemma of_nat_byte_tail: "of_nat (k * 256 + unat x) = (x :: byte)"
  using byte_bound [of x] by (simp only: word_unat_eq_iff unat_of_nat_byte) simp

lemma be_bytes_be_nat: "length bs = n \<Longrightarrow> be_bytes n (be_nat bs) = bs"
proof (induction n arbitrary: bs)
  case (Suc n)
  then obtain xs x where "bs = xs @ [x]" "length xs = n"
    by (metis length_Suc_conv_rev)
  with Suc.IH [of xs] show ?case
    using of_nat_byte_tail [of "be_nat xs" x] by (simp add: be_nat_append)
qed simp

lemma be_nat_inject: "length xs = length ys \<Longrightarrow> be_nat xs = be_nat ys \<longleftrightarrow> xs = ys"
  by (metis be_bytes_be_nat)

end
