(* ===== verification/Cbs.thy ===== *)
theory Cbs
  imports Prelude
begin

text \<open>
  The byte-string reader of BoringSSL, \<open>crypto/bytestring/cbs.c\<close>: fixed-width integers, length
  prefixes, decimal numbers, and the DER element parser with the primitive types built on it.
  OID text is in the theory \<open>Oid\<close>, the time types in the theory \<open>Asn1_Time\<close>. \<open>size_t\<close> is the
  64-bit type of the app's targets; assertions that the code discharges itself are not modelled.
\<close>

section \<open>Bytes and fixed-width integers\<close>

definition cbs_get :: "nat \<Rightarrow> byte list reader" where
  "cbs_get n cbs = (if length cbs < n then (None, cbs) else (Some (take n cbs), drop n cbs))"

definition CBS_skip :: "nat \<Rightarrow> unit reader" where
  "CBS_skip len = rbind (cbs_get len) (\<lambda>dummy. rret ())"

text \<open>
  \<open>CBS_stow\<close> and \<open>CBS_strdup\<close> return the return value and the new \<open>*out_ptr\<close> (None for NULL);
  \<open>alloc n\<close> says whether the allocator grants \<open>n\<close> bytes.
\<close>

definition CBS_stow :: "(nat \<Rightarrow> bool) \<Rightarrow> CBS \<Rightarrow> bool \<times> byte list option \<times> nat" where
  "CBS_stow alloc cbs =
     (if length cbs = 0 then (True, None, 0)
      else if \<not> alloc (length cbs) then (False, None, 0)
      else (True, Some cbs, length cbs))"

definition OPENSSL_strndup :: "(nat \<Rightarrow> bool) \<Rightarrow> byte list \<Rightarrow> byte list option" where
  "OPENSSL_strndup alloc str =
     (let s = takeWhile (\<lambda>c. c \<noteq> 0) str
      in if alloc (length s + 1) then Some (s @ [0]) else None)"

definition CBS_strdup :: "(nat \<Rightarrow> bool) \<Rightarrow> CBS \<Rightarrow> bool \<times> byte list option" where
  "CBS_strdup alloc cbs = (let out = OPENSSL_strndup alloc cbs in (out \<noteq> None, out))"

definition CBS_contains_zero_byte :: "CBS \<Rightarrow> bool" where
  "CBS_contains_zero_byte cbs \<longleftrightarrow> 0 \<in> set cbs"

definition CBS_mem_equal :: "CBS \<Rightarrow> byte list \<Rightarrow> bool" where
  "CBS_mem_equal cbs data = (if length data \<noteq> length cbs then False else cbs = data)"

text \<open>The loop \<open>result <<= 8; result |= data[i]\<close>.\<close>

fun load_be :: "u64 \<Rightarrow> byte list \<Rightarrow> u64" where
  "load_be result [] = result"
| "load_be result (b # data) = load_be (push_bit 8 result OR ucast b) data"

definition cbs_get_u :: "nat \<Rightarrow> u64 reader" where
  "cbs_get_u len = rbind (cbs_get len) (\<lambda>data. rret (load_be 0 data))"

definition CBS_get_u8 :: "byte reader" where
  "CBS_get_u8 = rbind (cbs_get 1) (\<lambda>v. rret (hd v))"

definition CBS_get_u16 :: "u16 reader" where
  "CBS_get_u16 = rbind (cbs_get_u 2) (\<lambda>v. rret (ucast v))"

definition CRYPTO_bswap2 :: "u16 \<Rightarrow> u16" where
  "CRYPTO_bswap2 x = drop_bit 8 x OR push_bit 8 x"

definition CBS_get_u16le :: "u16 reader" where
  "CBS_get_u16le = rbind CBS_get_u16 (\<lambda>v. rret (CRYPTO_bswap2 v))"

definition CBS_get_u24 :: "u32 reader" where
  "CBS_get_u24 = rbind (cbs_get_u 3) (\<lambda>v. rret (ucast v))"

definition CBS_get_u32 :: "u32 reader" where
  "CBS_get_u32 = rbind (cbs_get_u 4) (\<lambda>v. rret (ucast v))"

definition CRYPTO_bswap4 :: "u32 \<Rightarrow> u32" where
  "CRYPTO_bswap4 x =
     (let x = drop_bit 16 x OR push_bit 16 x
      in drop_bit 8 (x AND 0xff00ff00) OR push_bit 8 (x AND 0x00ff00ff))"

definition CBS_get_u32le :: "u32 reader" where
  "CBS_get_u32le = rbind CBS_get_u32 (\<lambda>v. rret (CRYPTO_bswap4 v))"

definition CBS_get_u64 :: "u64 reader" where
  "CBS_get_u64 = cbs_get_u 8"

definition CRYPTO_bswap8 :: "u64 \<Rightarrow> u64" where
  "CRYPTO_bswap8 x =
     ucast (CRYPTO_bswap4 (ucast (drop_bit 32 x)))
     OR push_bit 32 (ucast (CRYPTO_bswap4 (ucast x)))"

definition CBS_get_u64le :: "u64 reader" where
  "CBS_get_u64le = rbind (cbs_get_u 8) (\<lambda>v. rret (CRYPTO_bswap8 v))"

text \<open>The only reader that takes from the end.\<close>

definition CBS_get_last_u8 :: "byte reader" where
  "CBS_get_last_u8 cbs =
     (if length cbs = 0 then (None, cbs)
      else (Some (cbs ! (length cbs - 1)), take (length cbs - 1) cbs))"

definition CBS_get_bytes :: "nat \<Rightarrow> CBS reader" where
  "CBS_get_bytes len = cbs_get len"

definition CBS_copy_bytes :: "nat \<Rightarrow> byte list reader" where
  "CBS_copy_bytes len = cbs_get len"

definition cbs_get_length_prefixed :: "nat \<Rightarrow> CBS reader" where
  "cbs_get_length_prefixed len_len = rbind (cbs_get_u len_len) (\<lambda>len. CBS_get_bytes (unat len))"

definition CBS_get_u8_length_prefixed :: "CBS reader" where
  "CBS_get_u8_length_prefixed = cbs_get_length_prefixed 1"

definition CBS_get_u16_length_prefixed :: "CBS reader" where
  "CBS_get_u16_length_prefixed = cbs_get_length_prefixed 2"

definition CBS_get_u24_length_prefixed :: "CBS reader" where
  "CBS_get_u24_length_prefixed = cbs_get_length_prefixed 3"

text \<open>\<open>OPENSSL_memchr\<close> is the search for the first position that holds \<open>c\<close>.\<close>

definition CBS_get_until_first :: "byte \<Rightarrow> CBS reader" where
  "CBS_get_until_first c cbs =
     (if c \<notin> set cbs then (None, cbs)
      else CBS_get_bytes (length (takeWhile (\<lambda>b. b \<noteq> c) cbs)) cbs)"

definition OPENSSL_isdigit :: "byte \<Rightarrow> bool" where
  "OPENSSL_isdigit c \<longleftrightarrow> 0x30 \<le> c \<and> c \<le> 0x39"

abbreviation UINT64_MAX :: u64 where
  "UINT64_MAX \<equiv> 0xffffffffffffffff"

fun get_decimal_loop :: "u64 \<Rightarrow> bool \<Rightarrow> u64 reader" where
  "get_decimal_loop v seen_digit [] = (if seen_digit then Some v else None, [])"
| "get_decimal_loop v seen_digit (c # cbs) =
     (if \<not> OPENSSL_isdigit c then (if seen_digit then Some v else None, c # cbs)
      else if (v = 0 \<and> seen_digit) \<or> v > UINT64_MAX div 10
              \<or> v * 10 > UINT64_MAX - ucast (c - 0x30) then (None, cbs)
      else get_decimal_loop (v * 10 + ucast (c - 0x30)) True cbs)"

definition CBS_get_u64_decimal :: "u64 reader" where
  "CBS_get_u64_decimal = get_decimal_loop 0 False"

section \<open>ASN.1 tags and elements\<close>

type_synonym CBS_ASN1_TAG = u32

abbreviation CBS_ASN1_TAG_SHIFT :: nat where "CBS_ASN1_TAG_SHIFT \<equiv> 24"
abbreviation CBS_ASN1_CONSTRUCTED :: CBS_ASN1_TAG where "CBS_ASN1_CONSTRUCTED \<equiv> 0x20000000"
abbreviation CBS_ASN1_TAG_NUMBER_MASK :: CBS_ASN1_TAG where
  "CBS_ASN1_TAG_NUMBER_MASK \<equiv> 0x1fffffff"
abbreviation CBS_ASN1_BOOLEAN :: CBS_ASN1_TAG where "CBS_ASN1_BOOLEAN \<equiv> 0x1"
abbreviation CBS_ASN1_INTEGER :: CBS_ASN1_TAG where "CBS_ASN1_INTEGER \<equiv> 0x2"
abbreviation CBS_ASN1_OCTETSTRING :: CBS_ASN1_TAG where "CBS_ASN1_OCTETSTRING \<equiv> 0x4"

text \<open>The do-while loop of \<open>parse_base128_integer\<close>; an empty input is a failed \<open>CBS_get_u8\<close>.\<close>

fun base128_loop :: "u64 \<Rightarrow> u64 reader" where
  "base128_loop v [] = (None, [])"
| "base128_loop v (b # cbs) =
     (if drop_bit (64 - 7) v \<noteq> 0 then (None, cbs)
      else if v = 0 \<and> b = 0x80 then (None, cbs)
      else let v = push_bit 7 v OR ucast (b AND 0x7f)
           in if b AND 0x80 \<noteq> 0 then base128_loop v cbs else (Some v, cbs))"

definition parse_base128_integer :: "u64 reader" where
  "parse_base128_integer = base128_loop 0"

definition parse_asn1_tag :: "CBS_ASN1_TAG reader" where
  "parse_asn1_tag =
     rbind CBS_get_u8 (\<lambda>tag_byte.
       let tag = push_bit CBS_ASN1_TAG_SHIFT (ucast tag_byte AND 0xe0);
           tag_number = ucast tag_byte AND 0x1f
       in rbind (if tag_number = 0x1f
                 then rbind parse_base128_integer (\<lambda>v.
                        rbind (rcheck (\<not> (v > ucast CBS_ASN1_TAG_NUMBER_MASK \<or> v < 0x1f)))
                          (\<lambda>_. rret (ucast v)))
                 else rret tag_number)
            (\<lambda>tag_number.
               let tag = tag OR tag_number
               in rbind (rcheck (tag AND NOT CBS_ASN1_CONSTRUCTED \<noteq> 0)) (\<lambda>_. rret tag)))"

text \<open>The five outputs of the element parser.\<close>

record asn1_element =
  el_bytes :: CBS
  el_tag :: CBS_ASN1_TAG
  el_header_len :: nat
  el_ber_found :: bool
  el_indefinite :: bool

text \<open>
  The header is parsed from a copy of the argument, which is advanced by the final
  \<open>CBS_get_bytes\<close> only. \<open>len + header_len + num_bytes < len\<close> is the overflow test on \<open>size_t\<close>.
\<close>

definition cbs_get_any_asn1_element :: "bool \<Rightarrow> asn1_element reader" where
  "cbs_get_any_asn1_element ber_ok cbs =
     (case parse_asn1_tag cbs of (None, _) \<Rightarrow> (None, cbs) | (Some tag, header) \<Rightarrow>
     (case CBS_get_u8 header of (None, _) \<Rightarrow> (None, cbs) | (Some length_byte, header) \<Rightarrow>
      let header_len = length cbs - length header;
          finish = (\<lambda>len hl ber indef.
            rbind (CBS_get_bytes len) (\<lambda>out.
              rret \<lparr>el_bytes = out, el_tag = tag, el_header_len = hl,
                    el_ber_found = ber, el_indefinite = indef\<rparr>) cbs)
      in if length_byte AND 0x80 = 0
         then finish (unat length_byte + header_len) header_len False False
         else let num_bytes = unat (length_byte AND 0x7f)
         in if ber_ok \<and> tag AND CBS_ASN1_CONSTRUCTED \<noteq> 0 \<and> num_bytes = 0
            then finish header_len header_len True True
            else if num_bytes = 0 \<or> num_bytes > 4 then (None, cbs)
            else (case cbs_get_u num_bytes header of (None, _) \<Rightarrow> (None, cbs) | (Some len64, _) \<Rightarrow>
              let ber1 = (len64 < 128); ber2 = (drop_bit ((num_bytes - 1) * 8) len64 = 0)
              in if (ber1 \<or> ber2) \<and> \<not> ber_ok then (None, cbs)
              else let len = len64 + of_nat header_len + of_nat num_bytes
              in if len < len64 then (None, cbs)
              else finish (unat len) (header_len + num_bytes) (ber1 \<or> ber2) False)))"

definition CBS_get_any_asn1_element :: "asn1_element reader" where
  "CBS_get_any_asn1_element = cbs_get_any_asn1_element False"

definition CBS_get_any_ber_asn1_element :: "asn1_element reader" where
  "CBS_get_any_ber_asn1_element = cbs_get_any_asn1_element True"

definition CBS_get_any_asn1 :: "(CBS \<times> CBS_ASN1_TAG) reader" where
  "CBS_get_any_asn1 =
     rbind CBS_get_any_asn1_element (\<lambda>el.
       case CBS_skip (el_header_len el) (el_bytes el) of
         (None, _) \<Rightarrow> rfail | (Some _, out) \<Rightarrow> rret (out, el_tag el))"

definition cbs_get_asn1 :: "CBS_ASN1_TAG \<Rightarrow> bool \<Rightarrow> CBS reader" where
  "cbs_get_asn1 tag_value skip_header =
     rbind CBS_get_any_asn1_element (\<lambda>el.
       if el_tag el \<noteq> tag_value then rfail
       else if skip_header
       then (case CBS_skip (el_header_len el) (el_bytes el) of
               (None, _) \<Rightarrow> rfail | (Some _, out) \<Rightarrow> rret out)
       else rret (el_bytes el))"

definition CBS_get_asn1 :: "CBS_ASN1_TAG \<Rightarrow> CBS reader" where
  "CBS_get_asn1 tag_value = cbs_get_asn1 tag_value True"

definition CBS_get_asn1_element :: "CBS_ASN1_TAG \<Rightarrow> CBS reader" where
  "CBS_get_asn1_element tag_value = cbs_get_asn1 tag_value False"

definition CBS_peek_asn1_tag :: "CBS \<Rightarrow> CBS_ASN1_TAG \<Rightarrow> bool" where
  "CBS_peek_asn1_tag cbs tag_value = (fst (parse_asn1_tag cbs) = Some tag_value)"

section \<open>Primitive types\<close>

text \<open>
  \<open>CBS_is_valid_asn1_integer\<close> returns the validity and, for a non-empty input, the sign bit.
\<close>

definition CBS_is_valid_asn1_integer :: "CBS \<Rightarrow> bool \<times> bool option" where
  "CBS_is_valid_asn1_integer cbs =
     (case CBS_get_u8 cbs of (None, _) \<Rightarrow> (False, None) | (Some first_byte, copy) \<Rightarrow>
      let neg = (first_byte AND 0x80 \<noteq> 0)
      in (case CBS_get_u8 copy of (None, _) \<Rightarrow> (True, Some neg) | (Some second_byte, _) \<Rightarrow>
         if (first_byte = 0x00 \<and> second_byte AND 0x80 = 0)
            \<or> (first_byte = 0xff \<and> second_byte AND 0x80 \<noteq> 0)
         then (False, Some neg) else (True, Some neg)))"

definition CBS_is_unsigned_asn1_integer :: "CBS \<Rightarrow> bool" where
  "CBS_is_unsigned_asn1_integer cbs \<longleftrightarrow> CBS_is_valid_asn1_integer cbs = (True, Some False)"

fun asn1_uint64_loop :: "u64 \<Rightarrow> byte list \<Rightarrow> u64 option" where
  "asn1_uint64_loop out [] = Some out"
| "asn1_uint64_loop out (b # data) =
     (if drop_bit 56 out \<noteq> 0 then None
      else asn1_uint64_loop (push_bit 8 out OR ucast b) data)"

definition CBS_get_asn1_uint64 :: "u64 reader" where
  "CBS_get_asn1_uint64 =
     rbind (CBS_get_asn1 CBS_ASN1_INTEGER) (\<lambda>bytes.
       if \<not> CBS_is_unsigned_asn1_integer bytes then rfail
       else (case asn1_uint64_loop 0 bytes of None \<Rightarrow> rfail | Some out \<Rightarrow> rret out))"

text \<open>The \<open>int64_t\<close> result is the 64-bit word \<open>CRYPTO_load_u64_be\<close> returns, read by \<open>sint\<close>.\<close>

definition CBS_get_asn1_int64 :: "u64 reader" where
  "CBS_get_asn1_int64 =
     rbind (CBS_get_asn1 CBS_ASN1_INTEGER) (\<lambda>bytes.
       case CBS_is_valid_asn1_integer bytes of
         (True, Some is_negative) \<Rightarrow>
           if length bytes > 8 then rfail
           else let sign_extend = replicate (8 - length bytes) (if is_negative then 0xff else 0) @ bytes
                in rret (load_be 0 sign_extend)
       | _ \<Rightarrow> rfail)"

definition CBS_get_asn1_bool :: "bool reader" where
  "CBS_get_asn1_bool =
     rbind (CBS_get_asn1 CBS_ASN1_BOOLEAN) (\<lambda>bytes.
       if length bytes \<noteq> 1 then rfail
       else let value = hd bytes
            in if value \<noteq> 0 \<and> value \<noteq> 0xff then rfail else rret (value \<noteq> 0))"

definition CBS_get_optional_asn1 :: "CBS_ASN1_TAG \<Rightarrow> CBS option reader" where
  "CBS_get_optional_asn1 tag cbs =
     (if CBS_peek_asn1_tag cbs tag
      then rbind (CBS_get_asn1 tag) (\<lambda>out. rret (Some out)) cbs
      else (Some None, cbs))"

text \<open>
  In the three readers below \<open>child\<close> is a local cursor: its element must fill it exactly.
\<close>

definition CBS_get_optional_asn1_octet_string :: "CBS_ASN1_TAG \<Rightarrow> (CBS \<times> bool) reader" where
  "CBS_get_optional_asn1_octet_string tag =
     rbind (CBS_get_optional_asn1 tag) (\<lambda>present.
       case present of
         Some child \<Rightarrow>
           (case CBS_get_asn1 CBS_ASN1_OCTETSTRING child of
              (Some out, []) \<Rightarrow> rret (out, True) | _ \<Rightarrow> rfail)
       | None \<Rightarrow> rret ([], False))"

definition CBS_get_optional_asn1_uint64 :: "CBS_ASN1_TAG \<Rightarrow> u64 \<Rightarrow> u64 reader" where
  "CBS_get_optional_asn1_uint64 tag default_value =
     rbind (CBS_get_optional_asn1 tag) (\<lambda>present.
       case present of
         Some child \<Rightarrow>
           (case CBS_get_asn1_uint64 child of (Some out, []) \<Rightarrow> rret out | _ \<Rightarrow> rfail)
       | None \<Rightarrow> rret default_value)"

definition CBS_get_optional_asn1_bool :: "CBS_ASN1_TAG \<Rightarrow> bool \<Rightarrow> bool reader" where
  "CBS_get_optional_asn1_bool tag default_value =
     rbind (CBS_get_optional_asn1 tag) (\<lambda>present.
       case present of
         Some child \<Rightarrow>
           (case CBS_get_asn1 CBS_ASN1_BOOLEAN child of
              (Some child2, child) \<Rightarrow>
                if length child2 \<noteq> 1 \<or> length child \<noteq> 0 then rfail
                else if hd child2 = 0 then rret False
                else if hd child2 = 0xff then rret True
                else rfail
            | _ \<Rightarrow> rfail)
       | None \<Rightarrow> rret default_value)"

definition CBS_is_valid_asn1_bitstring :: "CBS \<Rightarrow> bool" where
  "CBS_is_valid_asn1_bitstring cbs =
     (case CBS_get_u8 cbs of (None, _) \<Rightarrow> False | (Some num_unused_bits, inp) \<Rightarrow>
      if num_unused_bits > 7 then False
      else if num_unused_bits = 0 then True
      else (case CBS_get_last_u8 inp of (None, _) \<Rightarrow> False | (Some last_byte, _) \<Rightarrow>
            last_byte AND (push_bit (unat num_unused_bits) 1 - 1) = 0))"

definition CBS_asn1_bitstring_has_bit :: "CBS \<Rightarrow> u32 \<Rightarrow> bool" where
  "CBS_asn1_bitstring_has_bit cbs n =
     (if \<not> CBS_is_valid_asn1_bitstring cbs then False
      else let byte_num = drop_bit 3 n + 1; bit_num = 7 - (n AND 7)
           in unat byte_num < length cbs \<and>
              (cbs ! unat byte_num) AND push_bit (unat bit_num) 1 \<noteq> 0)"

fun oid_loop :: "byte \<Rightarrow> CBS \<Rightarrow> bool" where
  "oid_loop prev [] = (prev AND 0x80 = 0)"
| "oid_loop prev (v # copy) =
     (if prev AND 0x80 = 0 \<and> v = 0x80 then False else oid_loop v copy)"

definition CBS_is_valid_asn1_oid :: "CBS \<Rightarrow> bool" where
  "CBS_is_valid_asn1_oid cbs = (if length cbs = 0 then False else oid_loop 0 cbs)"

section \<open>The readers are framed\<close>

lemma framed_cbs_get [framed_rules]: "framed (cbs_get n)"
proof (rule framedI)
  fix s
  show "\<exists>used. s = used @ snd (cbs_get n s) \<and>
    (\<forall>x. fst (cbs_get n s) = Some x \<longrightarrow> (\<forall>t. cbs_get n (used @ t) = (Some x, t)))"
    by (cases "length s < n") (auto simp: cbs_get_def intro!: exI [of _ "take n s"])
qed

lemmas fixed_reader_defs =
  CBS_skip_def cbs_get_u_def CBS_get_u8_def CBS_get_u16_def CBS_get_u16le_def CBS_get_u24_def
  CBS_get_u32_def CBS_get_u32le_def CBS_get_u64_def CBS_get_u64le_def CBS_get_bytes_def
  CBS_copy_bytes_def cbs_get_length_prefixed_def CBS_get_u8_length_prefixed_def
  CBS_get_u16_length_prefixed_def CBS_get_u24_length_prefixed_def

lemma framed_fixed [framed_rules]:
  "framed (CBS_skip n)" "framed (cbs_get_u n)" "framed CBS_get_u8" "framed CBS_get_u16"
  "framed CBS_get_u16le" "framed CBS_get_u24" "framed CBS_get_u32" "framed CBS_get_u32le"
  "framed CBS_get_u64" "framed CBS_get_u64le" "framed (CBS_get_bytes n)" "framed (CBS_copy_bytes n)"
  "framed (cbs_get_length_prefixed n)" "framed CBS_get_u8_length_prefixed"
  "framed CBS_get_u16_length_prefixed" "framed CBS_get_u24_length_prefixed"
  unfolding fixed_reader_defs by (intro framed_rules)+

lemma CBS_get_u8_simps [simp]:
  "CBS_get_u8 [] = (None, [])"
  "CBS_get_u8 (b # cbs) = (Some b, cbs)"
  by (simp_all add: CBS_get_u8_def rbind_def cbs_get_def)

lemma cbs_get_append: "length bs = n \<Longrightarrow> cbs_get n (bs @ t) = (Some bs, t)"
  by (simp add: cbs_get_def)

lemma cbs_get_eq_Some: "cbs_get n s = (Some bs, t) \<longleftrightarrow> s = bs @ t \<and> length bs = n"
  by (auto simp: cbs_get_def)

lemma CBS_get_bytes_eq_Some:
  "CBS_get_bytes n s = (Some bs, t) \<longleftrightarrow> s = bs @ t \<and> length bs = n"
  by (simp add: CBS_get_bytes_def cbs_get_eq_Some)

section \<open>Fixed-width integers are big-endian numbers\<close>

lemma unat_load_be:
  "unat r * 256 ^ length data + be_nat data < 2 ^ 64 \<Longrightarrow>
   unat (load_be r data) = unat r * 256 ^ length data + be_nat data"
proof (induction data arbitrary: r)
  case (Cons b data)
  let ?r = "push_bit 8 r OR ucast b"
  have "unat r * 256 * 256 ^ length data < 2 ^ 64"
    using Cons.prems by (simp add: algebra_simps)
  then have "unat r * 256 < 2 ^ 64"
    by (rule le_less_trans [rotated]) simp
  then have r: "unat ?r = unat r * 256 + unat b"
    using unat_shift_or [of "ucast b :: u64" 8 r] by simp
  with Cons.prems have "unat ?r * 256 ^ length data + be_nat data < 2 ^ 64"
    by (simp add: algebra_simps)
  then show ?case using Cons.IH [of ?r] r by (simp add: algebra_simps)
qed simp

lemma cbs_get_u_eq_Some:
  assumes "n \<le> 8"
  shows "cbs_get_u n s = (Some v, t) \<longleftrightarrow> unat v < 256 ^ n \<and> s = be_bytes n (unat v) @ t"
proof -
  have v: "unat (load_be 0 bs) = be_nat bs" if "length bs = n" for bs
  proof -
    have "be_nat bs < 256 ^ n" using be_nat_less [of bs] that by simp
    also have "(256 :: nat) ^ n \<le> 256 ^ 8" using assms by (intro power_increasing) auto
    finally show ?thesis using unat_load_be [of 0 bs] by simp
  qed
  show ?thesis
  proof
    assume "cbs_get_u n s = (Some v, t)"
    then obtain bs where "s = bs @ t" "length bs = n" "v = load_be 0 bs"
      by (auto simp: cbs_get_u_def rbind_eq_Some cbs_get_eq_Some)
    then show "unat v < 256 ^ n \<and> s = be_bytes n (unat v) @ t"
      using v [of bs] be_nat_less [of bs] by (simp add: be_bytes_be_nat)
  next
    assume a: "unat v < 256 ^ n \<and> s = be_bytes n (unat v) @ t"
    then have "unat (load_be 0 (be_bytes n (unat v))) = unat v"
      using v [of "be_bytes n (unat v)"] by (simp add: be_nat_be_bytes)
    then have "load_be 0 (be_bytes n (unat v)) = v" by (simp add: word_unat_eq_iff)
    with a show "cbs_get_u n s = (Some v, t)"
      by (simp add: cbs_get_u_def rbind_def cbs_get_append)
  qed
qed

end
