(* ===== verification/Der.thy ===== *)
theory Der
  imports Cbs
begin

text \<open>
  What the element parser of \<open>cbs.c\<close> accepts. The first part states the DER encoding as a
  specification: identifier octets, minimal length octets, and an element made of the two and its
  contents. The lemmas show that the parser accepts exactly these encodings.
\<close>

section \<open>Base-128 integers\<close>

text \<open>
  The encoding of X.690: base-128 digits, most significant first and without leading zero digits,
  every digit but the last with the high bit set.
\<close>

fun base128_hi :: "nat \<Rightarrow> byte list" where
  "base128_hi n = (if n = 0 then [] else base128_hi (n div 128) @ [of_nat (128 + n mod 128)])"

definition base128 :: "nat \<Rightarrow> byte list" where
  "base128 n = base128_hi (n div 128) @ [of_nat (n mod 128)]"

declare base128_hi.simps [simp del]

lemma base128_hi_0 [simp]: "base128_hi 0 = []"
  by (simp add: base128_hi.simps)

lemma base128_hi_step:
  "0 < n \<Longrightarrow> base128_hi n = base128_hi (n div 128) @ [of_nat (128 + n mod 128)]"
  by (simp add: base128_hi.simps)

lemma unat_base128_step:
  assumes "unat (v :: u64) < 2 ^ 57"
  shows "unat (push_bit 7 v OR ucast ((b :: byte) AND 0x7f)) = unat v * 128 + unat b mod 128"
proof -
  have "unat (ucast (b AND 0x7f) :: u64) = unat b mod 128"
    by (simp add: byte_low_bits)
  then show ?thesis
    using unat_shift_or [of "ucast (b AND 0x7f) :: u64" 7 v] assms by simp
qed

lemma byte_0x80: "(b :: byte) = 0x80 \<longleftrightarrow> unat b = 128"
  by (simp add: word_unat_eq_iff)

lemma base128_loop_Cons:
  "base128_loop v (b # cbs) =
     (if unat v < 2 ^ 57 \<and> \<not> (v = 0 \<and> b = 0x80)
      then let v = push_bit 7 v OR ucast (b AND 0x7f)
           in if 128 \<le> unat b then base128_loop v cbs else (Some v, cbs)
      else (None, cbs))"
  by (simp add: Let_def byte_high_bit drop_bit_eq_0_nat not_less)

declare base128_loop.simps(2) [simp del]

lemma base128_loop_sound:
  "base128_loop v s = (Some w, t) \<Longrightarrow>
   \<exists>bs. s = bs @ t \<and> base128 (unat w) = base128_hi (unat v) @ bs"
proof (induction s arbitrary: v)
  case (Cons b cbs)
  let ?v = "push_bit 7 v OR ucast (b AND 0x7f) :: u64"
  have "(unat v < 2 ^ 57 \<and> \<not> (v = 0 \<and> b = 0x80)) \<and>
      (if 128 \<le> unat b then base128_loop ?v cbs = (Some w, t) else ?v = w \<and> cbs = t)"
    using Cons.prems unfolding base128_loop_Cons Let_def if_None_eq_Some
    unfolding if_eq_distrib prod.inject option.inject .
  then have v: "unat v < 2 ^ 57" and nz: "\<not> (v = 0 \<and> b = 0x80)"
    and rest: "if 128 \<le> unat b then base128_loop ?v cbs = (Some w, t) else ?v = w \<and> cbs = t"
    by blast+
  have v': "unat ?v = unat v * 128 + unat b mod 128" by (rule unat_base128_step [OF v])
  have dm: "unat ?v div 128 = unat v" "unat ?v mod 128 = unat b mod 128"
    by (simp_all only: v') simp_all
  show ?case
  proof (cases "128 \<le> unat b")
    case False
    with rest have "w = ?v" "t = cbs" by (simp_all only: if_False)
    moreover have "base128 (unat ?v) = base128_hi (unat v) @ [of_nat (unat b mod 128)]"
      by (simp only: base128_def dm)
    moreover from False have "of_nat (unat b mod 128) = b" by simp
    ultimately show ?thesis by (intro exI [of _ "[b]"]) (simp only: append.simps)
  next
    case True
    moreover have "unat b - 128 < 128" using byte_bound [of b] by linarith
    ultimately have m: "128 + unat b mod 128 = unat b"
      using le_mod_geq [of 128 "unat b"] by simp
    have "0 < unat ?v"
    proof (cases "v = 0")
      case True
      with nz have "unat b \<noteq> 128" by (simp add: byte_0x80)
      with m have "0 < unat b mod 128" by linarith
      then show ?thesis unfolding v' by (rule trans_less_add2)
    next
      case False
      then have "0 < unat v * 128" by (simp add: unat_gt_0)
      then show ?thesis unfolding v' by (rule trans_less_add1)
    qed
    then have "base128_hi (unat ?v) = base128_hi (unat v) @ [b]"
      by (simp only: base128_hi_step dm m) simp
    moreover from True rest have "base128_loop ?v cbs = (Some w, t)" by (simp only: if_True)
    ultimately obtain bs where "cbs = bs @ t" "base128 (unat w) = (base128_hi (unat v) @ [b]) @ bs"
      using Cons.IH [of ?v] by metis
    then show ?thesis by (intro exI [of _ "b # bs"]) simp
  qed
qed simp

lemma base128_loop_hi:
  "n < 2 ^ 64 \<Longrightarrow> base128_loop 0 (base128_hi n @ t) = base128_loop (of_nat n) t"
proof (induction n arbitrary: t rule: less_induct)
  case (less n)
  show ?case
  proof (cases "n = 0")
    case False
    let ?v = "of_nat (n div 128) :: u64" and ?b = "of_nat (128 + n mod 128) :: byte"
    have v: "unat ?v = n div 128" "n div 128 < 2 ^ 57"
      using less.prems by (simp_all add: unat_of_nat)
    have "unat ?b = (128 + n mod 128) mod 256" by (rule unat_of_nat_byte)
    also have "\<dots> = 128 + n mod 128" by simp
    finally have b: "unat ?b = 128 + n mod 128" .
    have "\<not> (?v = 0 \<and> ?b = 0x80)"
    proof
      assume "?v = 0 \<and> ?b = 0x80"
      then have "n div 128 = 0" "n mod 128 = 0"
        using v(1) b by (metis unat_0, metis add_cancel_left_right byte_0x80)
      with False show False by (metis div_mult_mod_eq mult_zero_left add_0)
    qed
    moreover have "push_bit 7 ?v OR ucast (?b AND 0x7f) = (of_nat n :: u64)"
    proof -
      have "unat (push_bit 7 ?v OR ucast (?b AND 0x7f)) = n"
        using unat_base128_step [of ?v ?b] v b by simp
      then show ?thesis by (rule word_eq_of_nat)
    qed
    ultimately have "base128_loop ?v (?b # t) = base128_loop (of_nat n) t"
      using v b by (simp only: base128_loop_Cons Let_def) simp
    then show ?thesis
      using less.IH [of "n div 128" "?b # t"] less.prems False by (simp add: base128_hi_step)
  qed simp
qed

lemma parse_base128_integer_iff:
  "parse_base128_integer s = (Some v, t) \<longleftrightarrow> s = base128 (unat v) @ t"
proof
  assume "parse_base128_integer s = (Some v, t)"
  then show "s = base128 (unat v) @ t"
    using base128_loop_sound [of 0 s v t] by (auto simp: parse_base128_integer_def)
next
  assume s: "s = base128 (unat v) @ t"
  let ?n = "unat v"
  let ?v = "of_nat (?n div 128) :: u64" and ?b = "of_nat (?n mod 128) :: byte"
  have n: "?n < 2 ^ 64" using unat_bound [of v] by simp
  have v': "unat ?v = ?n div 128" "?n div 128 < 2 ^ 57" using n by (simp_all add: unat_of_nat)
  have b: "unat ?b = ?n mod 128" using unat_of_nat_byte [of "?n mod 128"] by simp
  have m: "?n mod 128 < 128" by simp
  then have "\<not> (?v = 0 \<and> ?b = 0x80)"
    using b unfolding byte_0x80 by linarith
  moreover have "push_bit 7 ?v OR ucast (?b AND 0x7f) = v"
  proof -
    have "unat (push_bit 7 ?v OR ucast (?b AND 0x7f)) = ?n"
      using unat_base128_step [of ?v ?b] v' b by simp
    then show ?thesis by (simp only: word_unat_eq_iff)
  qed
  ultimately have "base128_loop ?v (?b # t) = (Some v, t)"
    using v' b m by (simp only: base128_loop_Cons Let_def not_le [symmetric]) simp
  moreover have "base128_loop 0 s = base128_loop ?v (?b # t)"
    unfolding s base128_def using base128_loop_hi [of "?n div 128" "?b # t"] n by simp
  ultimately show "parse_base128_integer s = (Some v, t)"
    by (simp only: parse_base128_integer_def)
qed

lemma length_base128_hi: "n < 128 ^ k \<Longrightarrow> length (base128_hi n) \<le> k"
proof (induction k arbitrary: n)
  case (Suc k)
  show ?case
  proof (cases "n = 0")
    case False
    with Suc.IH [of "n div 128"] Suc.prems show ?thesis
      by (simp add: base128_hi_step)
  qed simp
qed simp

section \<open>Identifier octets\<close>

text \<open>
  A tag in memory holds the class and the constructed bit above bit 29 and the tag number below.
  \<open>valid_tag\<close> excludes \<open>[UNIVERSAL 0]\<close>, with or without the constructed bit.
\<close>

definition tag_class :: "CBS_ASN1_TAG \<Rightarrow> nat" where
  "tag_class tag = unat tag div 2 ^ 29"

definition tag_number :: "CBS_ASN1_TAG \<Rightarrow> nat" where
  "tag_number tag = unat tag mod 2 ^ 29"

definition valid_tag :: "CBS_ASN1_TAG \<Rightarrow> bool" where
  "valid_tag tag \<longleftrightarrow> tag AND NOT CBS_ASN1_CONSTRUCTED \<noteq> 0"

definition asn1_identifier :: "CBS_ASN1_TAG \<Rightarrow> byte list" where
  "asn1_identifier tag =
     (if tag_number tag < 31 then [of_nat (tag_class tag * 32 + tag_number tag)]
      else of_nat (tag_class tag * 32 + 31) # base128 (tag_number tag))"

lemma tag_parts: "unat tag = tag_class tag * 2 ^ 29 + tag_number tag"
  "tag_class tag < 8" "tag_number tag < 2 ^ 29"
  using unat_bound [of tag] by (simp_all add: tag_class_def tag_number_def)

lemma tag_eqI: "unat tag = c * 2 ^ 29 + n \<Longrightarrow> n < 2 ^ 29 \<Longrightarrow> tag_class tag = c \<and> tag_number tag = n"
  by (simp add: tag_class_def tag_number_def)

lemma length_asn1_identifier: "length (asn1_identifier tag) \<le> 6"
proof -
  have "length (base128_hi (tag_number tag div 128)) \<le> 4"
    using tag_parts(3) [of tag] by (intro length_base128_hi) simp
  then show ?thesis by (simp add: asn1_identifier_def base128_def)
qed

lemma tag_byte_shift:
  "push_bit 24 (ucast (b :: byte) AND 0xe0 :: u32) = push_bit 29 (ucast (drop_bit 5 b))"
proof -
  have "(ucast b AND 0xe0 :: u32) = ucast b AND push_bit 5 (mask 3)"
    by (simp add: mask_eq_exp_minus_1)
  also have "\<dots> = push_bit 5 (ucast (drop_bit 5 b))"
    by (rule bit_word_eqI) (auto simp: bit_simps dest: bit_imp_le_length)
  finally show ?thesis by (simp only: push_bit_push_bit) simp
qed

lemma tag_byte_number: "unat (ucast (b :: byte) AND 0x1f :: u32) = unat b mod 32"
  using unat_and_mask [of "ucast b :: u32" 5] by (simp add: mask_eq_exp_minus_1)

definition tag_word :: "byte \<Rightarrow> u32 \<Rightarrow> CBS_ASN1_TAG" where
  "tag_word b n = push_bit CBS_ASN1_TAG_SHIFT (ucast b AND 0xe0) OR n"

lemma tag_word:
  assumes "unat n < 2 ^ 29"
  shows "tag_class (tag_word b n) = unat b div 32" "tag_number (tag_word b n) = unat n"
proof -
  have "unat (ucast (drop_bit 5 b) :: u32) = unat b div 32"
    using unat_drop_bit [of 5 b] by simp
  moreover have "unat b div 32 < 8" using byte_bound [of b] by linarith
  ultimately have "unat (tag_word b n) = unat b div 32 * 2 ^ 29 + unat n"
    unfolding tag_word_def tag_byte_shift
    using unat_shift_or [of n 29 "ucast (drop_bit 5 b) :: u32"] assms by simp
  from tag_eqI [OF this assms]
  show "tag_class (tag_word b n) = unat b div 32" "tag_number (tag_word b n) = unat n" by simp_all
qed

lemma tag_word_eqI:
  assumes "unat n = tag_number tag" "unat b div 32 = tag_class tag"
  shows "tag_word b n = tag"
proof -
  have "unat n < 2 ^ 29" using assms(1) tag_parts(3) [of tag] by (simp only:)
  from tag_word [OF this, of b] assms have "unat (tag_word b n) = unat tag"
    using tag_parts(1) [of "tag_word b n"] tag_parts(1) [of tag] by (simp only:)
  then show ?thesis by (simp only: word_unat_eq_iff)
qed

text \<open>The identifier octets are exactly what \<open>parse_asn1_tag\<close> accepts.\<close>

lemma parse_asn1_tag_Cons:
  "parse_asn1_tag (b # s) =
     (if unat b mod 32 = 31
      then (case parse_base128_integer s of
              (None, t) \<Rightarrow> (None, t)
            | (Some v, t) \<Rightarrow>
                if 31 \<le> unat v \<and> unat v < 2 ^ 29 \<and> valid_tag (tag_word b (ucast v))
                then (Some (tag_word b (ucast v)), t) else (None, t))
      else if valid_tag (tag_word b (ucast b AND 0x1f))
      then (Some (tag_word b (ucast b AND 0x1f)), s) else (None, s))"
proof -
  have n: "(ucast b AND 0x1f :: u32) = 0x1f \<longleftrightarrow> unat b mod 32 = 31"
    using tag_byte_number [of b] by (simp add: word_unat_eq_iff)
  have r: "\<not> (v > ucast CBS_ASN1_TAG_NUMBER_MASK \<or> v < 0x1f) \<longleftrightarrow> 31 \<le> unat v \<and> unat v < 2 ^ 29"
    for v :: u64
    by (auto simp: word_less_nat_alt)
  note unf = parse_asn1_tag_def rbind_def CBS_get_u8_simps prod.case option.case Let_def n r
    valid_tag_def [symmetric] tag_word_def [symmetric] rcheck_apply rret_apply
  obtain v t where p: "parse_base128_integer s = (v, t)" by fastforce
  show ?thesis
    by (cases "unat b mod 32 = 31"; cases v)
      (simp_all only: unf p if_True if_False simp_thms case_prod_if case_option_if if_conj_nest)
qed

lemma parse_asn1_tag_Nil [simp]: "parse_asn1_tag [] = (None, [])"
  by (simp add: parse_asn1_tag_def rbind_def)

lemma of_nat_byte_split:
  assumes "k < 8" "n < 32"
  shows "unat (of_nat (k * 32 + n) :: byte) div 32 = k"
    and "unat (of_nat (k * 32 + n) :: byte) mod 32 = n"
proof -
  have "k * 32 + n < 256" using assms by linarith
  then have "unat (of_nat (k * 32 + n) :: byte) = k * 32 + n"
    by (simp only: unat_of_nat_byte mod_less)
  with assms show "unat (of_nat (k * 32 + n) :: byte) div 32 = k"
    "unat (of_nat (k * 32 + n) :: byte) mod 32 = n" by simp_all
qed

lemma unat_ucast_tag: "unat (v :: u64) < 2 ^ 29 \<Longrightarrow> unat (ucast v :: u32) = unat v"
  by (simp add: unsigned_ucast_eq take_bit_nat_eq_self)

lemma parse_asn1_tag_iff:
  "parse_asn1_tag s = (Some tag, t) \<longleftrightarrow> valid_tag tag \<and> s = asn1_identifier tag @ t"
proof
  assume p: "parse_asn1_tag s = (Some tag, t)"
  then obtain b s' where s: "s = b # s'" by (cases s) simp_all
  have b: "of_nat (unat b div 32 * 32 + unat b mod 32) = b" by simp
  show "valid_tag tag \<and> s = asn1_identifier tag @ t"
  proof (cases "unat b mod 32 = 31")
    case True
    with p s obtain v where v: "parse_base128_integer s' = (Some v, t)"
      and n: "31 \<le> unat v" "unat v < 2 ^ 29" and tag: "valid_tag tag" "tag_word b (ucast v) = tag"
      by (auto simp: parse_asn1_tag_Cons split: prod.splits option.splits if_splits)
    from v have "s' = base128 (unat v) @ t" by (simp only: parse_base128_integer_iff)
    moreover have "tag_class tag = unat b div 32" "tag_number tag = unat v"
      using tag_word [of "ucast v" b] n tag(2) by (simp_all add: unat_ucast_tag)
    ultimately show ?thesis using tag(1) n b True by (simp add: asn1_identifier_def s)
  next
    case False
    with p s have tag: "valid_tag tag" "tag_word b (ucast b AND 0x1f) = tag" "t = s'"
      by (auto simp: parse_asn1_tag_Cons split: if_splits)
    have "unat b mod 32 < 31" using False mod_less_divisor [of 32 "unat b"] by linarith
    moreover have "tag_class tag = unat b div 32" "tag_number tag = unat b mod 32"
      using tag_word [of "ucast b AND 0x1f" b] tag(2) tag_byte_number [of b] by simp_all
    ultimately show ?thesis using tag b by (simp add: asn1_identifier_def s)
  qed
next
  assume a: "valid_tag tag \<and> s = asn1_identifier tag @ t"
  have c: "tag_class tag < 8" "tag_number tag < 2 ^ 29" by (rule tag_parts)+
  show "parse_asn1_tag s = (Some tag, t)"
  proof (cases "tag_number tag < 31")
    case True
    let ?b = "of_nat (tag_class tag * 32 + tag_number tag) :: byte"
    have b: "unat ?b div 32 = tag_class tag" "unat ?b mod 32 = tag_number tag"
      using of_nat_byte_split [of "tag_class tag" "tag_number tag"] c True by simp_all
    have "tag_word ?b (ucast ?b AND 0x1f) = tag"
      using tag_byte_number [of ?b] b by (intro tag_word_eqI) (simp_all only:)
    moreover have "s = ?b # t" using a True by (simp add: asn1_identifier_def)
    ultimately show ?thesis
      using a b True by (simp only: parse_asn1_tag_Cons if_True) simp
  next
    case False
    let ?b = "of_nat (tag_class tag * 32 + 31) :: byte" and ?v = "of_nat (tag_number tag) :: u64"
    have b: "unat ?b div 32 = tag_class tag" "unat ?b mod 32 = 31"
      using of_nat_byte_split [of "tag_class tag" 31] c by simp_all
    have v: "unat ?v = tag_number tag" using c by (simp add: unat_of_nat)
    have "tag_word ?b (ucast ?v) = tag"
      using b v c by (intro tag_word_eqI) (simp_all only: unat_ucast_tag)
    moreover have "s = ?b # base128 (unat ?v) @ t" using a False v by (simp add: asn1_identifier_def)
    moreover have "parse_base128_integer (base128 (unat ?v) @ t) = (Some ?v, t)"
      by (simp only: parse_base128_integer_iff)
    ultimately show ?thesis
      using a b v c False by (simp only: parse_asn1_tag_Cons if_True) simp
  qed
qed

section \<open>Length octets and elements\<close>

text \<open>The minimal definite length octets of DER, for lengths below \<open>2 ^ 32\<close>.\<close>

definition asn1_length :: "nat \<Rightarrow> byte list" where
  "asn1_length n =
     (if n < 2 ^ 7 then [of_nat n]
      else if n < 2 ^ 8 then 0x81 # be_bytes 1 n
      else if n < 2 ^ 16 then 0x82 # be_bytes 2 n
      else if n < 2 ^ 24 then 0x83 # be_bytes 3 n
      else 0x84 # be_bytes 4 n)"

definition der_header :: "CBS_ASN1_TAG \<Rightarrow> nat \<Rightarrow> byte list" where
  "der_header tag n = asn1_identifier tag @ asn1_length n"

definition der_element :: "CBS_ASN1_TAG \<Rightarrow> byte list \<Rightarrow> byte list" where
  "der_element tag contents = der_header tag (length contents) @ contents"

definition asn1_el :: "CBS_ASN1_TAG \<Rightarrow> byte list \<Rightarrow> asn1_element" where
  "asn1_el tag contents =
     \<lparr>el_bytes = der_element tag contents, el_tag = tag,
      el_header_len = length (der_header tag (length contents)),
      el_ber_found = False, el_indefinite = False\<rparr>"

text \<open>
  The long form as the parser sees it: a first octet \<open>0x80 + k\<close> with \<open>k\<close> between one and four,
  and \<open>k\<close> octets of a number that needs all of them.
\<close>

lemma asn1_length_long:
  assumes "1 \<le> k" "k \<le> 4" "128 \<le> n" "256 ^ (k - 1) \<le> n" "n < 256 ^ k"
  shows "asn1_length n = of_nat (128 + k) # be_bytes k n"
proof -
  from assms(1,2) have "k \<in> {1, 2, 3, 4}" by auto
  then show ?thesis using assms(3-) by (elim insertE) (simp_all add: asn1_length_def)
qed

lemma asn1_length_long_ex:
  fixes n :: nat
  assumes "128 \<le> n" "n < 2 ^ 32"
  obtains k where "1 \<le> k" "k \<le> 4" "256 ^ (k - 1) \<le> n" "n < 256 ^ k"
proof -
  consider "n < 2 ^ 8" | "2 ^ 8 \<le> n" "n < 2 ^ 16" | "2 ^ 16 \<le> n" "n < 2 ^ 24" | "2 ^ 24 \<le> n"
    by linarith
  then show ?thesis
    using assms that [of 1] that [of 2] that [of 3] that [of 4] by cases simp_all
qed

lemma CBS_get_bytes_after:
  "CBS_get_bytes (n + length hdr) (hdr @ s) = (Some bs, t) \<longleftrightarrow>
   (\<exists>contents. length contents = n \<and> bs = hdr @ contents \<and> s = contents @ t)"
  (is "?L \<longleftrightarrow> ?R")
proof
  assume ?L
  then have a: "hdr @ s = bs @ t" "length bs = n + length hdr"
    by (simp_all add: CBS_get_bytes_eq_Some)
  then have "take (length hdr) bs = hdr" "s = drop (length hdr) bs @ t"
    by (auto simp: append_eq_append_conv_if)
  then show ?R using a(2) by (intro exI [of _ "drop (length hdr) bs"]) (metis append_take_drop_id length_drop add_diff_cancel_right')
next
  assume ?R
  then show ?L by (auto simp: CBS_get_bytes_eq_Some)
qed

text \<open>The element parser after the tag, as conditions on numbers.\<close>

definition el_finish ::
  "CBS \<Rightarrow> CBS_ASN1_TAG \<Rightarrow> nat \<Rightarrow> nat \<Rightarrow> bool \<Rightarrow> bool \<Rightarrow> asn1_element option \<times> CBS" where
  "el_finish cbs tag len hl ber indef =
     rbind (CBS_get_bytes len) (\<lambda>out.
       rret \<lparr>el_bytes = out, el_tag = tag, el_header_len = hl,
             el_ber_found = ber, el_indefinite = indef\<rparr>) cbs"

lemma el_finish_eq_Some:
  "el_finish (hdr @ s) tag (n + length hdr) hl ber indef = (Some el, t) \<longleftrightarrow>
   (\<exists>contents. length contents = n \<and> s = contents @ t \<and>
      el = \<lparr>el_bytes = hdr @ contents, el_tag = tag, el_header_len = hl,
            el_ber_found = ber, el_indefinite = indef\<rparr>)"
  by (auto simp: el_finish_def rbind_eq_Some CBS_get_bytes_after)

text \<open>
  One step of the parser per length form: \<open>short\<close>, \<open>indefinite\<close> and \<open>long\<close>. The sum of a length
  below \<open>2 ^ 32\<close> and a header does not wrap around.
\<close>

lemma no_length_overflow:
  assumes "unat (len :: u64) < 2 ^ 32" "hl \<le> 7" "nb \<le> 4"
  shows "unat (len + of_nat hl + of_nat nb) = unat len + hl + nb"
    and "\<not> len + of_nat hl + of_nat nb < len"
proof -
  have "unat (of_nat hl :: u64) = hl" "unat (of_nat nb :: u64) = nb"
    using assms by (simp_all add: unat_of_nat)
  then show "unat (len + of_nat hl + of_nat nb) = unat len + hl + nb"
    using assms by (simp add: unat_word_ariths)
  then show "\<not> len + of_nat hl + of_nat nb < len"
    by (simp add: word_less_nat_alt not_less)
qed

lemma get_any_element_short:
  assumes "parse_asn1_tag cbs = (Some tag, b # s)" "cbs = idn @ b # s" "unat b < 128"
  shows "cbs_get_any_asn1_element ber_ok cbs =
    el_finish cbs tag (unat b + length (idn @ [b])) (length (idn @ [b])) False False"
  using assms(3) unfolding byte_high_bit [symmetric]
  by (simp add: cbs_get_any_asn1_element_def assms(1) Let_def el_finish_def) (simp add: assms(2))

lemma get_any_element_long:
  assumes tag: "parse_asn1_tag cbs = (Some tag, b # s)" "cbs = idn @ b # s"
    and b: "unat b = 128 + k" "1 \<le> k" "k \<le> 4" and idn: "length idn \<le> 6"
    and len: "cbs_get_u k s = (Some len, s')"
  shows "cbs_get_any_asn1_element False cbs =
    (if unat len < 128 \<or> unat len < 256 ^ (k - 1) then (None, cbs)
     else el_finish cbs tag (unat len + (length (idn @ [b]) + k)) (length (idn @ [b]) + k) False False)"
proof -
  have l: "length cbs - length s = length (idn @ [b])" by (simp add: tag(2))
  have "unat (b AND 0x7f) = k" using b by (simp add: byte_low_bits)
  moreover have "b AND 0x80 \<noteq> 0" using b by (simp add: byte_high_bit)
  moreover have "unat len < 2 ^ 32"
  proof -
    have "unat len < 256 ^ k" using len b by (simp add: cbs_get_u_eq_Some)
    also have "(256 :: nat) ^ k \<le> 256 ^ 4" using b(3) by (intro power_increasing) simp_all
    finally show ?thesis by simp
  qed
  moreover have "drop_bit ((k - 1) * 8) len = 0 \<longleftrightarrow> unat len < 256 ^ (k - 1)"
    unfolding drop_bit_eq_0_nat by (simp add: power_mult mult.commute [of _ 8])
  moreover have "len < 128 \<longleftrightarrow> unat len < 128" by (simp add: word_less_nat_alt)
  moreover note no_length_overflow [of len "length (idn @ [b])" k]
  ultimately show ?thesis
    using b idn
    by (simp only: cbs_get_any_asn1_element_def tag(1) prod.case option.case CBS_get_u8_simps
        Let_def l len simp_thms if_False el_finish_def [symmetric])
       (simp add: add.assoc)
qed

lemma get_any_element_bad:
  assumes tag: "parse_asn1_tag cbs = (Some tag, b # s)" and b: "unat b = 128 + k"
    and bad: "k = 0 \<or> 4 < k \<or> fst (cbs_get_u k s) = None"
  shows "fst (cbs_get_any_asn1_element False cbs) = None"
proof -
  have "k < 128" using b byte_bound [of b] by linarith
  then have "unat (b AND 0x7f) = k" using b by (simp add: byte_low_bits)
  moreover have "b AND 0x80 \<noteq> 0" using b by (simp add: byte_high_bit)
  ultimately show ?thesis
    using bad
    by (simp only: cbs_get_any_asn1_element_def tag(1) prod.case option.case CBS_get_u8_simps Let_def)
       (auto split: prod.splits option.splits)
qed

lemma CBS_get_any_asn1_element_sound:
  assumes r: "CBS_get_any_asn1_element cbs = (Some el, t)"
  shows "\<exists>contents. valid_tag (el_tag el) \<and> length contents < 2 ^ 32 \<and>
    el = asn1_el (el_tag el) contents \<and> cbs = der_element (el_tag el) contents @ t"
proof -
  from r have r: "cbs_get_any_asn1_element False cbs = (Some el, t)"
    by (simp add: CBS_get_any_asn1_element_def)
  then obtain tag h where h: "parse_asn1_tag cbs = (Some tag, h)"
    by (auto simp: cbs_get_any_asn1_element_def split: prod.splits option.splits)
  then obtain b s where b: "h = b # s"
    using r by (cases h) (auto simp: cbs_get_any_asn1_element_def)
  define idn where "idn = asn1_identifier tag"
  from h have tag: "valid_tag tag" "cbs = idn @ b # s"
    by (simp_all add: parse_asn1_tag_iff idn_def b)
  then have cbs: "cbs = (idn @ [b]) @ s" by simp
  have idn: "length idn \<le> 6" by (simp add: idn_def length_asn1_identifier)
  note p = h [unfolded b]
  show ?thesis
  proof (cases "unat b < 128")
    case True
    with r have "el_finish ((idn @ [b]) @ s) tag (unat b + length (idn @ [b])) (length (idn @ [b]))
        False False = (Some el, t)"
      using get_any_element_short [OF p tag(2) True, of False] by (simp add: cbs)
    then obtain contents where c: "length contents = unat b" "s = contents @ t"
      "el = \<lparr>el_bytes = (idn @ [b]) @ contents, el_tag = tag, el_header_len = length (idn @ [b]),
            el_ber_found = False, el_indefinite = False\<rparr>"
      unfolding el_finish_eq_Some by blast
    have "asn1_length (unat b) = [b]" using True by (simp add: asn1_length_def)
    then have "der_header tag (length contents) = idn @ [b]"
      by (simp add: der_header_def c idn_def)
    then show ?thesis
      using c tag(1) True cbs
      by (intro exI [of _ contents]) (simp add: asn1_el_def der_element_def)
  next
    case False
    define k where "k = unat b - 128"
    with False have k: "unat b = 128 + k" by simp
    with r get_any_element_bad [OF p k] obtain len s' where
      "1 \<le> k" "k \<le> 4" and len: "cbs_get_u k s = (Some len, s')"
      by (cases "cbs_get_u k s"; cases "fst (cbs_get_u k s)") (force simp: not_less)+
    note k = k this
    then have l: "unat len < 256 ^ k" "s = be_bytes k (unat len) @ s'"
      by (simp_all add: cbs_get_u_eq_Some)
    let ?hdr = "(idn @ [b]) @ be_bytes k (unat len)"
    from r have min: "128 \<le> unat len" "256 ^ (k - 1) \<le> unat len"
      and "el_finish cbs tag (unat len + (length (idn @ [b]) + k)) (length (idn @ [b]) + k)
        False False = (Some el, t)"
      unfolding get_any_element_long [OF p tag(2) k(1-3) idn len] by (auto split: if_splits)
    then have "el_finish (?hdr @ s') tag (unat len + length ?hdr) (length ?hdr)
        False False = (Some el, t)"
      unfolding cbs l(2) by simp
    then obtain contents where c: "length contents = unat len" "s' = contents @ t"
      "el = \<lparr>el_bytes = ?hdr @ contents, el_tag = tag, el_header_len = length ?hdr,
            el_ber_found = False, el_indefinite = False\<rparr>"
      unfolding el_finish_eq_Some by blast
    have "b = of_nat (128 + k)" using k(1) by (rule word_eq_of_nat)
    then have "asn1_length (unat len) = b # be_bytes k (unat len)"
      using asn1_length_long [OF k(2,3) min l(1)] by simp
    then have hdr: "der_header tag (length contents) = ?hdr"
      by (simp add: der_header_def c idn_def)
    have "(256 :: nat) ^ k \<le> 256 ^ 4" using k(3) by (intro power_increasing) simp_all
    with l(1) have "unat len < 2 ^ 32" by simp
    with c tag(1) cbs l(2) hdr show ?thesis
      by (intro exI [of _ contents]) (simp add: asn1_el_def der_element_def)
  qed
qed

lemma CBS_get_any_asn1_element_complete:
  assumes tag: "valid_tag tag" and c: "length contents < 2 ^ 32"
  shows "CBS_get_any_asn1_element (der_element tag contents @ t) = (Some (asn1_el tag contents), t)"
proof -
  define idn where "idn = asn1_identifier tag"
  define n where "n = length contents"
  define cbs where "cbs = der_element tag contents @ t"
  have idn: "length idn \<le> 6" by (simp add: idn_def length_asn1_identifier)
  have p: "parse_asn1_tag cbs = (Some tag, h)" if "cbs = idn @ h" for h
    using tag that by (simp add: parse_asn1_tag_iff idn_def)
  have "cbs_get_any_asn1_element False cbs = (Some (asn1_el tag contents), t)"
  proof (cases "n < 128")
    case True
    let ?b = "of_nat n :: byte" and ?s = "contents @ t"
    have b: "unat ?b = n" using True by (simp add: unat_of_nat_byte)
    have hdr: "der_header tag n = idn @ [?b]"
      using True by (simp add: der_header_def asn1_length_def idn_def)
    then have cbs: "cbs = idn @ ?b # ?s" "cbs = (idn @ [?b]) @ ?s"
      by (simp_all add: cbs_def der_element_def n_def)
    have "el_finish ((idn @ [?b]) @ ?s) tag (n + length (idn @ [?b])) (length (idn @ [?b])) False False
        = (Some (asn1_el tag contents), t)"
      unfolding el_finish_eq_Some using hdr
      by (intro exI [of _ contents]) (simp add: asn1_el_def der_element_def n_def)
    then show ?thesis
      using get_any_element_short [OF p [OF cbs(1)] cbs(1)] b True cbs(2) by simp
  next
    case False
    then obtain k where k: "1 \<le> k" "k \<le> 4" "256 ^ (k - 1) \<le> n" "n < 256 ^ k"
      using asn1_length_long_ex [of n] c by (auto simp: n_def)
    let ?b = "of_nat (128 + k) :: byte" and ?s = "be_bytes k n @ contents @ t"
    let ?hdr = "(idn @ [?b]) @ be_bytes k n" and ?len = "of_nat n :: u64"
    have b: "unat ?b = 128 + k" using k(2) unat_of_nat_byte [of "128 + k"] by simp
    have hdr: "der_header tag n = ?hdr"
      using asn1_length_long [OF k(1,2) _ k(3,4)] False by (simp add: der_header_def idn_def)
    then have cbs: "cbs = idn @ ?b # ?s" "cbs = ?hdr @ contents @ t"
      by (simp_all add: cbs_def der_element_def n_def)
    have len: "unat ?len = n" using c by (simp add: n_def unat_of_nat)
    have get: "cbs_get_u k ?s = (Some ?len, contents @ t)"
      using k len by (simp add: cbs_get_u_eq_Some)
    have "el_finish (?hdr @ contents @ t) tag (n + length ?hdr) (length ?hdr) False False
        = (Some (asn1_el tag contents), t)"
      unfolding el_finish_eq_Some using hdr
      by (intro exI [of _ contents]) (simp add: asn1_el_def der_element_def n_def)
    then show ?thesis
      using get_any_element_long [OF p [OF cbs(1)] cbs(1) b k(1,2) idn get] len False k(3) cbs(2)
      by simp
  qed
  then show ?thesis by (simp only: CBS_get_any_asn1_element_def cbs_def)
qed

text \<open>The strict parser accepts exactly the DER elements, and returns them whole.\<close>

lemma CBS_get_any_asn1_element_iff:
  "CBS_get_any_asn1_element cbs = (Some el, t) \<longleftrightarrow>
   (\<exists>tag contents. valid_tag tag \<and> length contents < 2 ^ 32 \<and> el = asn1_el tag contents \<and>
      cbs = der_element tag contents @ t)"
  using CBS_get_any_asn1_element_sound CBS_get_any_asn1_element_complete by blast

lemma asn1_el_simps [simp]:
  "el_tag (asn1_el tag c) = tag" "el_bytes (asn1_el tag c) = der_element tag c"
  "el_header_len (asn1_el tag c) = length (der_header tag (length c))"
  by (simp_all add: asn1_el_def)

lemma CBS_skip_header [simp]:
  "CBS_skip (length (der_header tag (length c))) (der_element tag c) = (Some (), c)"
  by (simp add: CBS_skip_def rbind_def cbs_get_append der_element_def)

lemma CBS_get_asn1_iff:
  "CBS_get_asn1 tag cbs = (Some contents, t) \<longleftrightarrow>
   valid_tag tag \<and> length contents < 2 ^ 32 \<and> cbs = der_element tag contents @ t"
  (is "?L \<longleftrightarrow> ?R")
proof
  show "?L \<Longrightarrow> ?R"
    by (auto simp: CBS_get_asn1_def cbs_get_asn1_def rbind_eq_Some CBS_get_any_asn1_element_iff
        split: if_splits)
  show "?R \<Longrightarrow> ?L"
    using CBS_get_any_asn1_element_complete [of tag contents t]
    by (simp add: CBS_get_asn1_def cbs_get_asn1_def rbind_def)
qed

lemma CBS_get_asn1_element_iff:
  "CBS_get_asn1_element tag cbs = (Some el, t) \<longleftrightarrow>
   (\<exists>contents. valid_tag tag \<and> length contents < 2 ^ 32 \<and>
      el = der_element tag contents \<and> cbs = el @ t)"
  (is "?L \<longleftrightarrow> ?R")
proof
  show "?L \<Longrightarrow> ?R"
    by (auto simp: CBS_get_asn1_element_def cbs_get_asn1_def rbind_eq_Some
        CBS_get_any_asn1_element_iff split: if_splits)
  show "?R \<Longrightarrow> ?L"
    using CBS_get_any_asn1_element_complete [of tag _ t]
    by (auto simp: CBS_get_asn1_element_def cbs_get_asn1_def rbind_def)
qed

lemma CBS_peek_asn1_tag_element [simp]:
  "valid_tag tag \<Longrightarrow> CBS_peek_asn1_tag (der_element tag c @ t) tag' \<longleftrightarrow> tag = tag'"
  using parse_asn1_tag_iff [of "der_element tag c @ t" tag "asn1_length (length c) @ c @ t"]
  by (simp add: CBS_peek_asn1_tag_def der_element_def der_header_def)

lemma CBS_get_any_asn1_element_shorter:
  "CBS_get_any_asn1_element cbs = (Some el, rest) \<Longrightarrow> length rest < length cbs"
  by (auto simp: CBS_get_any_asn1_element_iff der_element_def der_header_def asn1_identifier_def)

end
