(* ===== verification/Cbb.thy ===== *)
theory Cbb
  imports Der
begin

text \<open>
  The byte-string builder of BoringSSL, \<open>crypto/bytestring/cbb.c\<close>. All the \<open>CBB\<close>s that write to one
  buffer form a chain: the top-level \<open>CBB\<close>, its open child, the child of that, and so on. The model
  is one record for the buffer (\<open>struct cbb_buffer_st\<close>) with the list of the open children
  (\<open>struct cbb_child_st\<close>), outermost first; the \<open>CBB\<close> at depth \<open>k\<close> is the handle \<open>k\<close>, and a handle
  past the chain is a child whose \<open>base\<close> a flush has set to NULL. \<open>buf\<close> holds the \<open>len\<close> valid bytes
  and \<open>grant n\<close> says whether the allocator gives a buffer of \<open>n\<close> bytes.

  Bytes that C leaves to the caller to fill (\<open>CBB_add_space\<close>, \<open>CBB_did_write\<close>) are arguments.
\<close>

record cbb_child =
  offset :: nat
  pending_len_len :: nat
  pending_is_asn1 :: bool

record CBB =
  buf :: "byte list"
  cap :: nat
  can_resize :: bool
  error :: bool
  children :: "cbb_child list"
  grant :: "nat \<Rightarrow> bool"

type_synonym writer = "CBB \<Rightarrow> bool \<times> CBB"

text \<open>\<open>a && b\<close> on writers, and the addition of \<open>size_t\<close>.\<close>

definition wand :: "writer \<Rightarrow> writer \<Rightarrow> writer" where
  "wand a b s = (case a s of (True, s') \<Rightarrow> b s' | (False, s') \<Rightarrow> (False, s'))"

definition size_add :: "nat \<Rightarrow> nat \<Rightarrow> nat" where
  "size_add a b = (a + b) mod 2 ^ 64"

definition size_mult :: "nat \<Rightarrow> nat \<Rightarrow> nat" where
  "size_mult a b = (a * b) mod 2 ^ 64"

section \<open>The buffer\<close>

definition cbb_init :: "(nat \<Rightarrow> bool) \<Rightarrow> nat \<Rightarrow> bool \<Rightarrow> CBB" where
  "cbb_init alloc capacity resize =
     \<lparr>buf = [], cap = capacity, can_resize = resize, error = False, children = [], grant = alloc\<rparr>"

definition CBB_init :: "(nat \<Rightarrow> bool) \<Rightarrow> nat \<Rightarrow> CBB option" where
  "CBB_init alloc initial_capacity =
     (if initial_capacity > 0 \<and> \<not> alloc initial_capacity then None
      else Some (cbb_init alloc initial_capacity True))"

definition CBB_init_fixed :: "nat \<Rightarrow> CBB" where
  "CBB_init_fixed len = cbb_init (\<lambda>_. False) len False"

definition cbb_buffer_reserve :: "nat \<Rightarrow> writer" where
  "cbb_buffer_reserve len base =
     (let newlen = size_add (length (buf base)) len
      in if newlen < length (buf base) then (False, base\<lparr>error := True\<rparr>)
         else if newlen > cap base
         then if \<not> can_resize base then (False, base\<lparr>error := True\<rparr>)
              else let newcap = size_mult (cap base) 2;
                       newcap = (if newcap < cap base \<or> newcap < newlen then newlen else newcap)
                   in if \<not> grant base newcap then (False, base\<lparr>error := True\<rparr>)
                      else (True, base\<lparr>cap := newcap\<rparr>)
         else (True, base))"

text \<open>\<open>out\<close> are the bytes the caller stores in the space it gets.\<close>

definition cbb_buffer_add :: "byte list \<Rightarrow> writer" where
  "cbb_buffer_add out base =
     (case cbb_buffer_reserve (length out) base of
        (False, base) \<Rightarrow> (False, base)
      | (True, base) \<Rightarrow> (True, base\<lparr>buf := buf base @ out\<rparr>))"

text \<open>\<open>cbb_on_error\<close> on the handle \<open>k\<close>: the error bit of the buffer, and no child.\<close>

definition cbb_on_error :: "nat \<Rightarrow> CBB \<Rightarrow> CBB" where
  "cbb_on_error k s = s\<lparr>error := True, children := take k (children s)\<rparr>"

section \<open>Flushing a child\<close>

text \<open>
  The loop that writes a big-endian number of \<open>n\<close> bytes at \<open>offset\<close>; the second component is what
  is left of the number.
\<close>

fun put_length :: "nat \<Rightarrow> nat \<Rightarrow> nat \<Rightarrow> byte list \<Rightarrow> byte list \<times> nat" where
  "put_length off 0 len b = (b, len)"
| "put_length off (Suc i) len b = put_length off i (len div 256) (b[off + i := of_nat len])"

definition memmove :: "nat \<Rightarrow> nat \<Rightarrow> nat \<Rightarrow> 'a list \<Rightarrow> 'a list" where
  "memmove dst src n xs = take dst xs @ take n (drop src xs) @ drop (dst + n) xs"

text \<open>The number of length bytes, the initial length byte and the length still to be written.\<close>

definition asn1_len_form :: "nat \<Rightarrow> nat \<times> byte \<times> nat" where
  "asn1_len_form len =
     (if len > 0xffffff then (5, 0x80 OR 4, len)
      else if len > 0xffff then (4, 0x80 OR 3, len)
      else if len > 0xff then (3, 0x80 OR 2, len)
      else if len > 0x7f then (2, 0x80 OR 1, len)
      else (1, of_nat len, 0))"

text \<open>The part of \<open>CBB_flush\<close> after the recursive call, for the innermost child, at depth \<open>k\<close>.\<close>

definition cbb_close_child :: "nat \<Rightarrow> writer" where
  "cbb_close_child k s =
     (let child = children s ! k;
          child_start = size_add (offset child) (pending_len_len child)
      in if child_start < offset child \<or> length (buf s) < child_start
         then (False, cbb_on_error k s)
         else let len = length (buf s) - child_start
         in if pending_is_asn1 child
         then if len > 0xfffffffe then (False, cbb_on_error k s)
              else let (len_len, initial_length_byte, len') = asn1_len_form len;
                       extra_bytes = len_len - 1
              in (case (if len_len \<noteq> 1 then cbb_buffer_add (replicate extra_bytes 0) s else (True, s)) of
                    (False, s) \<Rightarrow> (False, cbb_on_error k s)
                  | (True, s) \<Rightarrow>
                      let b = (if len_len \<noteq> 1
                               then memmove (child_start + extra_bytes) child_start len (buf s)
                               else buf s);
                          b = b[offset child := initial_length_byte];
                          (b, rest) = put_length (offset child + 1) (len_len - 1) len' b
                      in if rest \<noteq> 0 then (False, cbb_on_error k (s\<lparr>buf := b\<rparr>))
                         else (True, s\<lparr>buf := b, children := take k (children s)\<rparr>))
         else let (b, rest) = put_length (offset child) (pending_len_len child) len (buf s)
              in if rest \<noteq> 0 then (False, cbb_on_error k (s\<lparr>buf := b\<rparr>))
                 else (True, s\<lparr>buf := b, children := take k (children s)\<rparr>))"

text \<open>\<open>CBB_flush\<close> with \<open>n\<close> children below the handle.\<close>

fun cbb_flush_chain :: "nat \<Rightarrow> writer" where
  "cbb_flush_chain 0 s = (if error s then (False, s) else (True, s))"
| "cbb_flush_chain (Suc n) s =
     (if error s then (False, s)
      else let k = length (children s) - Suc n
           in (case cbb_flush_chain n s of
                 (False, s) \<Rightarrow> (False, cbb_on_error k s)
               | (True, s) \<Rightarrow> cbb_close_child k s))"

definition CBB_flush :: "nat \<Rightarrow> writer" where
  "CBB_flush k s =
     (if k > length (children s) then (False, s)
      else cbb_flush_chain (length (children s) - k) s)"

section \<open>Writing\<close>

text \<open>
  \<open>CBB_finish\<close> returns the buffer; \<open>have_outputs\<close> says whether both output pointers were given.
\<close>

definition CBB_finish :: "nat \<Rightarrow> bool \<Rightarrow> CBB \<Rightarrow> byte list option \<times> CBB" where
  "CBB_finish k have_outputs s =
     (if k \<noteq> 0 then (None, s)
      else (case CBB_flush 0 s of
              (False, s) \<Rightarrow> (None, s)
            | (True, s) \<Rightarrow>
                if can_resize s \<and> \<not> have_outputs then (None, s)
                else (Some (buf s), s\<lparr>buf := []\<rparr>)))"

text \<open>The bytes written through the handle \<open>k\<close> (the code asserts that it has no child).\<close>

definition CBB_data :: "nat \<Rightarrow> CBB \<Rightarrow> byte list" where
  "CBB_data k s =
     (if k = 0 then buf s
      else let c = children s ! (k - 1) in drop (offset c + pending_len_len c) (buf s))"

definition CBB_len :: "nat \<Rightarrow> CBB \<Rightarrow> nat" where
  "CBB_len k s =
     (if k = 0 then length (buf s)
      else let c = children s ! (k - 1) in length (buf s) - offset c - pending_len_len c)"

definition cbb_add_child :: "nat \<Rightarrow> bool \<Rightarrow> writer" where
  "cbb_add_child len_len is_asn1 s =
     (let off = length (buf s)
      in (case cbb_buffer_add (replicate len_len 0) s of
            (False, s) \<Rightarrow> (False, s)
          | (True, s) \<Rightarrow>
              (True, s\<lparr>children := children s @
                 [\<lparr>offset = off, pending_len_len = len_len, pending_is_asn1 = is_asn1\<rparr>]\<rparr>)))"

definition cbb_add_length_prefixed :: "nat \<Rightarrow> nat \<Rightarrow> writer" where
  "cbb_add_length_prefixed k len_len = wand (CBB_flush k) (cbb_add_child len_len False)"

definition CBB_add_u8_length_prefixed :: "nat \<Rightarrow> writer" where
  "CBB_add_u8_length_prefixed k = cbb_add_length_prefixed k 1"

definition CBB_add_u16_length_prefixed :: "nat \<Rightarrow> writer" where
  "CBB_add_u16_length_prefixed k = cbb_add_length_prefixed k 2"

definition CBB_add_u24_length_prefixed :: "nat \<Rightarrow> writer" where
  "CBB_add_u24_length_prefixed k = cbb_add_length_prefixed k 3"

definition CBB_add_space :: "nat \<Rightarrow> byte list \<Rightarrow> writer" where
  "CBB_add_space k out_data = wand (CBB_flush k) (cbb_buffer_add out_data)"

definition CBB_add_bytes :: "nat \<Rightarrow> byte list \<Rightarrow> writer" where
  "CBB_add_bytes k data = CBB_add_space k data"

definition CBB_add_zeros :: "nat \<Rightarrow> nat \<Rightarrow> writer" where
  "CBB_add_zeros k len = CBB_add_space k (replicate len 0)"

definition CBB_reserve :: "nat \<Rightarrow> nat \<Rightarrow> writer" where
  "CBB_reserve k len = wand (CBB_flush k) (cbb_buffer_reserve len)"

text \<open>The caller has stored \<open>written\<close> in the space it reserved.\<close>

definition CBB_did_write :: "nat \<Rightarrow> byte list \<Rightarrow> writer" where
  "CBB_did_write k written s =
     (let newlen = size_add (length (buf s)) (length written)
      in if k < length (children s) \<or> newlen < length (buf s) \<or> newlen > cap s then (False, s)
         else (True, s\<lparr>buf := buf s @ written\<rparr>))"

text \<open>The loop \<open>buf[i] = v; v >>= 8\<close> from the last byte down, and what is left of \<open>v\<close>.\<close>

fun put_u :: "u64 \<Rightarrow> nat \<Rightarrow> byte list \<times> u64" where
  "put_u v 0 = ([], v)"
| "put_u v (Suc i) = (let (bs, rest) = put_u (drop_bit 8 v) i in (bs @ [ucast v], rest))"

definition cbb_add_u :: "nat \<Rightarrow> u64 \<Rightarrow> nat \<Rightarrow> writer" where
  "cbb_add_u k v len_len s =
     (let (bytes, rest) = put_u v len_len
      in (case CBB_add_space k bytes s of
            (False, s) \<Rightarrow> (False, s)
          | (True, s) \<Rightarrow> if rest \<noteq> 0 then (False, cbb_on_error k s) else (True, s)))"

definition CBB_add_u8 :: "nat \<Rightarrow> byte \<Rightarrow> writer" where
  "CBB_add_u8 k v = cbb_add_u k (ucast v) 1"

definition CBB_add_u16 :: "nat \<Rightarrow> u16 \<Rightarrow> writer" where
  "CBB_add_u16 k v = cbb_add_u k (ucast v) 2"

definition CBB_add_u16le :: "nat \<Rightarrow> u16 \<Rightarrow> writer" where
  "CBB_add_u16le k v = CBB_add_u16 k (CRYPTO_bswap2 v)"

definition CBB_add_u24 :: "nat \<Rightarrow> u32 \<Rightarrow> writer" where
  "CBB_add_u24 k v = cbb_add_u k (ucast v) 3"

definition CBB_add_u32 :: "nat \<Rightarrow> u32 \<Rightarrow> writer" where
  "CBB_add_u32 k v = cbb_add_u k (ucast v) 4"

definition CBB_add_u32le :: "nat \<Rightarrow> u32 \<Rightarrow> writer" where
  "CBB_add_u32le k v = CBB_add_u32 k (CRYPTO_bswap4 v)"

definition CBB_add_u64 :: "nat \<Rightarrow> u64 \<Rightarrow> writer" where
  "CBB_add_u64 k v = cbb_add_u k v 8"

definition CBB_add_u64le :: "nat \<Rightarrow> u64 \<Rightarrow> writer" where
  "CBB_add_u64le k v = CBB_add_u64 k (CRYPTO_bswap8 v)"

definition CBB_discard_child :: "nat \<Rightarrow> CBB \<Rightarrow> CBB" where
  "CBB_discard_child k s =
     (if k < length (children s)
      then s\<lparr>buf := take (offset (children s ! k)) (buf s), children := take k (children s)\<rparr>
      else s)"

section \<open>Base-128 integers, tags and DER values\<close>

text \<open>The number of base-128 digits, by the loop \<open>copy >>= 7\<close>.\<close>

fun base128_len :: "nat \<Rightarrow> nat" where
  "base128_len n = (if n = 0 then 0 else Suc (base128_len (n div 128)))"

declare base128_len.simps [simp del]

fun add_base128_loop :: "nat \<Rightarrow> u64 \<Rightarrow> nat \<Rightarrow> writer" where
  "add_base128_loop k v 0 s = (True, s)"
| "add_base128_loop k v (Suc i) s =
     (let byte = ucast (drop_bit (7 * i) v AND 0x7f) :: byte;
          byte = (if i \<noteq> 0 then byte OR 0x80 else byte)
      in wand (CBB_add_u8 k byte) (add_base128_loop k v i) s)"

definition add_base128_integer :: "nat \<Rightarrow> u64 \<Rightarrow> writer" where
  "add_base128_integer k v =
     (let len_len = base128_len (unat v);
          len_len = (if len_len = 0 then 1 else len_len)
      in add_base128_loop k v len_len)"

definition CBB_add_asn1 :: "nat \<Rightarrow> CBS_ASN1_TAG \<Rightarrow> writer" where
  "CBB_add_asn1 k tag =
     wand (CBB_flush k)
       (let tag_bits = ucast (drop_bit CBS_ASN1_TAG_SHIFT tag) AND 0xe0 :: byte;
            tag_number = tag AND CBS_ASN1_TAG_NUMBER_MASK
        in wand (if tag_number \<ge> 0x1f
                 then wand (CBB_add_u8 k (tag_bits OR 0x1f)) (add_base128_integer k (ucast tag_number))
                 else CBB_add_u8 k (tag_bits OR ucast tag_number))
             (cbb_add_child 1 True))"

text \<open>
  The functions below open a child of the handle \<open>k\<close>, write through it (handle \<open>k + 1\<close>) and flush;
  on any failure they lock the buffer with \<open>cbb_on_error\<close>.
\<close>

definition or_on_error :: "nat \<Rightarrow> writer \<Rightarrow> writer" where
  "or_on_error k w s = (case w s of (True, s) \<Rightarrow> (True, s) | (False, s) \<Rightarrow> (False, cbb_on_error k s))"

fun asn1_uint64_bytes_loop :: "nat \<Rightarrow> u64 \<Rightarrow> nat \<Rightarrow> bool \<Rightarrow> writer" where
  "asn1_uint64_bytes_loop k value 0 started =
     (if \<not> started then CBB_add_u8 k 0 else (\<lambda>s. (True, s)))"
| "asn1_uint64_bytes_loop k value (Suc i) started =
     (let byte = ucast (drop_bit (8 * i) value AND 0xff) :: byte
      in if \<not> started \<and> byte = 0 then asn1_uint64_bytes_loop k value i False
         else wand (if \<not> started \<and> byte AND 0x80 \<noteq> 0 then CBB_add_u8 k 0 else (\<lambda>s. (True, s)))
                (wand (CBB_add_u8 k byte) (asn1_uint64_bytes_loop k value i True)))"

text \<open>
  The final \<open>return CBB_flush(cbb)\<close> is not under the error label, and a failing flush has locked the
  buffer itself.
\<close>

definition CBB_add_asn1_uint64_with_tag :: "nat \<Rightarrow> u64 \<Rightarrow> CBS_ASN1_TAG \<Rightarrow> writer" where
  "CBB_add_asn1_uint64_with_tag k value tag =
     wand (or_on_error k (wand (CBB_add_asn1 k tag) (asn1_uint64_bytes_loop (k + 1) value 8 False)))
       (CBB_flush k)"

definition CBB_add_asn1_uint64 :: "nat \<Rightarrow> u64 \<Rightarrow> writer" where
  "CBB_add_asn1_uint64 k value = CBB_add_asn1_uint64_with_tag k value CBS_ASN1_INTEGER"

text \<open>\<open>memcpy(bytes, &value, 8)\<close> on a little-endian machine.\<close>

definition le_bytes :: "u64 \<Rightarrow> byte list" where
  "le_bytes value = map (\<lambda>i. ucast (drop_bit (8 * i) value)) [0..<8]"

fun int64_start :: "byte list \<Rightarrow> nat \<Rightarrow> nat" where
  "int64_start bytes 0 = 0"
| "int64_start bytes (Suc i) =
     (if bytes ! Suc i = 0xff \<and> (bytes ! i) AND 0x80 \<noteq> 0 then int64_start bytes i else Suc i)"

fun add_down_from :: "nat \<Rightarrow> byte list \<Rightarrow> nat \<Rightarrow> writer" where
  "add_down_from k bytes 0 = CBB_add_u8 k (bytes ! 0)"
| "add_down_from k bytes (Suc i) = wand (CBB_add_u8 k (bytes ! Suc i)) (add_down_from k bytes i)"

definition CBB_add_asn1_int64_with_tag :: "nat \<Rightarrow> u64 \<Rightarrow> CBS_ASN1_TAG \<Rightarrow> writer" where
  "CBB_add_asn1_int64_with_tag k value tag =
     (if sint value \<ge> 0 then CBB_add_asn1_uint64_with_tag k value tag
      else let bytes = le_bytes value; start = int64_start bytes 7
           in wand (or_on_error k (wand (CBB_add_asn1 k tag) (add_down_from (k + 1) bytes start)))
                (CBB_flush k))"

definition CBB_add_asn1_int64 :: "nat \<Rightarrow> u64 \<Rightarrow> writer" where
  "CBB_add_asn1_int64 k value = CBB_add_asn1_int64_with_tag k value CBS_ASN1_INTEGER"

definition CBB_add_asn1_octet_string :: "nat \<Rightarrow> byte list \<Rightarrow> writer" where
  "CBB_add_asn1_octet_string k data =
     or_on_error k (wand (CBB_add_asn1 k CBS_ASN1_OCTETSTRING)
       (wand (CBB_add_bytes (k + 1) data) (CBB_flush k)))"

definition CBB_add_asn1_bool :: "nat \<Rightarrow> int \<Rightarrow> writer" where
  "CBB_add_asn1_bool k value =
     or_on_error k (wand (CBB_add_asn1 k CBS_ASN1_BOOLEAN)
       (wand (CBB_add_u8 (k + 1) (if value \<noteq> 0 then 0xff else 0)) (CBB_flush k)))"

section \<open>SET OF\<close>

text \<open>The sign of \<open>memcmp\<close> on buffers of one length, and the order of X.690, section 11.6.\<close>

fun memcmp :: "byte list \<Rightarrow> byte list \<Rightarrow> int" where
  "memcmp (x # xs) (y # ys) = (if x = y then memcmp xs ys else if x < y then -1 else 1)"
| "memcmp _ _ = 0"

definition compare_set_of_element :: "CBS \<Rightarrow> CBS \<Rightarrow> int" where
  "compare_set_of_element a b =
     (let a_len = length a; b_len = length b; min_len = (if a_len < b_len then a_len else b_len);
          ret = memcmp (take min_len a) (take min_len b)
      in if ret \<noteq> 0 then ret
         else if a_len = b_len then 0
         else if a_len < b_len then -1 else 1)"

text \<open>
  C's \<open>qsort\<close>: a sorted permutation. Elements that compare equal are equal byte strings here, so
  the choice between sorted permutations does not show.
\<close>

fun insert_by :: "('a \<Rightarrow> 'a \<Rightarrow> int) \<Rightarrow> 'a \<Rightarrow> 'a list \<Rightarrow> 'a list" where
  "insert_by cmp x [] = [x]"
| "insert_by cmp x (y # ys) = (if cmp x y \<le> 0 then x # y # ys else y # insert_by cmp x ys)"

definition qsort :: "('a \<Rightarrow> 'a \<Rightarrow> int) \<Rightarrow> 'a list \<Rightarrow> 'a list" where
  "qsort cmp xs = foldr (insert_by cmp) xs []"

text \<open>The parsing loop; None when an element does not parse.\<close>

function get_elements :: "CBS \<Rightarrow> CBS list option" where
  "get_elements cbs =
     (if length cbs = 0 then Some []
      else (case CBS_get_any_asn1_element cbs of
              (None, _) \<Rightarrow> None
            | (Some el, rest) \<Rightarrow> map_option ((#) (el_bytes el)) (get_elements rest)))"
  by pat_completeness auto
termination
  by (relation "measure length") (auto dest: CBS_get_any_asn1_element_shorter [OF sym])

declare get_elements.simps [simp del]

definition CBB_flush_asn1_set_of :: "nat \<Rightarrow> writer" where
  "CBB_flush_asn1_set_of k s =
     (case CBB_flush k s of (False, s) \<Rightarrow> (False, s) | (True, s) \<Rightarrow>
     (case get_elements (CBB_data k s) of None \<Rightarrow> (False, s) | Some els \<Rightarrow>
      if length els < 2 then (True, s)
      else if \<not> grant s (CBB_len k s) \<or> \<not> grant s (16 * length els) then (False, s)
      else (True, s\<lparr>buf := take (length (buf s) - CBB_len k s) (buf s)
                          @ concat (qsort compare_set_of_element els)\<rparr>)))"

end
