(* ===== verification/Cbb_Spec.thy ===== *)
theory Cbb_Spec
  imports Cbb
begin

text \<open>
  What the builder promises. An open document is the bytes written to the top-level \<open>CBB\<close> and a
  stack of open length-prefixed fields, innermost first, each with its prefix width, its kind and
  the bytes written to it so far. \<open>render\<close> lays a document out as the buffer holds it, with zeros
  in place of the pending prefixes. The lemmas show that the code's buffer operations implement
  the operations on documents.
\<close>

type_synonym field = "nat \<times> bool \<times> byte list"
type_synonym doc = "field list \<times> byte list"

fun append_open :: "byte list \<Rightarrow> doc \<Rightarrow> doc" where
  "append_open bs ([], r) = ([], r @ bs)"
| "append_open bs ((p, a, c) # fs, r) = ((p, a, c @ bs) # fs, r)"

definition length_prefix :: "nat \<Rightarrow> bool \<Rightarrow> nat \<Rightarrow> byte list option" where
  "length_prefix p a n =
     (if a then if n \<le> 0xfffffffe then Some (asn1_length n) else None
      else if n < 256 ^ p then Some (be_bytes p n) else None)"

fun close_open :: "doc \<Rightarrow> doc option" where
  "close_open ([], r) = None"
| "close_open ((p, a, c) # fs, r) =
     map_option (\<lambda>pre. append_open (pre @ c) (fs, r)) (length_prefix p a (length c))"

fun close_n :: "nat \<Rightarrow> doc \<Rightarrow> doc option" where
  "close_n 0 A = Some A"
| "close_n (Suc n) A = Option.bind (close_n n A) close_open"

fun render :: "doc \<Rightarrow> byte list" where
  "render ([], r) = r"
| "render ((p, a, c) # fs, r) = render (fs, r) @ replicate p 0 @ c"

fun open_children :: "doc \<Rightarrow> cbb_child list" where
  "open_children ([], r) = []"
| "open_children ((p, a, c) # fs, r) =
     open_children (fs, r) @
       [\<lparr>offset = length (render (fs, r)), pending_len_len = p, pending_is_asn1 = a\<rparr>]"

definition wf_doc :: "doc \<Rightarrow> bool" where
  "wf_doc A \<longleftrightarrow> (\<forall>(p, a, c) \<in> set (fst A). a \<longrightarrow> p = 1)"

definition repr :: "CBB \<Rightarrow> doc \<Rightarrow> bool" where
  "repr s A \<longleftrightarrow> buf s = render A \<and> children s = open_children A \<and> wf_doc A \<and> \<not> error s \<and>
     length (buf s) \<le> cap s \<and> cap s < 2 ^ 64"

text \<open>A buffer that never runs out of memory.\<close>

definition growable :: "CBB \<Rightarrow> bool" where
  "growable s \<longleftrightarrow> can_resize s \<and> (\<forall>n. grant s n)"

lemma length_open_children [simp]: "length (open_children A) = length (fst A)"
  by (induction A rule: open_children.induct) simp_all

lemma wf_doc_simps [simp]:
  "wf_doc ([], r)" "wf_doc ((p, a, c) # fs, r) \<longleftrightarrow> (a \<longrightarrow> p = 1) \<and> wf_doc (fs, r)"
  by (auto simp: wf_doc_def)

lemma wf_append_open [simp]: "wf_doc (append_open bs A) = wf_doc A"
  by (induction bs A rule: append_open.induct) simp_all

lemma render_append_open [simp]: "render (append_open bs A) = render A @ bs"
  by (induction bs A rule: append_open.induct) simp_all

lemma open_children_append_open [simp]: "open_children (append_open bs A) = open_children A"
  by (induction bs A rule: append_open.induct) simp_all

lemma length_append_open [simp]: "length (fst (append_open bs A)) = length (fst A)"
  by (induction bs A rule: append_open.induct) simp_all

lemma append_open_append: "append_open ys (append_open xs A) = append_open (xs @ ys) A"
  by (induction xs A rule: append_open.induct) simp_all

lemma append_open_Nil [simp]: "append_open [] A = A"
  by (cases "([] :: byte list, A)" rule: append_open.cases) simp_all

section \<open>The buffer\<close>

lemma cbb_buffer_reserve_cases:
  assumes "length (buf s) \<le> cap s" "cap s < 2 ^ 64" "n < 2 ^ 64"
  shows "(\<exists>c. cbb_buffer_reserve n s = (True, s\<lparr>cap := c\<rparr>) \<and> c < 2 ^ 64 \<and> length (buf s) + n \<le> c)
    \<or> (cbb_buffer_reserve n s = (False, s\<lparr>error := True\<rparr>)
       \<and> \<not> (growable s \<and> length (buf s) + n < 2 ^ 64))"
proof (cases "length (buf s) + n < 2 ^ 64")
  case True
  then have a: "size_add (length (buf s)) n = length (buf s) + n" by (simp add: size_add_def)
  have m: "size_mult (cap s) 2 < 2 ^ 64" by (simp add: size_mult_def)
  have id: "s\<lparr>cap := cap s\<rparr> = s" by simp
  show ?thesis
  proof (cases "cap s < length (buf s) + n")
    case False
    then show ?thesis using True assms(2)
      by (intro disjI1 exI [of _ "cap s"]) (simp add: cbb_buffer_reserve_def a Let_def)
  next
    case c: True
    define c where "c = (if size_mult (cap s) 2 < cap s \<or> size_mult (cap s) 2 < length (buf s) + n
              then length (buf s) + n else size_mult (cap s) 2)"
    have "c < 2 ^ 64" "length (buf s) + n \<le> c" using True m by (auto simp: c_def)
    moreover have "cbb_buffer_reserve n s =
      (if can_resize s \<and> grant s c then (True, s\<lparr>cap := c\<rparr>) else (False, s\<lparr>error := True\<rparr>))"
      using \<open>cap s < length (buf s) + n\<close> by (simp add: cbb_buffer_reserve_def a Let_def c_def)
    ultimately show ?thesis
      by (cases "can_resize s \<and> grant s c") (auto simp: growable_def)
  qed
next
  case False
  then have "size_add (length (buf s)) n = length (buf s) + n - 2 ^ 64"
    using assms by (simp add: size_add_def le_mod_geq)
  then have "size_add (length (buf s)) n < length (buf s)" using False assms by linarith
  then show ?thesis using False by (simp add: cbb_buffer_reserve_def Let_def)
qed

lemma cbb_buffer_add_cases:
  assumes "repr s A" "length bs < 2 ^ 64"
  shows "(\<exists>c. cbb_buffer_add bs s = (True, s\<lparr>cap := c, buf := buf s @ bs\<rparr>)
        \<and> repr (s\<lparr>cap := c, buf := buf s @ bs\<rparr>) (append_open bs A))
    \<or> (cbb_buffer_add bs s = (False, s\<lparr>error := True\<rparr>)
       \<and> \<not> (growable s \<and> length (buf s) + length bs < 2 ^ 64))"
  using cbb_buffer_reserve_cases [of s "length bs"] assms
  by (auto simp: repr_def cbb_buffer_add_def)

section \<open>Closing a child\<close>

lemma put_length_eq:
  "length xs = n \<Longrightarrow> put_length (length P) n v (P @ xs @ c) = (P @ be_bytes n v @ c, v div 256 ^ n)"
proof (induction n arbitrary: v xs c)
  case (Suc n)
  then obtain ys x where xs: "xs = ys @ [x]" "length ys = n"
    by (metis length_Suc_conv_rev)
  then have "(P @ xs @ c)[length P + n := of_nat v] = P @ ys @ (of_nat v # c)"
    by (simp add: list_update_append)
  then show ?case
    using Suc.IH [of ys "v div 256" "of_nat v # c"] xs(2) by (simp add: div_mult2_eq)
qed simp

lemma memmove_gap:
  assumes "length gap = k" "k \<le> length c"
  shows "memmove (length Q + k) (length Q) (length c) (Q @ c @ gap) = Q @ take k c @ c"
  using assms by (simp add: memmove_def)

text \<open>The chosen form and the bytes of \<open>asn1_length\<close> agree.\<close>

lemma asn1_len_form_cases:
  assumes "n \<le> 0xfffffffe"
  shows "(asn1_len_form n = (1, of_nat n, 0) \<and> asn1_length n = [of_nat n]) \<or>
    (\<exists>k b. 1 \<le> k \<and> k \<le> 4 \<and> 128 \<le> n \<and> n < 256 ^ k \<and> asn1_len_form n = (k + 1, b, n)
       \<and> asn1_length n = b # be_bytes k n)"
proof -
  consider "n \<le> 0x7f" | "0x7f < n" "n \<le> 0xff" | "0xff < n" "n \<le> 0xffff"
    | "0xffff < n" "n \<le> 0xffffff" | "0xffffff < n" by linarith
  then show ?thesis
  proof cases
    case 1
    then show ?thesis by (simp add: asn1_len_form_def asn1_length_def)
  next
    case 2
    then show ?thesis
      by (intro disjI2 exI [of _ 1] exI [of _ "0x81 :: byte"]) (simp add: asn1_len_form_def asn1_length_def)
  next
    case 3
    then show ?thesis
      by (intro disjI2 exI [of _ 2] exI [of _ "0x82 :: byte"]) (simp add: asn1_len_form_def asn1_length_def)
  next
    case 4
    then show ?thesis
      by (intro disjI2 exI [of _ 3] exI [of _ "0x83 :: byte"]) (simp add: asn1_len_form_def asn1_length_def)
  next
    case 5
    with assms show ?thesis
      by (intro disjI2 exI [of _ 4] exI [of _ "0x84 :: byte"]) (simp add: asn1_len_form_def asn1_length_def)
  qed
qed

text \<open>
  The outcome of an operation that should implement \<open>spec\<close>: on success the document is the
  specified one; a failure locks the buffer, and a growable buffer fails only where the
  specification does or the address space ends.
\<close>

definition implements :: "doc option \<Rightarrow> CBB \<Rightarrow> bool \<times> CBB \<Rightarrow> bool" where
  "implements spec s out \<longleftrightarrow>
     (case out of
        (True, s') \<Rightarrow> (\<exists>A. spec = Some A \<and> repr s' A) \<and> growable s' = growable s
      | (False, s') \<Rightarrow> error s' \<and>
          \<not> (growable s \<and> (\<exists>A. spec = Some A \<and> length (render A) < 2 ^ 64)))"

lemma implementsI_True:
  "repr s' A \<Longrightarrow> growable s' = growable s \<Longrightarrow> implements (Some A) s (True, s')"
  by (simp add: implements_def)

lemma growable_update [simp]:
  "growable (s\<lparr>buf := b\<rparr>) = growable s" "growable (s\<lparr>cap := c\<rparr>) = growable s"
  "growable (s\<lparr>children := cs\<rparr>) = growable s"
  by (simp_all add: growable_def)

lemma cbb_close_child_correct:
  assumes r: "repr s (f # fs, r)"
  shows "implements (close_open (f # fs, r)) s (cbb_close_child (length fs) s)"
proof -
  obtain p a c where f: "f = (p, a, c)" by (cases f)
  define P where "P = render (fs, r)"
  have wf: "a \<Longrightarrow> p = 1" and wf': "wf_doc (fs, r)" using r by (auto simp: repr_def f)
  have buf: "buf s = P @ replicate p 0 @ c" using r by (simp add: repr_def f P_def)
  have len64: "length P + p + length c < 2 ^ 64" using r by (auto simp: repr_def buf)
  define ch where "ch = \<lparr>offset = length P, pending_len_len = p, pending_is_asn1 = a\<rparr>"
  have child: "children s ! length fs = ch"
    using r by (simp add: repr_def f nth_append P_def ch_def)
  have rest: "take (length fs) (children s) = open_children (fs, r)"
    using r by (simp add: repr_def f)
  have start: "size_add (length P) p = length P + p"
    using len64 by (simp add: size_add_def)
  show ?thesis
  proof (cases a)
    case False
    have put: "put_length (length P) p (length c) (buf s)
        = (P @ be_bytes p (length c) @ c, length c div 256 ^ p)"
      unfolding buf by (rule put_length_eq) simp
    have ok: "length c div 256 ^ p = 0 \<longleftrightarrow> length c < 256 ^ p" by (simp add: div_eq_0_iff)
    have "cbb_close_child (length fs) s =
      (if length c < 256 ^ p
       then (True, s\<lparr>buf := P @ be_bytes p (length c) @ c, children := open_children (fs, r)\<rparr>)
       else (False, cbb_on_error (length fs) (s\<lparr>buf := P @ be_bytes p (length c) @ c\<rparr>)))"
      unfolding cbb_close_child_def Let_def child using put False
      by (simp add: ch_def start buf rest ok)
    moreover have "repr (s\<lparr>buf := P @ be_bytes p (length c) @ c, children := open_children (fs, r)\<rparr>)
        (append_open (be_bytes p (length c) @ c) (fs, r))"
      using r wf' by (auto simp: repr_def f P_def)
    ultimately show ?thesis
      using False by (auto simp: implements_def f length_prefix_def cbb_on_error_def)
  next
    case True
    with wf have p: "p = Suc 0" by simp
    note start1 = start [unfolded p]
    have upd: "(P @ [0] @ ys)[length P := b] = (P @ [b]) @ ys" for b :: byte and ys
      by (simp add: list_update_append)
    show ?thesis
    proof (cases "length c \<le> 0xfffffffe")
      case False
      then have "cbb_close_child (length fs) s = (False, cbb_on_error (length fs) s)"
        unfolding cbb_close_child_def Let_def child using len64 True
        by (simp add: ch_def start buf)
      then show ?thesis
        using False True by (auto simp: implements_def f length_prefix_def cbb_on_error_def)
    next
      case n: True
      from asn1_len_form_cases [OF n] show ?thesis
      proof (elim disjE exE conjE)
        assume form: "asn1_len_form (length c) = (1, of_nat (length c), 0)"
          and len: "asn1_length (length c) = [of_nat (length c)]"
        let ?b = "P @ [of_nat (length c)] @ c"
        have "cbb_close_child (length fs) s =
          (True, s\<lparr>buf := ?b, children := open_children (fs, r)\<rparr>)"
          unfolding cbb_close_child_def Let_def child using True n p
          by (simp add: ch_def start1 buf rest form list_update_append)
        moreover have "repr (s\<lparr>buf := ?b, children := open_children (fs, r)\<rparr>)
            (append_open (asn1_length (length c) @ c) (fs, r))"
          using r wf' p by (auto simp: repr_def f P_def len)
        ultimately show ?thesis
          using True n by (simp add: implements_def f length_prefix_def)
      next
        fix k b
        assume k: "1 \<le> k" "k \<le> 4" "128 \<le> length c" "length c < 256 ^ k"
          and form: "asn1_len_form (length c) = (k + 1, b, length c)"
          and len: "asn1_length (length c) = b # be_bytes k (length c)"
        let ?gap = "replicate k 0 :: byte list"
        have gap: "length ?gap < 2 ^ 64" using k by simp
        let ?b = "P @ (b # be_bytes k (length c)) @ c"
        have move: "memmove (length P + 1 + k) (length P + 1) (length c) ((P @ [0]) @ c @ ?gap)
            = (P @ [0]) @ take k c @ c"
          using memmove_gap [of ?gap k c "P @ [0]"] k by simp
        have put: "put_length (length P + 1) k (length c) ((P @ [b]) @ take k c @ c)
            = (?b, length c div 256 ^ k)"
          using put_length_eq [of "take k c" k "P @ [b]" "length c" c] k by simp
        have lens: "length (buf s) + length ?gap = length (P @ (b # be_bytes k (length c)) @ c)"
          by (simp add: buf p)
        from cbb_buffer_add_cases [OF r gap] show ?thesis
        proof (elim disjE exE conjE)
          fix m
          assume add: "cbb_buffer_add ?gap s = (True, s\<lparr>cap := m, buf := buf s @ ?gap\<rparr>)"
            and r': "repr (s\<lparr>cap := m, buf := buf s @ ?gap\<rparr>) (append_open ?gap (f # fs, r))"
          have "cbb_close_child (length fs) s =
            (True, s\<lparr>cap := m, buf := ?b, children := open_children (fs, r)\<rparr>)"
            unfolding cbb_close_child_def Let_def child using True n k p move put upd
            by (simp add: ch_def start1 buf rest form add)
          moreover have "repr (s\<lparr>cap := m, buf := ?b, children := open_children (fs, r)\<rparr>)
              (append_open (asn1_length (length c) @ c) (fs, r))"
            using r' wf' lens unfolding len by (auto simp: repr_def P_def)
          ultimately show ?thesis
            using True n by (simp add: implements_def f length_prefix_def)
        next
          assume add: "cbb_buffer_add ?gap s = (False, s\<lparr>error := True\<rparr>)"
            and full: "\<not> (growable s \<and> length (buf s) + length ?gap < 2 ^ 64)"
          have "cbb_close_child (length fs) s =
              (False, cbb_on_error (length fs) (s\<lparr>error := True\<rparr>))"
            unfolding cbb_close_child_def Let_def child using True n k p
            by (simp add: ch_def start1 buf form add)
          moreover have big: "length (render (append_open (asn1_length (length c) @ c) (fs, r))) =
              length (buf s) + k"
            by (simp add: P_def [symmetric] len buf p)
          ultimately show ?thesis
            using True n full
            by (simp add: implements_def f length_prefix_def cbb_on_error_def del: render_append_open)
        qed
      qed
    qed
  qed
qed

section \<open>Operations on documents\<close>

abbreviation nesting :: "doc \<Rightarrow> nat" where
  "nesting A \<equiv> length (fst A)"

definition flush_to :: "nat \<Rightarrow> doc \<Rightarrow> doc option" where
  "flush_to k A = close_n (nesting A - k) A"

definition open_field :: "nat \<Rightarrow> bool \<Rightarrow> doc \<Rightarrow> doc" where
  "open_field p a A = ((p, a, []) # fst A, snd A)"

text \<open>
  \<open>refines P w f\<close>: on the documents that satisfy \<open>P\<close>, the writer \<open>w\<close> implements \<open>f\<close>, and \<open>f\<close>
  never shrinks the buffer.
\<close>

definition refines :: "(doc \<Rightarrow> bool) \<Rightarrow> writer \<Rightarrow> (doc \<Rightarrow> doc option) \<Rightarrow> bool" where
  "refines P w f \<longleftrightarrow>
     (\<forall>s A. repr s A \<longrightarrow> P A \<longrightarrow> implements (f A) s (w s)) \<and>
     (\<forall>A B. wf_doc A \<longrightarrow> P A \<longrightarrow> f A = Some B \<longrightarrow>
        wf_doc B \<and> length (render A) \<le> length (render B))"

lemma refinesI:
  assumes "\<And>s A. repr s A \<Longrightarrow> P A \<Longrightarrow> implements (f A) s (w s)"
    and "\<And>A B. wf_doc A \<Longrightarrow> P A \<Longrightarrow> f A = Some B \<Longrightarrow>
          wf_doc B \<and> length (render A) \<le> length (render B)"
  shows "refines P w f"
  using assms unfolding refines_def by blast

lemma refinesD:
  assumes "refines P w f"
  shows "repr s A \<Longrightarrow> P A \<Longrightarrow> implements (f A) s (w s)"
    and "wf_doc A \<Longrightarrow> P A \<Longrightarrow> f A = Some B \<Longrightarrow> wf_doc B \<and> length (render A) \<le> length (render B)"
  using assms unfolding refines_def by blast+

lemma refines_weaken:
  assumes "refines P w f" "\<And>A. Q A \<Longrightarrow> P A" "\<And>A. Q A \<Longrightarrow> f A = g A"
  shows "refines Q w g"
  using assms unfolding refines_def by metis

lemma repr_wf: "repr s A \<Longrightarrow> wf_doc A"
  by (simp add: repr_def)

lemma implements_True:
  "implements spec s (True, s') \<longleftrightarrow> (\<exists>A. spec = Some A \<and> repr s' A) \<and> growable s' = growable s"
  by (auto simp: implements_def)

lemma implements_False:
  "implements spec s (False, s') \<longleftrightarrow> error s' \<and>
     (growable s \<longrightarrow> (\<forall>A. spec = Some A \<longrightarrow> 2 ^ 64 \<le> length (render A)))"
  by (auto simp: implements_def not_less)

lemma refines_wand:
  assumes a: "refines P a f" and b: "refines Q b g"
    and Q: "\<And>A B. P A \<Longrightarrow> f A = Some B \<Longrightarrow> Q B"
  shows "refines P (wand a b) (\<lambda>A. Option.bind (f A) g)"
proof (rule refinesI)
  fix s A assume r: "repr s A" and P: "P A"
  note ia = refinesD(1) [OF a r P]
  obtain ok s' where as: "a s = (ok, s')" by (cases "a s")
  show "implements (Option.bind (f A) g) s (wand a b s)"
  proof (cases ok)
    case True
    then obtain B where B: "f A = Some B" "repr s' B" "growable s' = growable s"
      using ia as by (auto simp: implements_True)
    obtain ok' t where "b s' = (ok', t)" by (cases "b s'")
    then show ?thesis
      using refinesD(1) [OF b B(2) Q [OF P B(1)]] as True B
      by (cases ok') (simp_all add: wand_def implements_True implements_False)
  next
    case False
    have "2 ^ 64 \<le> length (render C)"
      if "growable s" "f A = Some B" "g B = Some C" for B C
    proof -
      have "2 ^ 64 \<le> length (render B)" using ia as False that by (simp add: implements_False)
      also have "wf_doc B" using refinesD(2) [OF a repr_wf [OF r] P that(2)] by simp
      then have "length (render B) \<le> length (render C)"
        using refinesD(2) [OF b _ Q [OF P that(2)] that(3)] by simp
      finally show ?thesis .
    qed
    then show ?thesis
      using ia as False by (auto simp: wand_def implements_False bind_eq_Some_conv)
  qed
next
  fix A C assume "wf_doc A" "P A" "Option.bind (f A) g = Some C"
  then obtain B where B: "f A = Some B" "g B = Some C" by (auto simp: bind_eq_Some_conv)
  then show "wf_doc C \<and> length (render A) \<le> length (render C)"
    using refinesD(2) [OF a \<open>wf_doc A\<close> \<open>P A\<close> B(1)] refinesD(2) [OF b _ Q [OF \<open>P A\<close> B(1)] B(2)]
    by auto
qed

lemma refines_or_on_error:
  assumes "refines P w f" shows "refines P (or_on_error k w) f"
proof (rule refinesI)
  fix s A assume "repr s A" "P A"
  with assms have "implements (f A) s (w s)" by (rule refinesD)
  then show "implements (f A) s (or_on_error k w s)"
    by (auto simp: implements_def or_on_error_def cbb_on_error_def split: prod.splits bool.splits)
qed (use refinesD(2) [OF assms] in blast)

lemma refines_skip: "refines P (\<lambda>s. (True, s)) Some"
  by (rule refinesI) (simp_all add: implements_True)

subsection \<open>Flushing\<close>

lemma close_open_depth: "close_open A = Some B \<Longrightarrow> nesting A = Suc (nesting B)"
  by (induction A rule: close_open.induct) auto

lemma close_n_depth: "close_n n A = Some B \<Longrightarrow> nesting A = n + nesting B"
proof (induction n arbitrary: B)
  case (Suc n)
  then obtain C where "close_n n A = Some C" "close_open C = Some B"
    by (auto simp: bind_eq_Some_conv)
  then show ?case using Suc.IH [of C] close_open_depth [of C B] by simp
qed simp

lemma close_open_wf:
  "wf_doc A \<Longrightarrow> close_open A = Some B \<Longrightarrow> wf_doc B \<and> length (render A) \<le> length (render B)"
proof (induction A rule: close_open.induct)
  case (2 p a c fs r)
  have "Suc 0 \<le> length (asn1_length n)" for n by (simp add: asn1_length_def)
  with 2 show ?case by (auto simp: length_prefix_def split: if_splits)
qed simp

lemma close_child_refines: "refines (\<lambda>A. nesting A = Suc k) (cbb_close_child k) close_open"
proof (rule refinesI)
  fix s A assume r: "repr s A" and d: "nesting A = Suc k"
  obtain F r' where A: "A = (F, r')" by (rule prod.exhaust)
  with d obtain f fs where F: "F = f # fs" "length fs = k" by (auto simp: length_Suc_conv)
  from r have "repr s (f # fs, r')" by (simp only: A F)
  from cbb_close_child_correct [OF this]
  show "implements (close_open A) s (cbb_close_child k s)" by (simp only: A F)
qed (use close_open_wf in blast)

lemma flush_chain_refines: "refines (\<lambda>A. nesting A = n + k) (cbb_flush_chain n) (close_n n)"
proof (induction n arbitrary: k)
  case 0
  show ?case by (rule refinesI) (auto simp: repr_def implements_True)
next
  case (Suc n)
  have step: "refines (\<lambda>A. nesting A = Suc n + k) (wand (cbb_flush_chain n) (cbb_close_child k))
      (close_n (Suc n))"
    unfolding close_n.simps
  proof (rule refines_wand [OF _ close_child_refines])
    show "refines (\<lambda>A. nesting A = Suc n + k) (cbb_flush_chain n) (close_n n)"
      using Suc [of "Suc k"] by simp
  qed (auto dest: close_n_depth)
  show ?case
  proof (rule refinesI)
    fix s A assume r: "repr s A" and d: "nesting A = Suc n + k"
    have "implements (close_n (Suc n) A) s (wand (cbb_flush_chain n) (cbb_close_child k) s)"
      by (rule refinesD(1) [OF step r d])
    moreover have "cbb_flush_chain (Suc n) s =
      (case cbb_flush_chain n s of (False, s) \<Rightarrow> (False, cbb_on_error k s)
         | (True, s) \<Rightarrow> cbb_close_child k s)"
      using r d by (simp add: repr_def)
    ultimately show "implements (close_n (Suc n) A) s (cbb_flush_chain (Suc n) s)"
      by (auto simp: wand_def implements_False cbb_on_error_def split: prod.splits bool.splits)
  qed (use refinesD(2) [OF step] in blast)
qed

lemma flush_refines: "refines (\<lambda>A. k \<le> nesting A) (CBB_flush k) (flush_to k)"
proof (rule refinesI)
  fix s A assume r: "repr s A" and d: "k \<le> nesting A"
  then have "CBB_flush k s = cbb_flush_chain (nesting A - k) s"
    by (simp add: CBB_flush_def repr_def)
  moreover have "implements (flush_to k A) s (cbb_flush_chain (nesting A - k) s)"
    unfolding flush_to_def
    by (rule refinesD(1) [OF flush_chain_refines [of "nesting A - k" k] r]) (use d in simp)
  ultimately show "implements (flush_to k A) s (CBB_flush k s)" by simp
next
  fix A B assume "wf_doc A" "k \<le> nesting A" "flush_to k A = Some B"
  then show "wf_doc B \<and> length (render A) \<le> length (render B)"
    using refinesD(2) [OF flush_chain_refines [of "nesting A - k" k], of A B]
    by (simp add: flush_to_def)
qed

lemma flush_to_depth: "flush_to k A = Some B \<Longrightarrow> k \<le> nesting A \<Longrightarrow> nesting B = k"
  by (auto simp: flush_to_def dest: close_n_depth)

lemma flush_to_same [simp]: "nesting A = k \<Longrightarrow> flush_to k A = Some A"
  by (simp add: flush_to_def)

subsection \<open>Writing\<close>

lemma add_refines:
  "length bs < 2 ^ 64 \<Longrightarrow> refines (\<lambda>A. True) (cbb_buffer_add bs) (\<lambda>A. Some (append_open bs A))"
proof (rule refinesI)
  fix s A assume "repr s A" "length bs < 2 ^ 64"
  then show "implements (Some (append_open bs A)) s (cbb_buffer_add bs s)"
    using cbb_buffer_add_cases [of s A bs]
    by (auto simp: implements_True implements_False repr_def)
next
  fix A B assume "wf_doc A" "Some (append_open bs A) = Some B"
  then show "wf_doc B \<and> length (render A) \<le> length (render B)"
    using wf_append_open render_append_open by (metis le_add1 length_append option.inject)
qed

text \<open>A write of \<open>bs\<close> through the handle \<open>k\<close>.\<close>

definition write_to :: "nat \<Rightarrow> byte list \<Rightarrow> doc \<Rightarrow> doc option" where
  "write_to k bs A = map_option (append_open bs) (flush_to k A)"

lemma write_to_bind: "write_to k bs A = Option.bind (flush_to k A) (\<lambda>B. Some (append_open bs B))"
  by (cases "flush_to k A") (simp_all add: write_to_def)

lemma write_to_depth: "write_to k bs A = Some B \<Longrightarrow> k \<le> nesting A \<Longrightarrow> nesting B = k"
  by (auto simp: write_to_def dest: flush_to_depth)

lemma write_to_here [simp]: "nesting A = k \<Longrightarrow> write_to k bs A = Some (append_open bs A)"
  by (simp add: write_to_def)

lemma write_to_append:
  "k \<le> nesting A \<Longrightarrow> Option.bind (write_to k xs A) (write_to k ys) = write_to k (xs @ ys) A"
proof (cases "flush_to k A")
  case (Some B)
  assume "k \<le> nesting A"
  with Some have "nesting B = k" by (rule flush_to_depth)
  then have "write_to k ys (append_open xs B) = Some (append_open (xs @ ys) B)"
    by (simp add: append_open_append)
  then show ?thesis by (simp add: write_to_def Some)
qed (simp add: write_to_def)

lemma CBB_add_space_refines:
  "length bs < 2 ^ 64 \<Longrightarrow> refines (\<lambda>A. k \<le> nesting A) (CBB_add_space k bs) (write_to k bs)"
  unfolding CBB_add_space_def write_to_bind
  by (rule refines_wand [OF flush_refines add_refines]) auto

lemma CBB_add_bytes_refines:
  "length bs < 2 ^ 64 \<Longrightarrow> refines (\<lambda>A. k \<le> nesting A) (CBB_add_bytes k bs) (write_to k bs)"
  unfolding CBB_add_bytes_def by (rule CBB_add_space_refines)

lemma unat_drop_8: "unat (drop_bit 8 (v :: u64)) = unat v div 256"
  by (simp add: unat_drop_bit)

lemma ucast_byte_of_nat: "ucast (v :: u64) = (of_nat (unat v) :: byte)"
  by (simp add: word_unat_eq_iff unsigned_ucast_eq unat_of_nat take_bit_eq_mod)

lemma put_u_eq: "put_u v n = (be_bytes n (unat v), drop_bit (8 * n) v)"
proof (induction n arbitrary: v)
  case (Suc n)
  have "drop_bit (8 * n) (drop_bit 8 v) = drop_bit (8 * Suc n) v"
    by (simp only: drop_bit_drop_bit mult_Suc_right add.commute)
  then show ?case
    by (simp only: put_u.simps Suc be_bytes.simps unat_drop_8 ucast_byte_of_nat Let_def prod.case)
qed simp

lemma cbb_add_u_refines:
  assumes "n \<le> 8"
  shows "refines (\<lambda>A. k \<le> nesting A) (cbb_add_u k v n)
    (\<lambda>A. if unat v < 256 ^ n then write_to k (be_bytes n (unat v)) A else None)"
proof (rule refinesI)
  let ?bs = "be_bytes n (unat v)"
  have r: "refines (\<lambda>A. k \<le> nesting A) (CBB_add_space k ?bs) (write_to k ?bs)"
  proof (rule CBB_add_space_refines)
    have "length ?bs \<le> 8" using assms by simp
    then show "length ?bs < 2 ^ 64" by (rule le_less_trans) simp
  qed
  have "(2::nat) ^ (8 * n) = 256 ^ n" by (simp only: power_mult) simp
  then have z: "drop_bit (8 * n) v = 0 \<longleftrightarrow> unat v < 256 ^ n"
    by (simp only: drop_bit_eq_0_nat)
  {
    fix s A assume "repr s A" "k \<le> nesting A"
    then have i: "implements (write_to k ?bs A) s (CBB_add_space k ?bs s)" by (rule refinesD(1) [OF r])
    obtain ok t where "CBB_add_space k ?bs s = (ok, t)" by (cases "CBB_add_space k ?bs s")
    with i show "implements (if unat v < 256 ^ n then write_to k ?bs A else None) s (cbb_add_u k v n s)"
      by (cases ok) (auto simp: cbb_add_u_def put_u_eq z implements_True implements_False cbb_on_error_def)
  next
    fix A B
    assume "wf_doc A" "k \<le> nesting A" "(if unat v < 256 ^ n then write_to k ?bs A else None) = Some B"
    then show "wf_doc B \<and> length (render A) \<le> length (render B)"
      using refinesD(2) [OF r, of A B] by (simp split: if_splits)
  }
qed

lemma CBB_add_u8_refines:
  "refines (\<lambda>A. k \<le> nesting A) (CBB_add_u8 k v) (write_to k [v])"
  unfolding CBB_add_u8_def
  by (rule refines_weaken [OF cbb_add_u_refines [of 1]]) (simp_all add: word_unat_eq_iff unat_of_nat_byte)

lemma refines_writes:
  assumes "refines (\<lambda>A. k \<le> nesting A) a (write_to k xs)" "refines (\<lambda>A. k \<le> nesting A) b (write_to k ys)"
  shows "refines (\<lambda>A. k \<le> nesting A) (wand a b) (write_to k (xs @ ys))"
proof (rule refines_weaken [OF refines_wand [OF assms]])
  fix A B assume "k \<le> nesting A" "write_to k xs A = Some B"
  with write_to_depth show "k \<le> nesting B" by (metis order_refl)
qed (simp_all add: write_to_append)

subsection \<open>Tags\<close>

text \<open>Base 128, from the number of digits the code counts down from.\<close>

fun base128_digits :: "nat \<Rightarrow> nat \<Rightarrow> byte list" where
  "base128_digits n 0 = []"
| "base128_digits n (Suc i) =
     of_nat ((if i \<noteq> 0 then 128 else 0) + n div 128 ^ i mod 128) # base128_digits n i"

fun hi_digits :: "nat \<Rightarrow> nat \<Rightarrow> byte list" where
  "hi_digits n 0 = []"
| "hi_digits n (Suc i) = of_nat (128 + n div 128 ^ i mod 128) # hi_digits n i"

lemma div_pow_128: "n div 128 ^ Suc i = n div 128 div 128 ^ i" for n :: nat
  by (simp only: power_Suc div_mult2_eq)

lemma hi_digits_snoc: "hi_digits n (Suc k) = hi_digits (n div 128) k @ [of_nat (128 + n mod 128)]"
proof (induction k)
  case (Suc k)
  have "hi_digits n (Suc (Suc k)) = of_nat (128 + n div 128 ^ Suc k mod 128) # hi_digits n (Suc k)"
    by (simp only: hi_digits.simps)
  then show ?case by (simp only: Suc div_pow_128) (simp only: hi_digits.simps append_Cons)
qed simp

lemma base128_digits_snoc:
  "base128_digits n (Suc k) = hi_digits (n div 128) k @ [of_nat (n mod 128)]"
proof (induction k)
  case (Suc k)
  have "base128_digits n (Suc (Suc k)) =
      of_nat (128 + n div 128 ^ Suc k mod 128) # base128_digits n (Suc k)"
    by (simp only: base128_digits.simps) simp
  then show ?case by (simp only: Suc div_pow_128) (simp only: hi_digits.simps append_Cons)
qed simp

lemma hi_digits_step: "128 ^ k \<le> m \<Longrightarrow> m < 128 ^ Suc k \<Longrightarrow> base128_hi m = hi_digits m (Suc k)"
proof (induction k arbitrary: m)
  case 0
  then show ?case by (simp add: base128_hi_step)
next
  case (Suc k)
  then have "128 ^ k \<le> m div 128" "m div 128 < 128 ^ Suc k" "0 < m"
    using less_le_trans [of 0 "128 ^ Suc k" m] by (simp_all add: less_eq_div_iff_mult_less_eq)
  then show ?case
    by (simp only: hi_digits_snoc [of m "Suc k"] base128_hi_step Suc.IH)
qed

lemma base128_len_bounds:
  "0 < n \<Longrightarrow> \<exists>k. base128_len n = Suc k \<and> 128 ^ k \<le> n \<and> n < 128 ^ Suc k"
proof (induction n rule: base128_len.induct)
  case (1 n)
  show ?case
  proof (cases "n div 128 = 0")
    case True
    then have "n < 128" by (simp add: div_eq_0_iff)
    then show ?thesis using 1 by (simp add: base128_len.simps)
  next
    case False
    with 1 obtain k where "base128_len (n div 128) = Suc k" "128 ^ k \<le> n div 128"
      "n div 128 < 128 ^ Suc k" by auto
    then show ?thesis using 1(2)
      by (intro exI [of _ "Suc k"]) (simp add: base128_len.simps [of n] less_eq_div_iff_mult_less_eq)
  qed
qed

lemma base128_digits_len:
  "base128_digits n (if base128_len n = 0 then 1 else base128_len n) = base128 n"
proof (cases "n < 128")
  case True
  have "base128_len n \<le> 1" using True by (simp add: base128_len.simps)
  then have "(if base128_len n = 0 then 1 else base128_len n) = Suc 0" by simp
  then have "base128_digits n (if base128_len n = 0 then 1 else base128_len n) = base128_digits n (Suc 0)"
    by (simp only:)
  with True show ?thesis by (simp add: base128_def)
next
  case False
  then obtain k where k: "base128_len n = Suc k" "128 ^ k \<le> n" "n < 128 ^ Suc k"
    using base128_len_bounds [of n] by auto
  obtain l where l: "k = Suc l" using k(3) False by (cases k) auto
  have "base128_hi (n div 128) = hi_digits (n div 128) k"
    unfolding l using k l by (intro hi_digits_step) (simp_all add: less_eq_div_iff_mult_less_eq)
  moreover have "(if base128_len n = 0 then 1 else base128_len n) = Suc k" by (simp add: k(1))
  ultimately show ?thesis by (simp only: base128_def base128_digits_snoc)
qed

text \<open>The byte the loop writes for digit \<open>i\<close>.\<close>

lemma base128_byte:
  "(let byte = ucast (drop_bit (7 * i) (v :: u64) AND 0x7f) :: byte
    in if i \<noteq> 0 then byte OR 0x80 else byte) =
   of_nat ((if i \<noteq> 0 then 128 else 0) + unat v div 128 ^ i mod 128)"
proof -
  define x where "x = drop_bit (7 * i) v AND 0x7f"
  define n where "n = unat v div 128 ^ i mod 128"
  have "(2::nat) ^ (7 * i) = 128 ^ i" by (simp only: power_mult) simp
  then have x: "unat x = n"
    using unat_and_mask [of "drop_bit (7 * i) v" 7]
    by (simp add: x_def n_def unat_drop_bit mask_eq_exp_minus_1)
  have n: "n < 128" by (simp add: n_def)
  have ux: "unat (ucast x :: byte) = n" using x n by (simp add: unsigned_ucast_eq take_bit_nat_eq_self)
  have "unat (push_bit 7 1 OR (ucast x :: byte)) = unat (1 :: byte) * 2 ^ 7 + unat (ucast x :: byte)"
    by (rule unat_shift_or) (use ux n in simp_all)
  moreover have "push_bit 7 (1 :: byte) = 0x80" by (simp add: push_bit_eq_mult)
  ultimately have or: "unat ((ucast x :: byte) OR 0x80) = 128 + n" using ux by (simp add: or.commute)
  have "unat (if i \<noteq> 0 then ucast x OR 0x80 else ucast x :: byte) = (if i \<noteq> 0 then 128 else 0) + n"
    using or ux by simp
  then show ?thesis unfolding Let_def x_def [symmetric] n_def [symmetric] by (rule word_eq_of_nat)
qed

lemma wand_skip: "wand a (\<lambda>s. (True, s)) = a"
  by (auto simp: wand_def fun_eq_iff split: prod.splits bool.splits)

lemma add_base128_loop_Suc:
  "add_base128_loop k v (Suc i) =
   wand (CBB_add_u8 k (of_nat ((if i \<noteq> 0 then 128 else 0) + unat v div 128 ^ i mod 128)))
     (add_base128_loop k v i)"
  by (rule ext) (simp only: add_base128_loop.simps base128_byte [of i v, symmetric] Let_def)

lemma add_base128_loop_refines:
  "refines (\<lambda>A. k \<le> nesting A) (add_base128_loop k v (Suc i)) (write_to k (base128_digits (unat v) (Suc i)))"
proof (induction i)
  case 0
  have "add_base128_loop k v 0 = (\<lambda>s. (True, s))" by (rule ext) simp
  then show ?case
    using CBB_add_u8_refines [of k "of_nat (0 + unat v div 128 ^ 0 mod 128)"]
    by (simp only: add_base128_loop_Suc wand_skip base128_digits.simps) simp
next
  case (Suc i)
  show ?case
    using refines_writes [OF CBB_add_u8_refines Suc]
    by (simp only: add_base128_loop_Suc [of k v "Suc i"] base128_digits.simps(2) [of _ "Suc i"] append_Cons append_Nil)
qed

lemma add_base128_refines:
  "refines (\<lambda>A. k \<le> nesting A) (add_base128_integer k v) (write_to k (base128 (unat v)))"
proof -
  define n where "n = (if base128_len (unat v) = 0 then 1 else base128_len (unat v))"
  then have "n \<noteq> 0" by simp
  then obtain i where "n = Suc i" by (cases n) auto
  then have "refines (\<lambda>A. k \<le> nesting A) (add_base128_loop k v n) (write_to k (base128_digits (unat v) n))"
    using add_base128_loop_refines by simp
  then show ?thesis
    by (simp only: add_base128_integer_def Let_def n_def base128_digits_len)
qed

lemma tag_bits:
  "unat (ucast (drop_bit CBS_ASN1_TAG_SHIFT (tag :: CBS_ASN1_TAG)) AND 0xe0 :: byte) = tag_class tag * 32"
proof -
  define b :: byte where "b = ucast (drop_bit 24 tag)"
  have "unat (drop_bit 24 tag) = unat tag div 2 ^ 24" by (rule unat_drop_bit)
  moreover have "unat tag div 2 ^ 24 < 256" using unat_bound [of tag] by simp
  ultimately have ub: "unat b = unat tag div 2 ^ 24"
    by (simp add: b_def unsigned_ucast_eq take_bit_nat_eq_self)
  have "unat (b AND NOT (mask 5)) = unat b div 32 * 32"
  proof -
    have "b AND NOT (mask 5) = push_bit 5 (drop_bit 5 b)"
      by (rule bit_word_eqI) (auto simp: bit_simps)
    also have "\<dots> = push_bit 5 (drop_bit 5 b) OR 0" by simp
    also have "unat b div 32 < 8" using byte_bound [of b] by linarith
    then have "unat (push_bit 5 (drop_bit 5 b) OR 0) = unat (drop_bit 5 b) * 2 ^ 5 + unat (0 :: byte)"
      by (intro unat_shift_or) (simp_all add: unat_drop_bit)
    finally show ?thesis by (simp add: unat_drop_bit)
  qed
  moreover have "NOT (mask 5) = (0xe0 :: byte)" by (simp add: mask_eq_exp_minus_1)
  ultimately have "unat (b AND 0xe0) = unat b div 32 * 32" by simp
  also have "unat b div 32 = tag_class tag"
    by (simp add: ub tag_class_def flip: div_mult2_eq)
  finally show ?thesis by (simp add: b_def)
qed

lemma tag_byte_or:
  assumes "unat (x :: byte) = c * 32" "unat (y :: byte) = n" "n < 32"
  shows "x OR y = of_nat (c * 32 + n)"
proof -
  have c: "c < 8" using byte_bound [of x] assms(1) by simp
  have u: "unat (of_nat c :: byte) = c" using c by (simp add: unat_of_nat_byte)
  have x: "x = push_bit 5 (of_nat c)"
    using assms(1) c by (simp add: word_unat_eq_iff push_bit_eq_mult unat_word_ariths unat_of_nat_byte mult.commute)
  have "unat (push_bit 5 (of_nat c) OR y) = unat (of_nat c :: byte) * 2 ^ 5 + unat y"
    by (rule unat_shift_or) (use assms u c in simp_all)
  then show ?thesis
    using u assms by (intro word_eq_of_nat) (simp add: x)
qed

lemma tag_number_and: "unat (tag AND CBS_ASN1_TAG_NUMBER_MASK) = tag_number tag"
  using unat_and_mask [of tag 29] by (simp add: tag_number_def mask_eq_exp_minus_1)

text \<open>The identifier octets as \<open>CBB_add_asn1\<close> writes them.\<close>

definition add_identifier :: "nat \<Rightarrow> CBS_ASN1_TAG \<Rightarrow> writer" where
  "add_identifier k tag =
     (let tag_bits = ucast (drop_bit CBS_ASN1_TAG_SHIFT tag) AND 0xe0 :: byte;
          tag_number = tag AND CBS_ASN1_TAG_NUMBER_MASK
      in if tag_number \<ge> 0x1f
         then wand (CBB_add_u8 k (tag_bits OR 0x1f)) (add_base128_integer k (ucast tag_number))
         else CBB_add_u8 k (tag_bits OR ucast tag_number))"

lemma CBB_add_asn1_eq:
  "CBB_add_asn1 k tag = wand (CBB_flush k) (wand (add_identifier k tag) (cbb_add_child 1 True))"
  by (simp only: CBB_add_asn1_def add_identifier_def Let_def)

lemma add_identifier_refines:
  "refines (\<lambda>A. k \<le> nesting A) (add_identifier k tag) (write_to k (asn1_identifier tag))"
proof -
  define tb :: byte where "tb = ucast (drop_bit CBS_ASN1_TAG_SHIFT tag) AND 0xe0"
  define tn where "tn = tag AND CBS_ASN1_TAG_NUMBER_MASK"
  have tb: "unat tb = tag_class tag * 32" unfolding tb_def by (rule tag_bits)
  have tn: "unat tn = tag_number tag" unfolding tn_def by (rule tag_number_and)
  have ge: "tn \<ge> 0x1f \<longleftrightarrow> \<not> tag_number tag < 31" by (simp add: word_le_nat_alt tn not_less)
  have eq: "add_identifier k tag =
      (if tn \<ge> 0x1f then wand (CBB_add_u8 k (tb OR 0x1f)) (add_base128_integer k (ucast tn))
       else CBB_add_u8 k (tb OR ucast tn))"
    by (simp only: add_identifier_def Let_def tb_def tn_def)
  show ?thesis
  proof (cases "tag_number tag < 31")
    case True
    then have "unat (ucast tn :: byte) = tag_number tag"
      by (simp add: unsigned_ucast_eq take_bit_nat_eq_self tn)
    from tag_byte_or [OF tb this] True
    have "tb OR ucast tn = of_nat (tag_class tag * 32 + tag_number tag)" by simp
    with True ge eq show ?thesis
      using CBB_add_u8_refines by (simp add: asn1_identifier_def)
  next
    case False
    have "tb OR 0x1f = of_nat (tag_class tag * 32 + 31)"
      by (rule tag_byte_or [OF tb]) simp_all
    then have idn: "asn1_identifier tag = (tb OR 0x1f) # base128 (tag_number tag)"
      using False by (simp add: asn1_identifier_def)
    have "unat (ucast tn :: u64) = tag_number tag"
      by (simp only: tn [symmetric]) (rule unat_ucast_up, simp)
    with refines_writes [OF CBB_add_u8_refines [of k "tb OR 0x1f"] add_base128_refines [of k "ucast tn"]]
    show ?thesis using False ge eq by (simp only: idn append_Cons append_Nil not_False_eq_True if_True)
  qed
qed

lemma wf_open_field [simp]: "wf_doc (open_field p a A) \<longleftrightarrow> (a \<longrightarrow> p = 1) \<and> wf_doc A"
  by (cases A) (simp add: open_field_def)

lemma render_open_field [simp]: "render (open_field p a A) = render A @ replicate p 0"
  by (cases A) (simp add: open_field_def)

lemma open_children_open_field [simp]:
  "open_children (open_field p a A) = open_children A @
     [\<lparr>offset = length (render A), pending_len_len = p, pending_is_asn1 = a\<rparr>]"
  by (cases A) (simp add: open_field_def)

lemma cbb_add_child_refines:
  assumes p: "p < 2 ^ 64" and a: "a \<Longrightarrow> p = 1"
  shows "refines (\<lambda>_. True) (cbb_add_child p a) (\<lambda>A. Some (open_field p a A))"
proof (rule refinesI)
  fix s A assume r: "repr s A"
  let ?z = "replicate p 0 :: byte list"
  have len: "length ?z < 2 ^ 64" using p by simp
  from cbb_buffer_add_cases [OF r len]
  show "implements (Some (open_field p a A)) s (cbb_add_child p a s)"
  proof (elim disjE exE conjE)
    fix c
    assume add: "cbb_buffer_add ?z s = (True, s\<lparr>cap := c, buf := buf s @ ?z\<rparr>)"
      and r': "repr (s\<lparr>cap := c, buf := buf s @ ?z\<rparr>) (append_open ?z A)"
    have "repr (s\<lparr>cap := c, buf := buf s @ ?z, children := children s @
        [\<lparr>offset = length (buf s), pending_len_len = p, pending_is_asn1 = a\<rparr>]\<rparr>) (open_field p a A)"
      using r r' a by (auto simp: repr_def)
    then show ?thesis
      by (simp add: cbb_add_child_def Let_def add implements_True)
  next
    assume "cbb_buffer_add ?z s = (False, s\<lparr>error := True\<rparr>)"
      and "\<not> (growable s \<and> length (buf s) + length ?z < 2 ^ 64)"
    then show ?thesis
      using r by (auto simp: cbb_add_child_def Let_def implements_False repr_def)
  qed
next
  fix A B assume "wf_doc A" "Some (open_field p a A) = Some B"
  then have B: "B = open_field p a A" by (simp only: option.inject)
  show "wf_doc B \<and> length (render A) \<le> length (render B)"
    using \<open>wf_doc A\<close> a by (simp only: B wf_open_field render_open_field) simp
qed

definition open_asn1 :: "nat \<Rightarrow> CBS_ASN1_TAG \<Rightarrow> doc \<Rightarrow> doc option" where
  "open_asn1 k tag A = map_option (open_field 1 True) (write_to k (asn1_identifier tag) A)"

lemma open_asn1_depth: "open_asn1 k tag A = Some B \<Longrightarrow> k \<le> nesting A \<Longrightarrow> nesting B = Suc k"
  by (auto simp: open_asn1_def open_field_def dest: write_to_depth)

lemma CBB_add_asn1_refines:
  "refines (\<lambda>A. k \<le> nesting A) (CBB_add_asn1 k tag) (open_asn1 k tag)"
proof -
  have ident: "refines (\<lambda>A. k \<le> nesting A) (wand (add_identifier k tag) (cbb_add_child 1 True))
      (\<lambda>A. Option.bind (write_to k (asn1_identifier tag) A) (\<lambda>B. Some (open_field 1 True B)))"
    by (rule refines_wand [OF add_identifier_refines cbb_add_child_refines]) simp_all
  show ?thesis
    unfolding CBB_add_asn1_eq
  proof (rule refines_weaken [OF refines_wand [OF flush_refines ident]])
    fix A B assume "k \<le> nesting A" "flush_to k A = Some B"
    with flush_to_depth show "k \<le> nesting B" by (metis order_refl)
  next
    fix A assume k: "k \<le> nesting A"
    show "Option.bind (flush_to k A)
        (\<lambda>A. Option.bind (write_to k (asn1_identifier tag) A) (\<lambda>B. Some (open_field 1 True B))) =
        open_asn1 k tag A"
    proof (cases "flush_to k A")
      case (Some B)
      then have d: "nesting B = k" using k by (rule flush_to_depth)
      show ?thesis by (simp add: Some open_asn1_def write_to_def [of k _ A] d)
    qed (simp add: open_asn1_def write_to_def)
  qed
qed

text \<open>Closing the element that \<open>CBB_add_asn1\<close> opened, after \<open>c\<close> was written to it.\<close>

lemma close_asn1:
  assumes k: "k \<le> nesting A" and c: "length c \<le> 0xfffffffe"
  shows "Option.bind (Option.bind (open_asn1 k tag A) (write_to (Suc k) c)) (flush_to k) =
    write_to k (der_element tag c) A"
proof (cases "flush_to k A")
  case (Some B)
  then have d: "nesting B = k" using k by (rule flush_to_depth)
  let ?I = "append_open (asn1_identifier tag) B"
  have "open_asn1 k tag A = Some (open_field 1 True ?I)"
    by (simp add: open_asn1_def write_to_def Some)
  moreover have "write_to (Suc k) c (open_field 1 True ?I) = Some ((1, True, c) # fst ?I, snd ?I)"
    using d by (simp add: open_field_def write_to_def)
  moreover have "flush_to k ((1, True, c) # fst ?I, snd ?I) =
      Some (append_open (asn1_length (length c) @ c) ?I)"
    using d c by (simp add: flush_to_def length_prefix_def)
  moreover have "write_to k (der_element tag c) A = Some (append_open (asn1_length (length c) @ c) ?I)"
    by (simp add: write_to_def Some append_open_append der_element_def der_header_def)
  ultimately show ?thesis by (simp only: bind.bind_lunit)
qed (simp add: open_asn1_def write_to_def)

text \<open>
  The pattern of the functions that write one element: open it, write \<open>c\<close> to it, close it. The
  code puts either all of it or all but the last flush under the error label.
\<close>

lemma element_refines:
  assumes body: "refines (\<lambda>A. Suc k \<le> nesting A) body (write_to (Suc k) c)"
    and c: "length c \<le> 0xfffffffe"
  shows "refines (\<lambda>A. k \<le> nesting A) (wand (or_on_error k (wand (CBB_add_asn1 k tag) body)) (CBB_flush k))
           (write_to k (der_element tag c))" (is ?early)
    and "refines (\<lambda>A. k \<le> nesting A) (or_on_error k (wand (CBB_add_asn1 k tag) (wand body (CBB_flush k))))
           (write_to k (der_element tag c))" (is ?late)
proof -
  note opn = CBB_add_asn1_refines [of k tag]
  have ab: "refines (\<lambda>A. k \<le> nesting A) (wand (CBB_add_asn1 k tag) body)
      (\<lambda>A. Option.bind (open_asn1 k tag A) (write_to (Suc k) c))"
    by (rule refines_wand [OF opn body]) (auto dest: open_asn1_depth)
  have bc: "refines (\<lambda>A. Suc k \<le> nesting A) (wand body (CBB_flush k))
      (\<lambda>A. Option.bind (write_to (Suc k) c A) (flush_to k))"
    by (rule refines_wand [OF body flush_refines]) (auto dest: write_to_depth)
  show ?early
  proof (rule refines_weaken [OF refines_wand [OF refines_or_on_error [OF ab] flush_refines]])
    fix A B
    assume "k \<le> nesting A" "Option.bind (open_asn1 k tag A) (write_to (Suc k) c) = Some B"
    then show "k \<le> nesting B"
      by (auto simp: bind_eq_Some_conv dest!: open_asn1_depth write_to_depth)
  qed (use close_asn1 [OF _ c] in simp_all)
  show ?late
  proof (rule refines_weaken [OF refines_or_on_error [OF refines_wand [OF opn bc]]])
    fix A B assume "k \<le> nesting A" "open_asn1 k tag A = Some B"
    then show "Suc k \<le> nesting B" by (auto dest: open_asn1_depth)
  qed (use close_asn1 [OF _ c] in \<open>simp_all add: bind_assoc\<close>)
qed

end
