(* ===== verification/Asn1_Values.thy ===== *)
theory Asn1_Values
  imports Cbb_Spec "HOL-Library.Multiset"
begin

text \<open>
  The primitive values \<open>cbs.c\<close> reads and \<open>cbb.c\<close> writes: INTEGER, BOOLEAN, OCTET STRING and the
  length-prefixed fields. An INTEGER is specified by its contents: a minimal two's-complement
  big-endian number. The lemmas show that readers and writers agree with it on both sides.
\<close>

section \<open>Two's-complement contents\<close>

definition twos :: "byte list \<Rightarrow> int" where
  "twos bs = int (be_nat bs) - (if bs \<noteq> [] \<and> unat (hd bs) \<ge> 128 then 256 ^ length bs else 0)"

fun der_integer :: "byte list \<Rightarrow> bool" where
  "der_integer [] = False"
| "der_integer [a] = True"
| "der_integer (a # b # bs) = (\<not> (a = 0 \<and> unat b < 128) \<and> \<not> (a = 0xff \<and> 128 \<le> unat b))"

lemma CBS_is_valid_asn1_integer_iff:
  "CBS_is_valid_asn1_integer bs = (True, sign) \<longleftrightarrow>
   der_integer bs \<and> sign = Some (128 \<le> unat (hd bs))"
  by (cases bs rule: der_integer.cases) (auto simp: CBS_is_valid_asn1_integer_def byte_high_bit Let_def)

lemma CBS_is_unsigned_iff:
  "CBS_is_unsigned_asn1_integer bs \<longleftrightarrow> der_integer bs \<and> unat (hd bs) < 128"
  by (auto simp: CBS_is_unsigned_asn1_integer_def CBS_is_valid_asn1_integer_iff)

lemma be_nat_Cons_bounds:
  "unat b * 256 ^ length bs \<le> be_nat (b # bs)" "be_nat (b # bs) < (unat b + 1) * 256 ^ length bs"
  using be_nat_less [of bs] by (simp_all add: algebra_simps)

text \<open>The range of \<open>n\<close> bytes, and that a minimal encoding needs all of them.\<close>

lemma twos_Cons:
  "twos (b # bs) = (if unat b < 128 then int (unat b) else int (unat b) - 256) * 256 ^ length bs
     + int (be_nat bs)"
  by (simp add: twos_def algebra_simps)

lemma twos_range:
  assumes "length bs = Suc n"
  shows "- (128 * 256 ^ n) \<le> twos bs" "twos bs < 128 * 256 ^ n"
proof -
  from assms obtain b cs where bs: "bs = b # cs" "length cs = n" by (cases bs) auto
  define d :: int where "d = (if unat b < 128 then int (unat b) else int (unat b) - 256)"
  have d: "- 128 \<le> d" "d + 1 \<le> 128" using byte_bound [of b] unfolding d_def
    by (split if_split, linarith)+
  have t: "twos bs = d * 256 ^ n + int (be_nat cs)" using bs by (simp add: twos_Cons d_def)
  have r: "int (be_nat cs) < 256 ^ n"
    using be_nat_less [of cs] bs(2) by (metis of_nat_less_iff of_nat_numeral of_nat_power)
  have "- 128 * 256 ^ n \<le> d * 256 ^ n" using d(1) by (intro mult_right_mono) simp_all
  moreover have "(d + 1) * 256 ^ n \<le> 128 * 256 ^ n" using d(2) by (intro mult_right_mono) simp_all
  moreover have "(d + 1) * 256 ^ n = d * 256 ^ n + 256 ^ n" by (simp add: distrib_right)
  ultimately show "- (128 * 256 ^ n) \<le> twos bs" "twos bs < 128 * 256 ^ n"
    using r t by linarith+
qed

lemma two_byte_range:
  fixes x y :: nat
  assumes "x < 256" "y < 256" "\<not> (x = 0 \<and> y < 128)" "\<not> (x = 255 \<and> 128 \<le> y)"
    and "d = (if x < 128 then int x else int x - 256) * 256 + int y"
  shows "128 \<le> d \<or> d + 1 \<le> - 128"
proof (cases "x < 128")
  case True
  then show ?thesis using assms by (cases "x = 0") auto
next
  case False
  then show ?thesis using assms by (cases "x = 255") auto
qed

lemma twos_minimal:
  assumes "der_integer bs" "length bs = Suc (Suc n)"
  shows "128 * 256 ^ n \<le> twos bs \<or> twos bs < - (128 * 256 ^ n)"
proof -
  from assms(2) obtain a b cs where bs: "bs = a # b # cs" "length cs = n"
    by (auto simp: length_Suc_conv)
  define d :: int where
    "d = (if unat a < 128 then int (unat a) else int (unat a) - 256) * 256 + int (unat b)"
  have t: "twos bs = d * 256 ^ n + int (be_nat cs)"
    using bs by (simp add: twos_Cons d_def algebra_simps)
  have r: "0 \<le> int (be_nat cs)" "int (be_nat cs) < 256 ^ n"
    using be_nat_less [of cs] bs(2) by (simp, metis of_nat_less_iff of_nat_numeral of_nat_power)
  have "a = 0 \<longleftrightarrow> unat a = 0" "a = 0xff \<longleftrightarrow> unat a = 255" by (simp_all add: word_unat_eq_iff)
  with assms(1) bs(1)
  have "\<not> (unat a = 0 \<and> unat b < 128)" "\<not> (unat a = 255 \<and> 128 \<le> unat b)" by auto
  then have "128 \<le> d \<or> d + 1 \<le> - 128"
    using byte_bound [of a] byte_bound [of b] d_def
    by (intro two_byte_range [of "unat a" "unat b"])
  then show ?thesis
  proof
    assume "128 \<le> d"
    then have "128 * 256 ^ n \<le> d * 256 ^ n" by (intro mult_right_mono) simp_all
    with t r show ?thesis by linarith
  next
    assume "d + 1 \<le> - 128"
    then have "(d + 1) * 256 ^ n \<le> - 128 * 256 ^ n" by (intro mult_right_mono) simp_all
    moreover have "(d + 1) * 256 ^ n = d * 256 ^ n + 256 ^ n" by (simp add: distrib_right)
    ultimately show ?thesis using t r by linarith
  qed
qed

lemma power_256_mono_int: "m \<le> n \<Longrightarrow> (256::int) ^ m \<le> 256 ^ n"
  by (simp add: power_increasing)

text \<open>A number has one minimal encoding.\<close>

lemma der_integer_length:
  assumes "der_integer xs" "der_integer ys" "twos xs = twos ys"
  shows "length xs \<le> length ys"
proof (rule ccontr)
  assume "\<not> length xs \<le> length ys"
  moreover have "ys \<noteq> []" using assms(2) by auto
  ultimately obtain m n where len: "length xs = Suc (Suc m)" "length ys = Suc n" "n \<le> m"
    by (cases xs; cases "tl xs"; cases ys) auto
  from twos_minimal [OF assms(1) len(1)] twos_range [OF len(2)] power_256_mono_int [OF len(3)]
  show False using assms(3) by linarith
qed

lemma der_integer_unique:
  assumes "der_integer xs" "der_integer ys" "twos xs = twos ys"
  shows "xs = ys"
proof -
  have len: "length xs = length ys"
    using der_integer_length [OF assms] der_integer_length [OF assms(2,1) assms(3) [symmetric]] by simp
  have m: "int (be_nat bs) mod 256 ^ length bs = int (be_nat bs)" for bs
    using be_nat_less [of bs] by (intro mod_pos_pos_trivial) (simp_all flip: of_nat_less_iff)
  have t: "twos bs mod 256 ^ length bs = int (be_nat bs)" for bs
    using m [of bs] by (simp add: twos_def mod_diff_eq flip: mod_diff_right_eq)
  have "int (be_nat xs) = int (be_nat ys)"
    using t [of xs] t [of ys] assms(3) len by simp
  with be_nat_inject [OF len] show ?thesis by simp
qed

lemma twos_unsigned: "unat (hd bs) < 128 \<Longrightarrow> twos bs = int (be_nat bs)"
  by (simp add: twos_def)

text \<open>What fits in an \<open>int64_t\<close> has at most eight bytes of contents.\<close>

lemma der_integer_length_8:
  assumes "der_integer bs" "- (2 ^ 63) \<le> twos bs" "twos bs < 2 ^ 63"
  shows "length bs \<le> 8"
proof (rule ccontr)
  assume "\<not> length bs \<le> 8"
  then obtain n where n: "length bs = Suc (Suc n)" "7 \<le> n" by (cases bs; cases "tl bs") auto
  have "(2 ^ 63 :: int) = 128 * 256 ^ 7" by simp
  with twos_minimal [OF assms(1) n(1)] power_256_mono_int [OF n(2)] assms(2,3)
  show False by linarith
qed

section \<open>Reading integers\<close>

lemma asn1_uint64_loop_eq:
  "asn1_uint64_loop out bs =
   (if unat out * 256 ^ length bs + be_nat bs < 2 ^ 64 then Some (load_be out bs) else None)"
proof (induction bs arbitrary: out)
  case Nil
  show ?case using unat_bound [of out] by simp
next
  case (Cons b bs)
  let ?out = "push_bit 8 out OR ucast b"
  show ?case
  proof (cases "unat out < 2 ^ 56")
    case True
    then have "unat ?out = unat out * 256 + unat b"
      using unat_shift_or [of "ucast b :: u64" 8 out] by simp
    then have "unat ?out * 256 ^ length bs + be_nat bs =
        unat out * 256 ^ length (b # bs) + be_nat (b # bs)"
      by (simp add: algebra_simps)
    with True show ?thesis using Cons.IH [of ?out]
      by (simp only: asn1_uint64_loop.simps load_be.simps drop_bit_eq_0_nat not_not if_True if_False)
        simp
  next
    case False
    then have "2 ^ 56 * 256 ^ 1 \<le> unat out * 256 ^ length (b # bs)"
      by (intro mult_le_mono power_increasing) simp_all
    then have "\<not> unat out * 256 ^ length (b # bs) + be_nat (b # bs) < 2 ^ 64" by simp
    with False show ?thesis
      by (simp only: asn1_uint64_loop.simps drop_bit_eq_0_nat if_False not_False_eq_True if_True)
  qed
qed

lemma asn1_uint64_loop_0:
  "asn1_uint64_loop 0 bs = Some v \<longleftrightarrow> be_nat bs = unat v"
proof
  assume "asn1_uint64_loop 0 bs = Some v"
  then have "be_nat bs < 2 ^ 64" "v = load_be 0 bs"
    by (simp_all add: asn1_uint64_loop_eq split: if_splits)
  then show "be_nat bs = unat v" using unat_load_be [of 0 bs] by simp
next
  assume b: "be_nat bs = unat v"
  then have "be_nat bs < 2 ^ 64" using unat_bound [of v] by simp
  with b unat_load_be [of 0 bs] show "asn1_uint64_loop 0 bs = Some v"
    by (simp add: asn1_uint64_loop_eq word_unat_eq_iff)
qed

lemma valid_tags [simp]: "valid_tag CBS_ASN1_INTEGER" "valid_tag CBS_ASN1_BOOLEAN"
  "valid_tag CBS_ASN1_OCTETSTRING"
  by (simp_all add: valid_tag_def)

lemma CBS_get_asn1_uint64_iff:
  "CBS_get_asn1_uint64 cbs = (Some v, t) \<longleftrightarrow>
   (\<exists>bs. length bs < 2 ^ 32 \<and> cbs = der_element CBS_ASN1_INTEGER bs @ t \<and>
      der_integer bs \<and> twos bs = uint v)"
proof -
  have sgn: "der_integer bs \<and> unat (hd bs) < 128 \<and> be_nat bs = unat v \<longleftrightarrow>
      der_integer bs \<and> twos bs = uint v" for bs
  proof (cases "unat (hd bs) < 128")
    case False
    have "int (be_nat bs) < 256 ^ length bs"
      using be_nat_less [of bs] by (metis of_nat_less_iff of_nat_numeral of_nat_power)
    then have "twos bs < 0" if "der_integer bs"
      using False that by (cases "bs = []") (simp_all add: twos_def)
    moreover have "0 \<le> uint v" by simp
    ultimately show ?thesis using False by (metis not_less)
  next
    case True
    have "int (be_nat bs) = uint v \<longleftrightarrow> be_nat bs = unat v"
      by (simp only: uint_nat of_nat_eq_iff)
    with True show ?thesis by (simp add: twos_unsigned)
  qed
  have body: "(if \<not> CBS_is_unsigned_asn1_integer bs then rfail
      else (case asn1_uint64_loop 0 bs of None \<Rightarrow> rfail | Some out \<Rightarrow> rret out)) s = (Some v, t) \<longleftrightarrow>
    s = t \<and> der_integer bs \<and> twos bs = uint v" for bs s
    unfolding sgn [symmetric] CBS_is_unsigned_iff asn1_uint64_loop_0 [symmetric]
    by (auto split: option.splits)
  show ?thesis
    unfolding CBS_get_asn1_uint64_def rbind_eq_Some CBS_get_asn1_iff body by auto
qed

text \<open>The sign-extended contents are the 64-bit value.\<close>

lemma be_nat_replicate_ff: "be_nat (replicate k 0xff @ bs) = (256 ^ k - 1) * 256 ^ length bs + be_nat bs"
proof (induction k)
  case (Suc k)
  have "(256::nat) ^ Suc k - 1 = 255 * 256 ^ k + (256 ^ k - 1)" by simp
  then have "((256::nat) ^ Suc k - 1) * 256 ^ length bs
      = 255 * 256 ^ (k + length bs) + (256 ^ k - 1) * 256 ^ length bs"
    by (simp only: add_mult_distrib power_add mult.assoc)
  then show ?case using Suc by simp
qed simp

lemma be_nat_replicate_0: "be_nat (replicate k 0 @ bs) = be_nat bs"
  by (induction k) simp_all

lemma sint_eqI:
  assumes "uint (v :: u64) = x mod 2 ^ 64" "- (2 ^ 63) \<le> x" "x < 2 ^ 63"
  shows "sint v = x"
proof -
  have "sint v = (uint v + 2 ^ 63) mod 2 ^ 64 - 2 ^ 63"
    by (simp add: sint_uint signed_take_bit_eq_take_bit_shift take_bit_eq_mod)
  also have "(uint v + 2 ^ 63) mod 2 ^ 64 = (x + 2 ^ 63) mod 2 ^ 64"
    by (simp only: assms(1) mod_add_left_eq)
  also have "\<dots> = x + 2 ^ 63" using assms(2,3) by (intro mod_pos_pos_trivial) simp_all
  finally show ?thesis by simp
qed

lemma uint_less_64: "uint (v :: u64) < 2 ^ 64"
  using unsigned_less [of v] by simp

lemma sint_cases:
  "uint (v :: u64) < 2 ^ 63 \<and> sint v = uint v \<or> 2 ^ 63 \<le> uint v \<and> sint v = uint v - 2 ^ 64"
proof (cases "uint v < 2 ^ 63")
  case True
  have "0 \<le> uint v" by simp
  then have "- (2 ^ 63) \<le> uint v" "uint v mod 2 ^ 64 = uint v"
    using True by (linarith, intro mod_pos_pos_trivial, simp_all)
  then have "sint v = uint v" using True by (intro sint_eqI) simp_all
  with True show ?thesis by simp
next
  case False
  have "sint v = uint v - 2 ^ 64"
    using uint_less_64 [of v] False by (intro sint_eqI) (simp_all flip: mod_diff_right_eq add: mod_pos_pos_trivial)
  with False show ?thesis by simp
qed

lemma power_256_le:
  assumes "n \<le> 8" "n \<noteq> 0" shows "128 * (256::int) ^ (n - 1) \<le> 2 ^ 63"
  using power_256_mono_int [of "n - 1" 7] assms by simp

lemma sint_sign_extend:
  assumes "bs \<noteq> []" "length bs \<le> 8"
  shows "sint (load_be 0 (replicate (8 - length bs) (if 128 \<le> unat (hd bs) then 0xff else 0) @ bs))
    = twos bs"
proof -
  define k where "k = 8 - length bs"
  let ?e = "replicate k (if 128 \<le> unat (hd bs) then 0xff else 0) @ bs"
  have len: "length ?e = 8" using assms by (simp add: k_def)
  then have lt: "be_nat ?e < 2 ^ 64" using be_nat_less [of ?e] by simp
  then have u: "uint (load_be 0 ?e) = int (be_nat ?e)"
    using unat_load_be [of 0 ?e] by (simp add: uint_nat)
  have "int (be_nat ?e) = twos bs \<or> int (be_nat ?e) = twos bs + 2 ^ 64"
  proof (cases "128 \<le> unat (hd bs)")
    case True
    have "(256::int) ^ k * 256 ^ length bs = 256 ^ 8"
      using assms(2) by (simp add: k_def flip: power_add)
    then have "int ((256 ^ k - 1) * 256 ^ length bs) = 2 ^ 64 - 256 ^ length bs"
      by (simp add: of_nat_diff left_diff_distrib)
    then show ?thesis using True assms(1) by (simp add: be_nat_replicate_ff twos_def)
  next
    case False
    then show ?thesis by (simp add: be_nat_replicate_0 twos_def)
  qed
  moreover have "int (be_nat ?e) mod 2 ^ 64 = int (be_nat ?e)"
    using lt by (intro mod_pos_pos_trivial) (simp_all flip: of_nat_less_iff)
  ultimately have m: "int (be_nat ?e) = twos bs mod 2 ^ 64" by (metis mod_add_self2)
  obtain n where n: "length bs = Suc n" using assms(1) by (cases bs) auto
  have "128 * (256::int) ^ n \<le> 2 ^ 63" using power_256_le [of "Suc n"] assms(2) n by simp
  then have "- (2 ^ 63) \<le> twos bs" "twos bs < 2 ^ 63" using twos_range [OF n] by linarith+
  with m u show ?thesis by (simp only: k_def sint_eqI)
qed

lemma CBS_get_asn1_int64_iff:
  "CBS_get_asn1_int64 cbs = (Some v, t) \<longleftrightarrow>
   (\<exists>bs. cbs = der_element CBS_ASN1_INTEGER bs @ t \<and> der_integer bs \<and> twos bs = sint v)"
proof -
  define body :: "CBS \<Rightarrow> u64 reader" where "body = (\<lambda>bytes.
     case CBS_is_valid_asn1_integer bytes of
         (True, Some is_negative) \<Rightarrow>
           if length bytes > 8 then rfail
           else let sign_extend = replicate (8 - length bytes) (if is_negative then 0xff else 0) @ bytes
                in rret (load_be 0 sign_extend)
       | _ \<Rightarrow> rfail)"
  have valid: "CBS_is_valid_asn1_integer bs = (True, Some (128 \<le> unat (hd bs)))" if "der_integer bs" for bs
    using that by (simp add: CBS_is_valid_asn1_integer_iff)
  have invalid: "body bs = rfail" if "\<not> der_integer bs" for bs
    using that CBS_is_valid_asn1_integer_iff [of bs]
    by (auto simp: body_def split: prod.splits bool.splits option.splits)
  have body: "body bs s = (Some v, t) \<longleftrightarrow> s = t \<and> der_integer bs \<and> twos bs = sint v" for bs s
  proof (cases "der_integer bs")
    case True
    then have ne: "bs \<noteq> []" by auto
    show ?thesis
    proof (cases "length bs \<le> 8")
      case False
      have "- (2 ^ 63) \<le> sint v" "sint v < 2 ^ 63"
        using sint_ge [of v] sint_lt [of v] by simp_all
      with der_integer_length_8 [OF True] False have "twos bs \<noteq> sint v" by auto
      with False valid [OF True] show ?thesis by (simp add: body_def)
    next
      case le: True
      define x where
        "x = load_be 0 (replicate (8 - length bs) (if 128 \<le> unat (hd bs) then 0xff else 0) @ bs)"
      have "body bs s = (Some x, s)" using le valid [OF True] by (simp add: body_def x_def)
      moreover have "sint x = twos bs" unfolding x_def by (rule sint_sign_extend [OF ne le])
      then have "twos bs = sint v \<longleftrightarrow> x = v" by (auto intro: signed_word_eqI)
      ultimately show ?thesis using True by auto
    qed
  qed (simp add: invalid)
  have "CBS_get_asn1_int64 cbs = (Some v, t) \<longleftrightarrow> (\<exists>bs. length bs < 2 ^ 32 \<and>
      cbs = der_element CBS_ASN1_INTEGER bs @ t \<and> der_integer bs \<and> twos bs = sint v)"
    unfolding CBS_get_asn1_int64_def rbind_eq_Some CBS_get_asn1_iff body_def [symmetric] body by auto
  also have "\<dots> \<longleftrightarrow> (\<exists>bs. cbs = der_element CBS_ASN1_INTEGER bs @ t \<and> der_integer bs \<and> twos bs = sint v)"
  proof -
    have "length bs < 2 ^ 32" if "der_integer bs" "twos bs = sint v" for bs
    proof -
      have "length bs \<le> 8"
        using der_integer_length_8 [OF that(1)] that(2) sint_ge [of v] sint_lt [of v] by simp
      then show ?thesis by simp
    qed
    then show ?thesis by blast
  qed
  finally show ?thesis .
qed

section \<open>Writing integers\<close>

text \<open>The bytes the loop of \<open>CBB_add_asn1_uint64_with_tag\<close> writes.\<close>

fun uint64_body :: "nat \<Rightarrow> nat \<Rightarrow> bool \<Rightarrow> byte list" where
  "uint64_body n 0 started = (if \<not> started then [0] else [])"
| "uint64_body n (Suc i) started =
     (let byte = n div 256 ^ i mod 256
      in if \<not> started \<and> byte = 0 then uint64_body n i False
         else (if \<not> started \<and> 128 \<le> byte then [0] else []) @ of_nat byte # uint64_body n i True)"

lemma ucast_shift_byte:
  "ucast (drop_bit (8 * i) (v :: u64) AND 0xff) = (of_nat (unat v div 256 ^ i mod 256) :: byte)"
proof -
  have p: "(2::nat) ^ (8 * i) = 256 ^ i" by (simp only: power_mult) simp
  have "unat (drop_bit (8 * i) v AND mask 8) = unat v div 256 ^ i mod 256"
    by (simp only: unat_and_mask unat_drop_bit p) simp
  moreover have "(0xff :: u64) = mask 8" by (simp add: mask_eq_exp_minus_1)
  ultimately show ?thesis by (simp only: ucast_byte_of_nat)
qed

lemma refines_then_writes:
  assumes "b \<Longrightarrow> refines (\<lambda>A. k \<le> nesting A) w (write_to k xs)"
    and "refines (\<lambda>A. k \<le> nesting A) w' (write_to k ys)"
  shows "refines (\<lambda>A. k \<le> nesting A) (wand (if b then w else (\<lambda>s. (True, s))) w')
    (write_to k ((if b then xs else []) @ ys))"
proof (cases b)
  case True
  with assms refines_writes show ?thesis by simp
next
  case False
  have "wand (\<lambda>s. (True, s)) w' = w'" by (simp add: wand_def fun_eq_iff)
  with False assms(2) show ?thesis by simp
qed

lemma uint64_loop_refines:
  "refines (\<lambda>A. k \<le> nesting A) (wand (CBB_add_u8 k b) (asn1_uint64_bytes_loop k v i True))
     (write_to k (b # uint64_body (unat v) i True))"
proof (induction i arbitrary: b)
  case 0
  show ?case using CBB_add_u8_refines [of k b] by (simp add: wand_skip)
next
  case (Suc i)
  let ?b = "of_nat (unat v div 256 ^ i mod 256) :: byte"
  have "asn1_uint64_bytes_loop k v (Suc i) True = wand (CBB_add_u8 k ?b) (asn1_uint64_bytes_loop k v i True)"
    by (simp add: ucast_shift_byte wand_def fun_eq_iff)
  then show ?case
    using refines_writes [OF CBB_add_u8_refines [of k b] Suc [of ?b]] by simp
qed

lemma uint64_bytes_loop_refines:
  "refines (\<lambda>A. k \<le> nesting A) (asn1_uint64_bytes_loop k v i False) (write_to k (uint64_body (unat v) i False))"
proof (induction i)
  case 0
  show ?case using CBB_add_u8_refines [of k 0] by simp
next
  case (Suc i)
  define n where "n = unat v div 256 ^ i mod 256"
  let ?b = "of_nat n :: byte"
  have b: "unat ?b = n" by (simp add: n_def unat_of_nat_byte)
  have z: "?b = 0 \<longleftrightarrow> n = 0" using b by (metis unat_eq_zero)
  have hi: "?b AND 0x80 \<noteq> 0 \<longleftrightarrow> 128 \<le> n" by (simp only: byte_high_bit b not_less)
  have step: "asn1_uint64_bytes_loop k v (Suc i) False =
      (if n = 0 then asn1_uint64_bytes_loop k v i False
       else wand (if 128 \<le> n then CBB_add_u8 k 0 else (\<lambda>s. (True, s)))
              (wand (CBB_add_u8 k ?b) (asn1_uint64_bytes_loop k v i True)))"
    by (simp only: asn1_uint64_bytes_loop.simps ucast_shift_byte Let_def n_def [symmetric] z hi
        simp_thms)
  have "refines (\<lambda>A. k \<le> nesting A) (wand (if 128 \<le> n then CBB_add_u8 k 0 else (\<lambda>s. (True, s)))
      (wand (CBB_add_u8 k ?b) (asn1_uint64_bytes_loop k v i True)))
      (write_to k ((if 128 \<le> n then [0] else []) @ ?b # uint64_body (unat v) i True))"
    by (rule refines_then_writes [OF CBB_add_u8_refines uint64_loop_refines])
  with Suc show ?case
    by (cases "n = 0") (simp_all only: step uint64_body.simps n_def [symmetric] Let_def simp_thms if_True if_False)
qed

lemma of_nat_byte_mod: "(of_nat (n mod 256) :: byte) = of_nat n"
  by (simp add: word_unat_eq_iff unat_of_nat_byte)

lemma be_bytes_top: "be_bytes (Suc i) n = of_nat (n div 256 ^ i) # be_bytes i n"
proof (induction i arbitrary: n)
  case (Suc i)
  have "n div 256 div 256 ^ i = n div 256 ^ Suc i" by (simp only: power_Suc div_mult2_eq)
  with Suc [of "n div 256"] show ?case
    by (simp only: be_bytes.simps(2) [of "Suc i"] append_Cons be_bytes.simps(2) [of i n])
qed simp

lemma uint64_body_started: "uint64_body n i True = be_bytes i n"
  by (induction i) (simp_all add: Let_def be_bytes_top of_nat_byte_mod del: be_bytes.simps(2))

lemma der_integer_pos:
  "a \<noteq> 0 \<Longrightarrow> unat a < 128 \<Longrightarrow> der_integer (a # bs)" "128 \<le> unat a \<Longrightarrow> der_integer (0 # a # bs)"
  by (cases bs; auto)+

lemma uint64_body:
  "n < 256 ^ i \<Longrightarrow> der_integer (uint64_body n i False) \<and> unat (hd (uint64_body n i False)) < 128
     \<and> be_nat (uint64_body n i False) = n \<and> length (uint64_body n i False) \<le> Suc i"
proof (induction i)
  case (Suc i)
  define b where "b = n div 256 ^ i"
  have b: "b < 256" using Suc.prems by (simp add: b_def less_mult_imp_div_less)
  have n: "n = b * 256 ^ i + n mod 256 ^ i" unfolding b_def by (rule div_mult_mod_eq [symmetric])
  show ?case
  proof (cases "b = 0")
    case True
    then have "n < 256 ^ i" by (simp add: b_def div_eq_0_iff)
    with Suc.IH True show ?thesis by (simp add: b_def Let_def)
  next
    case False
    have u: "unat (of_nat b :: byte) = b" using b by (simp add: unat_of_nat_byte)
    have "of_nat b \<noteq> (0 :: byte)" using u False by (metis unat_0)
    have "n div 256 ^ i mod 256 = b" using b by (simp add: b_def)
    with False
    have body: "uint64_body n (Suc i) False = (if 128 \<le> b then [0] else []) @ of_nat b # be_bytes i n"
      by (simp only: uint64_body.simps Let_def uint64_body_started simp_thms if_False)
    have "be_nat (be_bytes i n) = n mod 256 ^ i" by (rule be_nat_be_bytes)
    then show ?thesis
      unfolding body using u n \<open>of_nat b \<noteq> 0\<close>
      by (cases "128 \<le> b") (simp_all add: der_integer_pos)
  qed
qed simp

text \<open>The encoding of a number: the contents \<open>bs\<close> with \<open>der_integer bs\<close> and \<open>twos bs = i\<close>.\<close>

lemma CBB_add_asn1_uint64_refines:
  assumes "der_integer bs" "twos bs = uint v"
  shows "refines (\<lambda>A. k \<le> nesting A) (CBB_add_asn1_uint64_with_tag k v tag) (write_to k (der_element tag bs))"
proof -
  let ?b = "uint64_body (unat v) 8 False"
  have b: "der_integer ?b" "unat (hd ?b) < 128" "be_nat ?b = unat v" "length ?b \<le> 9"
    using uint64_body [of "unat v" 8] unat_bound [of v] by simp_all
  then have "twos ?b = uint v" by (simp add: twos_unsigned)
  then have "bs = ?b" using der_integer_unique [OF assms(1) b(1)] assms(2) by simp
  moreover have "length ?b \<le> 0xfffffffe" using b(4) by simp
  ultimately show ?thesis
    unfolding CBB_add_asn1_uint64_with_tag_def
    using element_refines(1) [OF uint64_bytes_loop_refines [of "Suc k" v 8]] by simp
qed

text \<open>The bytes of a negative number: the loop drops sign bytes from the top.\<close>

lemma le_bytes_nth: "i < 8 \<Longrightarrow> le_bytes v ! i = of_nat (unat v div 256 ^ i)"
proof -
  assume i: "i < 8"
  have p: "(2::nat) ^ (8 * i) = 256 ^ i" by (simp only: power_mult) simp
  from i show ?thesis by (simp only: le_bytes_def nth_map length_upt nth_upt) 
      (simp add: ucast_byte_of_nat unat_drop_bit p)
qed

lemma add_down_from_refines:
  assumes "i < 8"
  shows "refines (\<lambda>A. k \<le> nesting A) (add_down_from k (le_bytes v) i) (write_to k (be_bytes (Suc i) (unat v)))"
  using assms
proof (induction i)
  case 0
  then show ?case using CBB_add_u8_refines [of k "of_nat (unat v)"] by (simp add: le_bytes_nth)
next
  case (Suc i)
  let ?b = "le_bytes v ! Suc i"
  have "be_bytes (Suc (Suc i)) (unat v) = ?b # be_bytes (Suc i) (unat v)"
    using Suc.prems by (simp only: be_bytes_top le_bytes_nth)
  moreover have "add_down_from k (le_bytes v) (Suc i) = wand (CBB_add_u8 k ?b) (add_down_from k (le_bytes v) i)"
    by (rule ext) simp
  ultimately show ?case
    using refines_writes [OF CBB_add_u8_refines [of k ?b] Suc.IH] Suc.prems by simp
qed

lemma twos_be_bytes:
  assumes "128 \<le> unat (of_nat (n div 256 ^ i) :: byte)"
  shows "twos (be_bytes (Suc i) n) = int (n mod 256 ^ Suc i) - 256 ^ Suc i"
proof -
  have "be_nat (be_bytes (Suc i) n) = n mod 256 ^ Suc i" by (rule be_nat_be_bytes)
  moreover have "hd (be_bytes (Suc i) n) = of_nat (n div 256 ^ i)" "be_bytes (Suc i) n \<noteq> []"
    by (simp_all only: be_bytes_top list.sel list.simps not_False_eq_True)
  ultimately show ?thesis using assms by (simp only: twos_def length_be_bytes simp_thms if_True)
qed

lemma int64_start_correct:
  assumes "i < 8" "128 \<le> unat (le_bytes v ! i)"
    and "int (unat v mod 256 ^ Suc i) - 256 ^ Suc i = x"
    and "j = int64_start (le_bytes v) i"
  shows "j \<le> i \<and> der_integer (be_bytes (Suc j) (unat v)) \<and> twos (be_bytes (Suc j) (unat v)) = x"
  using assms
proof (induction i)
  case 0
  then show ?case using twos_be_bytes [of "unat v" 0] by (simp add: le_bytes_nth)
next
  case (Suc i)
  let ?n = "unat v"
  have b: "le_bytes v ! Suc i = of_nat (?n div 256 ^ Suc i)" "le_bytes v ! i = of_nat (?n div 256 ^ i)"
    using Suc.prems(1) by (simp_all only: le_bytes_nth Suc_lessD)
  show ?case
  proof (cases "le_bytes v ! Suc i = 0xff \<and> (le_bytes v ! i) AND 0x80 \<noteq> 0")
    case True
    then have "unat (le_bytes v ! i) \<ge> 128" by (simp only: byte_high_bit not_less)
    moreover have "?n div 256 ^ Suc i mod 256 = 255"
      using True b(1) unat_of_nat_byte [of "?n div 256 ^ Suc i"] by simp
    then have "?n mod 256 ^ Suc (Suc i) = 255 * 256 ^ Suc i + ?n mod 256 ^ Suc i"
      using mod_mult2_eq [of ?n "256 ^ Suc i" 256] by (simp add: mult.commute)
    then have "int (?n mod 256 ^ Suc i) - 256 ^ Suc i = x"
      using Suc.prems(3) by simp
    moreover have "j = int64_start (le_bytes v) i"
      using Suc.prems(4) unfolding int64_start.simps if_P [OF True] .
    ultimately have "j \<le> i \<and> der_integer (be_bytes (Suc j) ?n) \<and> twos (be_bytes (Suc j) ?n) = x"
      using Suc.IH Suc.prems(1) by (intro Suc.IH) (simp_all only: Suc_lessD)
    then show ?thesis by (simp only: le_SucI simp_thms)
  next
    case False
    then have j: "j = Suc i" using Suc.prems(4) by (simp only: int64_start.simps if_False)
    have "der_integer (be_bytes (Suc (Suc i)) ?n)"
      using False Suc.prems(2)
      by (simp only: be_bytes_top b [symmetric] der_integer.simps byte_high_bit) auto
    moreover have "twos (be_bytes (Suc (Suc i)) ?n) = x"
      using twos_be_bytes [of ?n "Suc i"] Suc.prems(2,3) by (simp only: b)
    ultimately show ?thesis by (simp only: j simp_thms order_refl)
  qed
qed

lemma sint_negative:
  assumes "\<not> 0 \<le> sint (v :: u64)"
  shows "sint v = int (unat v mod 256 ^ 8) - 256 ^ 8" "128 \<le> unat v div 256 ^ 7"
proof -
  have s: "uint v \<ge> 2 ^ 63" "sint v = uint v - 2 ^ 64"
    using assms sint_cases [of v] unsigned_greater_eq [of v] by auto
  then have "int (2 ^ 63) \<le> int (unat v)" by (simp only: uint_nat) simp
  then have u: "2 ^ 63 \<le> unat v" by (simp only: of_nat_le_iff)
  then show "128 \<le> unat v div 256 ^ 7" by (simp add: less_eq_div_iff_mult_less_eq)
  show "sint v = int (unat v mod 256 ^ 8) - 256 ^ 8"
  proof -
    have "unat v mod 256 ^ 8 = unat v" using unat_bound [of v] by (intro mod_less) simp
    then show ?thesis using s(2) by (simp only: uint_nat) simp
  qed
qed

lemma negative_bytes:
  fixes v :: u64
  assumes "\<not> 0 \<le> sint v"
  defines "j \<equiv> int64_start (le_bytes v) 7"
  shows "j \<le> 7" "der_integer (be_bytes (Suc j) (unat v))" "twos (be_bytes (Suc j) (unat v)) = sint v"
proof -
  note neg = sint_negative [OF assms(1)]
  have "unat v div 256 ^ 7 < 256" using unat_bound [of v] by simp
  then have "128 \<le> unat (le_bytes v ! 7)"
    using neg(2) by (simp add: le_bytes_nth unat_of_nat_byte)
  then show "j \<le> 7" "der_integer (be_bytes (Suc j) (unat v))" "twos (be_bytes (Suc j) (unat v)) = sint v"
    using int64_start_correct [of 7 v "sint v" j] neg(1) by (simp_all add: j_def)
qed

text \<open>Every value of 64 bits has an encoding, unsigned and signed.\<close>

lemma uint_der_integer: "\<exists>bs. der_integer bs \<and> twos bs = uint (v :: u64) \<and> length bs \<le> 9"
  using uint64_body [of "unat v" 8] unat_bound [of v]
  by (intro exI [of _ "uint64_body (unat v) 8 False"]) (simp add: twos_unsigned)

lemma sint_der_integer: "\<exists>bs. der_integer bs \<and> twos bs = sint (v :: u64) \<and> length bs \<le> 9"
proof (cases "0 \<le> sint v")
  case True
  then have "sint v = uint v" using sint_cases [of v] uint_less_64 [of v] by auto
  with uint_der_integer [of v] show ?thesis by simp
next
  case False
  have "length (be_bytes (Suc (int64_start (le_bytes v) 7)) (unat v)) \<le> 9"
    using negative_bytes(1) [OF False] by simp
  with negative_bytes(2,3) [OF False] show ?thesis by blast
qed

lemma CBB_add_asn1_int64_refines:
  assumes "der_integer bs" "twos bs = sint v"
  shows "refines (\<lambda>A. k \<le> nesting A) (CBB_add_asn1_int64_with_tag k v tag) (write_to k (der_element tag bs))"
proof (cases "0 \<le> sint v")
  case True
  then have "sint v = uint v" using sint_cases [of v] uint_less_64 [of v] by auto
  with assms have "twos bs = uint v" by simp
  from CBB_add_asn1_uint64_refines [OF assms(1) this] True
  show ?thesis by (simp add: CBB_add_asn1_int64_with_tag_def)
next
  case False
  define j where "j = int64_start (le_bytes v) 7"
  let ?c = "be_bytes (Suc j) (unat v)"
  note j = negative_bytes [OF False, folded j_def]
  have bs: "bs = ?c" by (rule der_integer_unique [OF assms(1) j(2)]) (simp only: assms(2) j(3))
  have "length ?c \<le> 0xfffffffe" using j(1) by simp
  moreover have "refines (\<lambda>A. Suc k \<le> nesting A) (add_down_from (Suc k) (le_bytes v) j) (write_to (Suc k) ?c)"
    using j(1) by (intro add_down_from_refines) simp
  ultimately show ?thesis
    using element_refines(1) [of k "add_down_from (Suc k) (le_bytes v) j" ?c tag] False
    by (simp add: CBB_add_asn1_int64_with_tag_def j_def bs Let_def del: be_bytes.simps)
qed

section \<open>Octet strings and Booleans\<close>

lemma CBB_add_asn1_octet_string_refines:
  "length d \<le> 0xfffffffe \<Longrightarrow>
   refines (\<lambda>A. k \<le> nesting A) (CBB_add_asn1_octet_string k d)
     (write_to k (der_element CBS_ASN1_OCTETSTRING d))"
  unfolding CBB_add_asn1_octet_string_def
  using element_refines(2) [OF CBB_add_bytes_refines] by simp

lemma CBB_add_asn1_bool_refines:
  "refines (\<lambda>A. k \<le> nesting A) (CBB_add_asn1_bool k value)
     (write_to k (der_element CBS_ASN1_BOOLEAN [if value \<noteq> 0 then 0xff else 0]))"
  unfolding CBB_add_asn1_bool_def
  using element_refines(2) [OF CBB_add_u8_refines] by simp

lemma CBS_get_asn1_bool_iff:
  "CBS_get_asn1_bool cbs = (Some b, t) \<longleftrightarrow>
   cbs = der_element CBS_ASN1_BOOLEAN [if b then 0xff else 0] @ t"
proof -
  have body: "(if length bytes \<noteq> 1 then rfail
       else let value = hd bytes
            in if value \<noteq> 0 \<and> value \<noteq> 0xff then rfail else rret (value \<noteq> 0)) s = (Some b, t) \<longleftrightarrow>
      s = t \<and> bytes = [if b then 0xff else 0]" for bytes :: CBS and s
    by (cases bytes; cases b) (auto simp: Let_def)
  show ?thesis
    unfolding CBS_get_asn1_bool_def rbind_eq_Some CBS_get_asn1_iff body by auto
qed

section \<open>Length-prefixed fields\<close>

text \<open>A field of the given prefix width whose contents are written, then flushed.\<close>

lemma length_prefixed_refines:
  assumes body: "refines (\<lambda>A. Suc k \<le> nesting A) body (write_to (Suc k) c)" and p: "p < 2 ^ 64"
  shows "refines (\<lambda>A. k \<le> nesting A)
      (wand (cbb_add_length_prefixed k p) (wand body (CBB_flush k)))
      (\<lambda>A. if length c < 256 ^ p then write_to k (be_bytes p (length c) @ c) A else None)"
proof -
  have opn: "refines (\<lambda>A. k \<le> nesting A) (cbb_add_length_prefixed k p)
      (\<lambda>A. Option.bind (flush_to k A) (\<lambda>B. Some (open_field p False B)))"
    unfolding cbb_add_length_prefixed_def
    by (rule refines_wand [OF flush_refines cbb_add_child_refines]) (use p in simp_all)
  have bc: "refines (\<lambda>A. Suc k \<le> nesting A) (wand body (CBB_flush k))
      (\<lambda>A. Option.bind (write_to (Suc k) c A) (flush_to k))"
    by (rule refines_wand [OF body flush_refines]) (auto dest: write_to_depth)
  show ?thesis
  proof (rule refines_weaken [OF refines_wand [OF opn bc]])
    fix A B assume "k \<le> nesting A" "Option.bind (flush_to k A) (\<lambda>B. Some (open_field p False B)) = Some B"
    then show "Suc k \<le> nesting B" by (auto simp: bind_eq_Some_conv open_field_def dest!: flush_to_depth)
  next
    fix A assume k: "k \<le> nesting A"
    show "Option.bind (Option.bind (flush_to k A) (\<lambda>B. Some (open_field p False B)))
        (\<lambda>A. Option.bind (write_to (Suc k) c A) (flush_to k)) =
        (if length c < 256 ^ p then write_to k (be_bytes p (length c) @ c) A else None)"
    proof (cases "flush_to k A")
      case (Some B)
      then have d: "nesting B = k" using k by (rule flush_to_depth)
      have "write_to (Suc k) c (open_field p False B) = Some ((p, False, c) # fst B, snd B)"
        using d by (simp add: open_field_def write_to_def)
      moreover have "flush_to k ((p, False, c) # fst B, snd B) =
          (if length c < 256 ^ p then Some (append_open (be_bytes p (length c) @ c) B) else None)"
        using d by (simp add: flush_to_def length_prefix_def)
      ultimately show ?thesis
        by (simp only: Some bind.bind_lunit write_to_def [of k _ A] option.map)
    qed (simp add: write_to_def)
  qed simp
qed

lemma cbs_get_length_prefixed_iff:
  assumes "p \<le> 4"
  shows "cbs_get_length_prefixed p cbs = (Some c, t) \<longleftrightarrow>
    length c < 256 ^ p \<and> cbs = be_bytes p (length c) @ c @ t"
proof -
  have "(256::nat) ^ p \<le> 256 ^ 4" using assms by (intro power_increasing) auto
  show ?thesis
  proof
    assume "cbs_get_length_prefixed p cbs = (Some c, t)"
    then show "length c < 256 ^ p \<and> cbs = be_bytes p (length c) @ c @ t"
      using assms by (auto simp: cbs_get_length_prefixed_def rbind_eq_Some cbs_get_u_eq_Some
          CBS_get_bytes_eq_Some)
  next
    assume a: "length c < 256 ^ p \<and> cbs = be_bytes p (length c) @ c @ t"
    then have "length c < 2 ^ 64" using \<open>256 ^ p \<le> 256 ^ 4\<close> by simp
    then have u: "unat (of_nat (length c) :: u64) = length c" by (simp add: unat_of_nat)
    then have "cbs_get_u p cbs = (Some (of_nat (length c)), c @ t)"
      using a assms by (simp add: cbs_get_u_eq_Some)
    then show "cbs_get_length_prefixed p cbs = (Some c, t)"
      using u by (simp add: cbs_get_length_prefixed_def rbind_def CBS_get_bytes_eq_Some)
  qed
qed

section \<open>SET OF\<close>

text \<open>The comparison of \<open>compare_set_of_element\<close> is a total order on byte strings.\<close>

fun bytes_le :: "byte list \<Rightarrow> byte list \<Rightarrow> bool" where
  "bytes_le [] ys = True"
| "bytes_le (x # xs) [] = False"
| "bytes_le (x # xs) (y # ys) = (x < y \<or> x = y \<and> bytes_le xs ys)"

lemma compare_set_of_element_Cons:
  "compare_set_of_element (x # xs) (y # ys) =
   (if x = y then compare_set_of_element xs ys else if x < y then -1 else 1)"
  by (auto simp: compare_set_of_element_def Let_def)

lemma compare_set_of_element_le: "compare_set_of_element a b \<le> 0 \<longleftrightarrow> bytes_le a b"
proof (induction a b rule: bytes_le.induct)
  case (3 x xs y ys)
  then show ?case by (auto simp: compare_set_of_element_Cons)
qed (auto simp: compare_set_of_element_def Let_def)

lemma bytes_le_total: "bytes_le a b \<or> bytes_le b a"
  by (induction a b rule: bytes_le.induct) auto

lemma bytes_le_trans: "bytes_le a b \<Longrightarrow> bytes_le b c \<Longrightarrow> bytes_le a c"
proof (induction a b arbitrary: c rule: bytes_le.induct)
  case (3 x xs y ys)
  then show ?case by (cases c) auto
qed auto

text \<open>The interface of \<open>qsort\<close>: a comparison function that induces a total order.\<close>

locale comparison =
  fixes cmp :: "'a \<Rightarrow> 'a \<Rightarrow> int"
  assumes total: "cmp a b \<le> 0 \<or> cmp b a \<le> 0"
    and trans: "cmp a b \<le> 0 \<Longrightarrow> cmp b c \<le> 0 \<Longrightarrow> cmp a c \<le> 0"
begin

abbreviation le :: "'a \<Rightarrow> 'a \<Rightarrow> bool" where
  "le a b \<equiv> cmp a b \<le> 0"

lemma set_insert_by: "set (insert_by cmp x ys) = insert x (set ys)"
  by (induction ys) auto

lemma sorted_insert_by: "sorted_wrt le ys \<Longrightarrow> sorted_wrt le (insert_by cmp x ys)"
proof (induction ys)
  case (Cons y ys)
  show ?case
  proof (cases "cmp x y \<le> 0")
    case True
    with Cons.prems show ?thesis by (auto intro: trans)
  next
    case False
    then have "le y x" using total by blast
    with False Cons show ?thesis by (simp add: set_insert_by)
  qed
qed simp

lemma sorted_qsort: "sorted_wrt le (qsort cmp xs)"
  by (induction xs) (simp_all add: qsort_def sorted_insert_by)

end

lemma mset_insert_by: "mset (insert_by cmp x ys) = add_mset x (mset ys)"
  by (induction ys) auto

lemma mset_qsort: "mset (qsort cmp xs) = mset xs"
  by (induction xs) (simp_all add: qsort_def mset_insert_by)

interpretation set_of: comparison compare_set_of_element
  by unfold_locales
    (use bytes_le_total bytes_le_trans in \<open>auto simp: compare_set_of_element_le\<close>)

lemma get_elements_eq_Some:
  "get_elements cbs = Some els \<longleftrightarrow>
   concat els = cbs \<and> (\<forall>e \<in> set els. \<exists>tag c. valid_tag tag \<and> length c < 2 ^ 32 \<and> e = der_element tag c)"
proof (induction els arbitrary: cbs)
  case Nil
  show ?case
    by (subst get_elements.simps) (auto split: prod.splits option.splits)
next
  case (Cons e els)
  show ?case
  proof
    assume "get_elements cbs = Some (e # els)"
    then obtain el rest where el: "CBS_get_any_asn1_element cbs = (Some el, rest)"
      "e = el_bytes el" "get_elements rest = Some els"
      by (subst (asm) get_elements.simps) (auto split: prod.splits option.splits if_splits)
    moreover from el(1) obtain tag c where "valid_tag tag" "length c < 2 ^ 32"
      "el = asn1_el tag c" "cbs = der_element tag c @ rest"
      unfolding CBS_get_any_asn1_element_iff by blast
    ultimately show "concat (e # els) = cbs \<and>
      (\<forall>e \<in> set (e # els). \<exists>tag c. valid_tag tag \<and> length c < 2 ^ 32 \<and> e = der_element tag c)"
      using Cons.IH [of rest] by fastforce
  next
    assume a: "concat (e # els) = cbs \<and>
      (\<forall>e \<in> set (e # els). \<exists>tag c. valid_tag tag \<and> length c < 2 ^ 32 \<and> e = der_element tag c)"
    then obtain tag c where e: "valid_tag tag" "length c < 2 ^ 32" "e = der_element tag c" by auto
    have "get_elements (concat els) = Some els" using a Cons.IH by simp
    moreover have "CBS_get_any_asn1_element cbs = (Some (asn1_el tag c), concat els)"
      using CBS_get_any_asn1_element_complete [OF e(1,2), of "concat els"] a e(3) by auto
    moreover have "cbs \<noteq> []" using calculation(2) CBS_get_any_asn1_element_shorter by fastforce
    ultimately show "get_elements cbs = Some (e # els)"
      using e(3) by (subst get_elements.simps) simp
  qed
qed

lemma CBB_data_eq: "repr s (f # fs, r) \<Longrightarrow> CBB_data (Suc (length fs)) s = snd (snd f)"
  by (cases f) (auto simp: repr_def CBB_data_def nth_append)

lemma CBB_len_eq: "repr s (f # fs, r) \<Longrightarrow> CBB_len (Suc (length fs)) s = length (snd (snd f))"
  by (cases f) (auto simp: repr_def CBB_len_def nth_append)

lemma CBB_flush_innermost:
  assumes "repr s A" shows "CBB_flush (nesting A) s = (True, s)"
  using assms by (auto simp: CBB_flush_def repr_def)

lemma length_concat_mset: "mset xs = mset ys \<Longrightarrow> length (concat xs) = length (concat ys)"
proof -
  have "length (concat zs) = sum_mset (image_mset length (mset zs))" for zs :: "'a list list"
    by (induction zs) simp_all
  then show "mset xs = mset ys \<Longrightarrow> length (concat xs) = length (concat ys)" by simp
qed

lemma qsort_short: "length xs < 2 \<Longrightarrow> qsort cmp xs = xs"
  by (cases xs; cases "tl xs") (auto simp: qsort_def)

lemma CBB_flush_asn1_set_of_correct:
  assumes r: "repr s ((p, a, c) # fs, r)" and g: "growable s" and els: "get_elements c = Some els"
  shows "\<exists>s'. CBB_flush_asn1_set_of (Suc (length fs)) s = (True, s') \<and>
    repr s' ((p, a, concat (qsort compare_set_of_element els)) # fs, r)"
proof (cases "length els < 2")
  case True
  then show ?thesis
    using CBB_flush_innermost [OF r] CBB_data_eq [OF r] els r get_elements_eq_Some [of c els]
    by (auto simp: CBB_flush_asn1_set_of_def qsort_short)
next
  case False
  let ?els = "qsort compare_set_of_element els"
  have "concat els = c" using els by (simp add: get_elements_eq_Some)
  moreover have "length (concat ?els) = length (concat els)"
    by (rule length_concat_mset) (rule mset_qsort)
  ultimately have len: "length (concat ?els) = length c" by simp
  let ?s = "s\<lparr>buf := take (length (buf s) - length c) (buf s) @ concat ?els\<rparr>"
  have "buf s = render (fs, r) @ replicate p 0 @ c" using r by (simp add: repr_def)
  then have "repr ?s ((p, a, concat ?els) # fs, r)"
    using r len by (auto simp: repr_def)
  moreover have "CBB_flush_asn1_set_of (Suc (length fs)) s = (True, ?s)"
    using CBB_flush_innermost [OF r] CBB_data_eq [OF r] CBB_len_eq [OF r] els g False
    by (simp add: CBB_flush_asn1_set_of_def growable_def)
  ultimately show ?thesis by blast
qed

lemma CBB_flush_asn1_set_of_reject:
  assumes r: "repr s ((p, a, c) # fs, r)" and els: "get_elements c = None"
  shows "CBB_flush_asn1_set_of (Suc (length fs)) s = (False, s)"
  using CBB_flush_innermost [OF r] CBB_data_eq [OF r] els
  by (simp add: CBB_flush_asn1_set_of_def)

section \<open>Finishing\<close>

lemma CBB_finish_refines:
  assumes r: "repr s A"
  shows "case CBB_finish 0 True s of
      (Some out, s') \<Rightarrow> \<exists>r. flush_to 0 A = Some ([], r) \<and> out = r
    | (None, s') \<Rightarrow> \<not> (growable s \<and> (\<exists>B. flush_to 0 A = Some B \<and> length (render B) < 2 ^ 64))"
proof -
  have i: "implements (flush_to 0 A) s (CBB_flush 0 s)"
    by (rule refinesD(1) [OF flush_refines r]) simp
  obtain ok s' where f: "CBB_flush 0 s = (ok, s')" by (cases "CBB_flush 0 s")
  show ?thesis
  proof (cases ok)
    case False
    with i f show ?thesis by (auto simp: CBB_finish_def implements_def)
  next
    case True
    with i f obtain B where B: "flush_to 0 A = Some B" "repr s' B" by (auto simp: implements_True)
    then have "nesting B = 0" by (auto dest: flush_to_depth)
    then have "B = ([], snd B)" by (cases B) simp
    then show ?thesis
      using True f B by (cases B) (auto simp: CBB_finish_def repr_def)
  qed
qed

end
