(* ===== verification/Ber.thy ===== *)
theory Ber
  imports Asn1_Values
begin

text \<open>
  The conversion of BER to DER, \<open>crypto/bytestring/ber.c\<close>, and \<open>CBB_finish_i2d\<close> of
  \<open>crypto/bytestring/asn1_compat.c\<close>. The search for BER elements recurses on shorter inputs. The
  conversion threads one input through its recursive calls, so it takes fuel; None is running out
  of it, which \<open>convert_total\<close> rules out for fuel above the length of the input.
\<close>

abbreviation kMaxDepth :: nat where "kMaxDepth \<equiv> 128"

definition is_constructed :: "CBS_ASN1_TAG \<Rightarrow> bool" where
  "is_constructed tag \<longleftrightarrow> tag AND CBS_ASN1_CONSTRUCTED \<noteq> 0"

definition primitive_tag :: "CBS_ASN1_TAG \<Rightarrow> CBS_ASN1_TAG" where
  "primitive_tag tag = tag AND NOT CBS_ASN1_CONSTRUCTED"

definition is_string_type :: "CBS_ASN1_TAG \<Rightarrow> bool" where
  "is_string_type tag \<longleftrightarrow>
     primitive_tag tag \<in> {0x4, 0xc, 0x12, 0x13, 0x14, 0x15, 0x16, 0x19, 0x1a, 0x1b, 0x1c, 0x1e}"

lemma any_element_eq:
  fixes b :: byte
  assumes "parse_asn1_tag cbs = (Some tag, b # s)"
  defines "hl \<equiv> length cbs - length s" and "nb \<equiv> unat (b AND 0x7f)"
  shows "cbs_get_any_asn1_element ber_ok cbs =
     (if b AND 0x80 = 0 then el_finish cbs tag (unat b + hl) hl False False
      else if ber_ok \<and> tag AND CBS_ASN1_CONSTRUCTED \<noteq> 0 \<and> nb = 0 then el_finish cbs tag hl hl True True
      else if nb = 0 \<or> nb > 4 then (None, cbs)
      else (case cbs_get_u nb s of (None, _) \<Rightarrow> (None, cbs) | (Some len64, _) \<Rightarrow>
              let ber1 = (len64 < 128); ber2 = (drop_bit ((nb - 1) * 8) len64 = 0)
              in if (ber1 \<or> ber2) \<and> \<not> ber_ok then (None, cbs)
              else let len = len64 + of_nat hl + of_nat nb
              in if len < len64 then (None, cbs)
              else el_finish cbs tag (unat len) (hl + nb) (ber1 \<or> ber2) False))"
  by (simp only: cbs_get_any_asn1_element_def assms(1) CBS_get_u8_simps prod.case option.case
      Let_def el_finish_def hl_def nb_def)

lemma ber_element_cases:
  assumes "cbs_get_any_asn1_element ber_ok cbs = (Some el, rest)"
  obtains tag len hl ber indef where "valid_tag tag" "0 < hl" "hl \<le> len"
    "el_finish cbs tag len hl ber indef = (Some el, rest)"
proof -
  obtain tag header where tag: "parse_asn1_tag cbs = (Some tag, header)"
    using assms by (auto simp: cbs_get_any_asn1_element_def split: option.splits prod.splits)
  then have v: "valid_tag tag" and cbs: "cbs = asn1_identifier tag @ header"
    by (simp_all add: parse_asn1_tag_iff)
  obtain b s where header: "header = b # s"
    using assms tag by (cases header) (auto simp: cbs_get_any_asn1_element_def)
  define hl where "hl = length cbs - length s"
  have hl: "0 < hl" "hl \<le> 7"
    using length_asn1_identifier [of tag] by (simp_all add: hl_def cbs header)
  define nb where "nb = unat (b AND 0x7f)"
  note E = any_element_eq [OF tag [unfolded header], of ber_ok, folded hl_def nb_def]
  consider "b AND 0x80 = 0" | "b AND 0x80 \<noteq> 0" "nb = 0" | "b AND 0x80 \<noteq> 0" "nb \<noteq> 0" by blast
  then show ?thesis
  proof cases
    case 1
    then have "el_finish cbs tag (unat b + hl) hl False False = (Some el, rest)"
      using assms E by simp
    then show ?thesis using that v hl(1) by (metis le_add2)
  next
    case 2
    then have "el_finish cbs tag hl hl True True = (Some el, rest)"
      using assms E by (simp split: if_splits)
    then show ?thesis using that v hl(1) by blast
  next
    case 3
    then have nb: "nb \<le> 4" using assms E by (auto split: if_splits)
    then obtain len64 s' where len: "cbs_get_u nb s = (Some len64, s')"
      using 3 assms E by (auto split: option.splits prod.splits)
    let ?len = "len64 + of_nat hl + of_nat nb"
    have "unat len64 < 256 ^ nb" using len nb by (simp add: cbs_get_u_eq_Some)
    also have "(256::nat) ^ nb \<le> 256 ^ 4" using nb by (intro power_increasing) simp_all
    finally have "unat ?len = unat len64 + hl + nb" using hl(2) nb by (intro no_length_overflow) simp_all
    then have "hl + nb \<le> unat ?len" by linarith
    moreover have "\<exists>ber. el_finish cbs tag (unat ?len) (hl + nb) ber False = (Some el, rest)"
      using assms E 3 nb len by (auto simp: Let_def split: if_splits)
    ultimately show ?thesis using that v hl(1) by (metis add_gr_0)
  qed
qed

lemma ber_element_parts:
  assumes "CBS_get_any_ber_asn1_element cbs = (Some el, rest)"
  shows "cbs = el_bytes el @ rest" "0 < el_header_len el" "el_header_len el \<le> length (el_bytes el)"
    "valid_tag (el_tag el)"
proof -
  have "cbs_get_any_asn1_element True cbs = (Some el, rest)"
    using assms by (simp only: CBS_get_any_ber_asn1_element_def)
  then obtain tag len hl ber indef where p: "valid_tag tag" "0 < hl" "hl \<le> len"
    "el_finish cbs tag len hl ber indef = (Some el, rest)"
    by (rule ber_element_cases)
  then have "cbs = el_bytes el @ rest \<and> el_header_len el = hl \<and> length (el_bytes el) = len \<and> el_tag el = tag"
    by (auto simp: el_finish_def rbind_eq_Some CBS_get_bytes_eq_Some)
  with p show "cbs = el_bytes el @ rest" "0 < el_header_len el" "el_header_len el \<le> length (el_bytes el)"
    "valid_tag (el_tag el)" by simp_all
qed

lemma el_finish_None: "el_finish cbs tag len hl ber indef = (None, rest) \<Longrightarrow> rest = cbs"
  by (auto simp: el_finish_def rbind_def CBS_get_bytes_def cbs_get_def split: if_splits)

lemma ber_element_None: "CBS_get_any_ber_asn1_element cbs = (None, rest) \<Longrightarrow> rest = cbs"
  unfolding CBS_get_any_ber_asn1_element_def cbs_get_any_asn1_element_def el_finish_def [symmetric]
    Let_def
  by (auto dest: el_finish_None split: prod.splits option.splits if_splits)

lemma ber_element_shorter:
  assumes "CBS_get_any_ber_asn1_element cbs = (Some el, rest)"
  shows "length rest < length cbs"
    "CBS_skip (el_header_len el) (el_bytes el) = (Some u, contents) \<Longrightarrow> length contents < length cbs"
  using ber_element_parts [OF assms] by (auto simp: CBS_skip_def rbind_eq_Some cbs_get_eq_Some)

text \<open>None is the return value zero, and Some the value of \<open>*ber_found\<close>.\<close>

function cbs_find_ber :: "CBS \<Rightarrow> nat \<Rightarrow> bool option" where
  "cbs_find_ber inp depth =
     (if depth > kMaxDepth then None
      else if length inp = 0 then Some False
      else case CBS_get_any_ber_asn1_element inp of
        (None, _) \<Rightarrow> None
      | (Some el, rest) \<Rightarrow>
          if el_ber_found el then Some True
          else if is_constructed (el_tag el)
          then if is_string_type (el_tag el) then Some True
               else (case CBS_skip (el_header_len el) (el_bytes el) of
                       (None, _) \<Rightarrow> None
                     | (Some _, contents) \<Rightarrow>
                         (case cbs_find_ber contents (depth + 1) of
                            None \<Rightarrow> None
                          | Some True \<Rightarrow> Some True
                          | Some False \<Rightarrow> cbs_find_ber rest depth))
          else cbs_find_ber rest depth)"
  by pat_completeness auto
termination
  by (relation "measure (\<lambda>(inp, depth). length inp)") (auto dest: ber_element_shorter(1) [OF sym] ber_element_shorter(2) [OF sym sym])

declare cbs_find_ber.simps [simp del]

definition cbs_get_eoc :: "unit reader" where
  "cbs_get_eoc cbs =
     (if length cbs \<ge> 2 \<and> cbs ! 0 = 0 \<and> cbs ! 1 = 0 then CBS_skip 2 cbs else (None, cbs))"

text \<open>
  \<open>k\<close> is the handle of \<open>out\<close>. The result holds the return value, what is left of the input, and
  the builder.
\<close>

fun cbs_convert_ber ::
  "nat \<Rightarrow> CBS \<Rightarrow> nat \<Rightarrow> CBS_ASN1_TAG \<Rightarrow> bool \<Rightarrow> nat \<Rightarrow> CBB \<Rightarrow> (bool \<times> CBS \<times> CBB) option"
where
  "cbs_convert_ber 0 inp k string_tag looking_for_eoc depth s = None"
| "cbs_convert_ber (Suc fuel) inp k string_tag looking_for_eoc depth s =
     (if depth > kMaxDepth then Some (False, inp, s)
      else if length inp = 0 then Some (\<not> looking_for_eoc, inp, s)
      else if looking_for_eoc \<and> fst (cbs_get_eoc inp) \<noteq> None then Some (True, snd (cbs_get_eoc inp), s)
      else case CBS_get_any_ber_asn1_element inp of
        (None, inp) \<Rightarrow> Some (False, inp, s)
      | (Some el, inp) \<Rightarrow>
          let tag = el_tag el;
              is_string = is_constructed tag \<and> is_string_type tag;
              out_tag = (if is_string then primitive_tag tag else tag);
              child_string_tag = (if string_tag = 0 \<and> is_string then out_tag else string_tag);
              k' = (if string_tag \<noteq> 0 then k else k + 1);
              (ok, s) = (if string_tag \<noteq> 0 then (primitive_tag tag = string_tag, s)
                         else CBB_add_asn1 k out_tag s);
              continue_with = (\<lambda>inp s.
                case CBB_flush k s of
                  (False, s) \<Rightarrow> Some (False, inp, s)
                | (True, s) \<Rightarrow> cbs_convert_ber fuel inp k string_tag looking_for_eoc depth s)
          in if \<not> ok then Some (False, inp, s)
             else if el_indefinite el
             then (case cbs_convert_ber fuel inp k' child_string_tag True (depth + 1) s of
                     Some (True, inp, s) \<Rightarrow> continue_with inp s
                   | r \<Rightarrow> r)
             else (case CBS_skip (el_header_len el) (el_bytes el) of
                     (None, _) \<Rightarrow> Some (False, inp, s)
                   | (Some _, contents) \<Rightarrow>
                       if is_constructed tag
                       then (case cbs_convert_ber fuel contents k' child_string_tag False (depth + 1) s of
                               Some (True, _, s) \<Rightarrow> continue_with inp s
                             | Some (False, _, s) \<Rightarrow> Some (False, inp, s)
                             | None \<Rightarrow> None)
                       else (case CBB_add_bytes k' contents s of
                               (False, s) \<Rightarrow> Some (False, inp, s)
                             | (True, s) \<Rightarrow> continue_with inp s)))"

text \<open>
  The outputs are \<open>*out\<close> and \<open>*out_storage\<close> (None for NULL), and the input that is left.
\<close>

definition CBS_asn1_ber_to_der :: "(nat \<Rightarrow> bool) \<Rightarrow> (CBS \<times> byte list option) reader" where
  "CBS_asn1_ber_to_der alloc inp =
     (case cbs_find_ber inp 0 of
        None \<Rightarrow> (None, inp)
      | Some False \<Rightarrow> rbind CBS_get_any_asn1_element (\<lambda>el. rret (el_bytes el, None)) inp
      | Some True \<Rightarrow>
          (case CBB_init alloc (length inp) of
             None \<Rightarrow> (None, inp)
           | Some cbb \<Rightarrow>
               (case cbs_convert_ber (length inp + 1) inp 0 0 False 0 cbb of
                  Some (True, inp, cbb) \<Rightarrow>
                    (case CBB_finish 0 True cbb of
                       (None, _) \<Rightarrow> (None, inp)
                     | (Some der, _) \<Rightarrow> (Some (der, Some der), inp))
                | Some (False, inp, _) \<Rightarrow> (None, inp)
                | None \<Rightarrow> (None, inp))))"

function implicit_chunks :: "CBS_ASN1_TAG \<Rightarrow> CBS \<Rightarrow> CBB \<Rightarrow> bool \<times> CBB" where
  "implicit_chunks inner_tag child s =
     (if length child = 0 then (True, s)
      else case CBS_get_asn1 inner_tag child of
        (None, _) \<Rightarrow> (False, s)
      | (Some chunk, rest) \<Rightarrow>
          (case CBB_add_bytes 0 chunk s of
             (False, s) \<Rightarrow> (False, s)
           | (True, s) \<Rightarrow> implicit_chunks inner_tag rest s))"
  by pat_completeness auto
termination
  by (relation "measure (\<lambda>(tag, child, s). length child)")
    (auto dest!: sym [of "(_, _)" "CBS_get_asn1 _ _"] simp: CBS_get_asn1_iff der_element_def
      der_header_def asn1_identifier_def)

declare implicit_chunks.simps [simp del]

definition CBS_get_asn1_implicit_string ::
  "(nat \<Rightarrow> bool) \<Rightarrow> CBS_ASN1_TAG \<Rightarrow> CBS_ASN1_TAG \<Rightarrow> (CBS \<times> byte list option) reader" where
  "CBS_get_asn1_implicit_string alloc outer_tag inner_tag inp =
     (if CBS_peek_asn1_tag inp outer_tag
      then rbind (CBS_get_asn1 outer_tag) (\<lambda>out. rret (out, None)) inp
      else case CBB_init alloc (length inp) of
        None \<Rightarrow> (None, inp)
      | Some result \<Rightarrow>
          (case CBS_get_asn1 (outer_tag OR CBS_ASN1_CONSTRUCTED) inp of
             (None, inp) \<Rightarrow> (None, inp)
           | (Some child, inp) \<Rightarrow>
               (case implicit_chunks inner_tag child result of
                  (False, _) \<Rightarrow> (None, inp)
                | (True, result) \<Rightarrow>
                    (case CBB_finish 0 True result of
                       (None, _) \<Rightarrow> (None, inp)
                     | (Some data, _) \<Rightarrow> (Some (data, Some data), inp)))))"

text \<open>
  \<open>outp\<close> is None for a NULL argument, Some None for a pointer to NULL, and Some of the buffer a
  caller gave otherwise. The second component is what was stored through it.
\<close>

definition CBB_finish_i2d :: "CBB \<Rightarrow> byte list option option \<Rightarrow> int \<times> byte list option" where
  "CBB_finish_i2d cbb outp =
     (case CBB_finish 0 True cbb of
        (None, _) \<Rightarrow> (-1, None)
      | (Some der, _) \<Rightarrow>
          if length der > 0x7fffffff then (-1, None)
          else (int (length der),
                case outp of None \<Rightarrow> None
                | Some None \<Rightarrow> Some der
                | Some (Some buffer) \<Rightarrow> Some (der @ drop (length der) buffer)))"

section \<open>The conversion returns\<close>

lemma CBS_get_eoc_shorter: "fst (cbs_get_eoc inp) \<noteq> None \<Longrightarrow> length (snd (cbs_get_eoc inp)) < length inp"
  by (auto simp: cbs_get_eoc_def CBS_skip_def rbind_def cbs_get_def split: if_splits)

definition returns :: "CBS \<Rightarrow> (bool \<times> CBS \<times> CBB) option \<Rightarrow> bool" where
  "returns inp r \<longleftrightarrow> (\<exists>ok inp' s'. r = Some (ok, inp', s') \<and> length inp' \<le> length inp)"

lemma returns_Some [simp]: "returns inp (Some (ok, inp', s')) \<longleftrightarrow> length inp' \<le> length inp"
  by (simp add: returns_def)

lemma returns_if: "(c \<Longrightarrow> returns inp a) \<Longrightarrow> (\<not> c \<Longrightarrow> returns inp b) \<Longrightarrow> returns inp (if c then a else b)"
  by simp

lemma returns_pair: "(\<And>x y. p = (x, y) \<Longrightarrow> returns inp (f x y)) \<Longrightarrow> returns inp (case p of (x, y) \<Rightarrow> f x y)"
  by (cases p) simp

lemma returns_option:
  "returns inp a \<Longrightarrow> (\<And>x. opt = Some x \<Longrightarrow> returns inp (f x)) \<Longrightarrow>
   returns inp (case opt of None \<Rightarrow> a | Some x \<Rightarrow> f x)"
  by (cases opt) simp_all

lemma convert_step:
  assumes "\<not> (depth > kMaxDepth \<or> length inp = 0 \<or> eoc \<and> fst (cbs_get_eoc inp) \<noteq> None)"
    and "CBS_get_any_ber_asn1_element inp = (Some el, rest)"
  shows "cbs_convert_ber (Suc fuel) inp k string_tag eoc depth s =
    (let tag = el_tag el;
         is_string = is_constructed tag \<and> is_string_type tag;
         out_tag = (if is_string then primitive_tag tag else tag);
         child_string_tag = (if string_tag = 0 \<and> is_string then out_tag else string_tag);
         k' = (if string_tag \<noteq> 0 then k else k + 1);
         (ok, s1) = (if string_tag \<noteq> 0 then (primitive_tag tag = string_tag, s)
                     else CBB_add_asn1 k out_tag s);
         go = (\<lambda>inp s. case CBB_flush k s of
                 (False, s) \<Rightarrow> Some (False, inp, s)
               | (True, s) \<Rightarrow> cbs_convert_ber fuel inp k string_tag eoc depth s)
     in if \<not> ok then Some (False, rest, s1)
        else if el_indefinite el
        then (case cbs_convert_ber fuel rest k' child_string_tag True (depth + 1) s1 of
                Some (True, inp, s) \<Rightarrow> go inp s | r \<Rightarrow> r)
        else (case CBS_skip (el_header_len el) (el_bytes el) of
                (None, _) \<Rightarrow> Some (False, rest, s1)
              | (Some _, contents) \<Rightarrow>
                  if is_constructed tag
                  then (case cbs_convert_ber fuel contents k' child_string_tag False (depth + 1) s1 of
                          Some (True, _, s) \<Rightarrow> go rest s
                        | Some (False, _, s) \<Rightarrow> Some (False, rest, s)
                        | None \<Rightarrow> None)
                  else (case CBB_add_bytes k' contents s1 of
                          (False, s) \<Rightarrow> Some (False, rest, s)
                        | (True, s) \<Rightarrow> go rest s)))"
  using assms by (simp only: cbs_convert_ber.simps de_Morgan_disj not_False_eq_True simp_thms if_False
      prod.case option.case Let_def)

lemma convert_total:
  "length inp < fuel \<Longrightarrow> returns inp (cbs_convert_ber fuel inp k string_tag eoc depth s)"
proof (induction fuel arbitrary: inp k string_tag eoc depth s)
  case (Suc fuel)
  note IH = Suc.IH
  obtain r rest where r: "CBS_get_any_ber_asn1_element inp = (r, rest)"
    by (cases "CBS_get_any_ber_asn1_element inp")
  show ?case
  proof (cases r)
    case None
    with r have "rest = inp" using ber_element_None by simp
    with None r show ?thesis using CBS_get_eoc_shorter [of inp] by auto
  next
    case (Some el)
    with r have el: "CBS_get_any_ber_asn1_element inp = (Some el, rest)" by simp
    have rest: "length rest < length inp" by (rule ber_element_shorter(1) [OF el])
    then have fuel: "length rest < fuel" using Suc.prems by simp
    define go where "go = (\<lambda>inp s. case CBB_flush k s of
        (False, s) \<Rightarrow> Some (False, inp, s)
      | (True, s) \<Rightarrow> cbs_convert_ber fuel inp k string_tag eoc depth s)"
    have go: "returns inp (go inp' s')" if "length inp' \<le> length rest" for inp' s'
    proof -
      have "returns inp' (cbs_convert_ber fuel inp' k string_tag eoc depth s'')" for s''
        using IH that fuel by simp
      then show ?thesis
        using that rest by (fastforce simp: go_def returns_def split: prod.splits bool.splits)
    qed
    have indef: "returns inp (case cbs_convert_ber fuel rest k' t True d s' of
        Some (True, inp, s) \<Rightarrow> go inp s | r \<Rightarrow> r)" for k' t d s'
      using IH [OF fuel, of k' t True d s'] go rest
      by (force simp: returns_def split: bool.splits)
    have nested: "returns inp (case cbs_convert_ber fuel contents k' t False d s' of
        Some (True, _, s) \<Rightarrow> go rest s | Some (False, _, s) \<Rightarrow> Some (False, rest, s) | None \<Rightarrow> None)"
      if "length contents < length inp" for contents k' t d s'
    proof -
      have "returns contents (cbs_convert_ber fuel contents k' t False d s')"
        using that Suc.prems by (intro IH) simp
      then show ?thesis using go rest by (force simp: returns_def split: bool.splits)
    qed
    have prim: "returns inp (case CBB_add_bytes k' contents s' of
        (False, s) \<Rightarrow> Some (False, rest, s) | (True, s) \<Rightarrow> go rest s)" for k' contents s'
      using go rest by (auto split: prod.splits bool.splits)
    show ?thesis
    proof (cases "depth > kMaxDepth \<or> length inp = 0 \<or> eoc \<and> fst (cbs_get_eoc inp) \<noteq> None")
      case True
      then show ?thesis using CBS_get_eoc_shorter [of inp] by auto
    next
      case False
      note step = convert_step [OF False el, of fuel k string_tag s, folded go_def]
      show ?thesis
        unfolding step Let_def using rest
        by (intro returns_if returns_pair returns_option indef prim
            nested [OF ber_element_shorter(2) [OF el]]) auto
    qed
  qed
qed simp

section \<open>The output is DER\<close>

text \<open>
  A sequence of strict DER elements all the way down: no constructed strings, and at most \<open>d\<close>
  levels of constructed elements.
\<close>

inductive der_tree :: "nat \<Rightarrow> byte list \<Rightarrow> bool" where
  der_Nil [intro]: "der_tree d []"
| der_primitive: "valid_tag tag \<Longrightarrow> \<not> is_constructed tag \<Longrightarrow> length c < 2 ^ 32 \<Longrightarrow> der_tree d rest \<Longrightarrow>
    der_tree d (der_element tag c @ rest)"
| der_constructed: "valid_tag tag \<Longrightarrow> is_constructed tag \<Longrightarrow> \<not> is_string_type tag \<Longrightarrow>
    length c < 2 ^ 32 \<Longrightarrow> der_tree d c \<Longrightarrow> der_tree (Suc d) rest \<Longrightarrow>
    der_tree (Suc d) (der_element tag c @ rest)"

lemma der_tree_append: "der_tree d xs \<Longrightarrow> der_tree d ys \<Longrightarrow> der_tree d (xs @ ys)"
  by (induction rule: der_tree.induct) (auto intro: der_tree.intros)

lemma el_finish_ber: "el_finish cbs tag len hl ber indef = (Some el, t) \<Longrightarrow> el_ber_found el = ber"
  by (auto simp: el_finish_def rbind_eq_Some)

lemma ber_strict_iff:
  "CBS_get_any_asn1_element cbs = (Some el, t) \<longleftrightarrow>
   CBS_get_any_ber_asn1_element cbs = (Some el, t) \<and> \<not> el_ber_found el"
  unfolding CBS_get_any_asn1_element_def CBS_get_any_ber_asn1_element_def
proof (cases "\<exists>tag b s. parse_asn1_tag cbs = (Some tag, b # s)")
  case False
  obtain r header where r: "parse_asn1_tag cbs = (r, header)" by (cases "parse_asn1_tag cbs")
  have "cbs_get_any_asn1_element ber_ok cbs = (None, cbs)" for ber_ok
    using False r by (cases r; cases header) (auto simp: cbs_get_any_asn1_element_def CBS_get_u8_def rbind_def cbs_get_def)
  then show "cbs_get_any_asn1_element False cbs = (Some el, t) \<longleftrightarrow>
    cbs_get_any_asn1_element True cbs = (Some el, t) \<and> \<not> el_ber_found el" by simp
next
  case True
  then obtain tag b s where p: "parse_asn1_tag cbs = (Some tag, b # s)" by blast
  note E = any_element_eq [OF p]
  show "cbs_get_any_asn1_element False cbs = (Some el, t) \<longleftrightarrow>
    cbs_get_any_asn1_element True cbs = (Some el, t) \<and> \<not> el_ber_found el"
    unfolding E Let_def by (auto dest: el_finish_ber split: prod.splits option.splits if_splits)
qed

lemma der_element_ne [simp]: "der_element tag c \<noteq> []"
  by (simp add: der_element_def der_header_def asn1_identifier_def)

lemma find_ber_der_element:
  assumes "valid_tag tag" "length c < 2 ^ 32" "depth \<le> kMaxDepth"
  shows "cbs_find_ber (der_element tag c @ rest) depth =
    (if is_constructed tag
     then if is_string_type tag then Some True
          else (case cbs_find_ber c (depth + 1) of
                  None \<Rightarrow> None | Some True \<Rightarrow> Some True | Some False \<Rightarrow> cbs_find_ber rest depth)
     else cbs_find_ber rest depth)"
proof -
  have "CBS_get_any_asn1_element (der_element tag c @ rest) = (Some (asn1_el tag c), rest)"
    by (rule CBS_get_any_asn1_element_complete [OF assms(1,2)])
  then have "CBS_get_any_ber_asn1_element (der_element tag c @ rest) = (Some (asn1_el tag c), rest)"
    "\<not> el_ber_found (asn1_el tag c)" by (simp_all only: ber_strict_iff simp_thms)
  then show ?thesis
    using assms(3) by (subst cbs_find_ber.simps) simp
qed

lemma find_ber_der_tree: "der_tree d inp \<Longrightarrow> d + depth \<le> kMaxDepth \<Longrightarrow> cbs_find_ber inp depth = Some False"
proof (induction arbitrary: depth rule: der_tree.induct)
  case (der_Nil d)
  then show ?case by (simp add: cbs_find_ber.simps)
qed (simp_all add: find_ber_der_element)

lemma der_tree_find_ber: "cbs_find_ber inp depth = Some False \<Longrightarrow> der_tree (kMaxDepth - depth) inp"
proof (induction "length inp" arbitrary: inp depth rule: less_induct)
  case less
  show ?case
  proof (cases "inp = []")
    case False
    from less(2) have d: "depth \<le> kMaxDepth" by (subst (asm) cbs_find_ber.simps) (auto split: if_splits)
    from less(2) False d obtain el rest where "CBS_get_any_ber_asn1_element inp = (Some el, rest)" "\<not> el_ber_found el"
      by (subst (asm) cbs_find_ber.simps) (auto split: prod.splits option.splits if_splits)
    then have "CBS_get_any_asn1_element inp = (Some el, rest)" by (simp add: ber_strict_iff)
    then obtain tag c where t: "valid_tag tag" "length c < 2 ^ 32" "inp = der_element tag c @ rest"
      by (auto simp: CBS_get_any_asn1_element_iff)
    have len: "length rest < length inp" "length c < length inp"
      by (simp_all add: t(3) der_element_def der_header_def asn1_identifier_def)
    note f = less(2) [unfolded t(3) find_ber_der_element [OF t(1,2) d]]
    show ?thesis
    proof (cases "is_constructed tag")
      case False
      then have "cbs_find_ber rest depth = Some False" using f by simp
      with False t less(1) len show ?thesis by (auto intro: der_primitive)
    next
      case True
      then have s: "\<not> is_string_type tag" "cbs_find_ber c (depth + 1) = Some False" "cbs_find_ber rest depth = Some False"
        using f by (auto split: if_splits option.splits bool.splits)
      from s(2) have "Suc depth \<le> kMaxDepth" by (subst (asm) cbs_find_ber.simps) (auto split: if_splits)
      then have k: "kMaxDepth - depth = Suc (kMaxDepth - (depth + 1))" by simp
      have "der_tree (kMaxDepth - (depth + 1)) c" "der_tree (kMaxDepth - depth) rest"
        using less(1) len s(2,3) by blast+
      then show ?thesis unfolding k t(3) using True s(1) t(1,2) by (intro der_constructed)
    qed
  qed auto
qed

section \<open>The conversion writes DER\<close>

lemma valid_tag_primitive: "valid_tag tag \<longleftrightarrow> primitive_tag tag \<noteq> 0"
  by (simp only: valid_tag_def primitive_tag_def)

lemma primitive_tag [simp]:
  "\<not> is_constructed (primitive_tag tag)" "valid_tag (primitive_tag tag) = valid_tag tag"
proof -
  have "(tag AND NOT CBS_ASN1_CONSTRUCTED) AND CBS_ASN1_CONSTRUCTED = 0"
    by (rule bit_word_eqI) (simp add: bit_simps)
  then show "\<not> is_constructed (primitive_tag tag)" by (simp only: is_constructed_def primitive_tag_def simp_thms)
  show "valid_tag (primitive_tag tag) = valid_tag tag"
    by (simp only: valid_tag_def primitive_tag_def and.assoc and.idem)
qed

text \<open>Opening an element, and closing it once \<open>c\<close> has been written to it.\<close>

lemma asn1_field:
  assumes r: "repr s A" "nesting A = k" and add: "CBB_add_asn1 k tag s = (True, s1)"
  obtains B where "repr s1 B" "nesting B = Suc k"
    "\<And>c s2 s3. repr s2 (append_open c B) \<Longrightarrow> CBB_flush k s2 = (True, s3) \<Longrightarrow>
      length c \<le> 0xfffffffe \<and> repr s3 (append_open (der_element tag c) A)"
proof -
  have "implements (open_asn1 k tag A) s (CBB_add_asn1 k tag s)"
    by (rule refinesD(1) [OF CBB_add_asn1_refines r(1)]) (use r(2) in simp)
  then obtain B where B: "open_asn1 k tag A = Some B" "repr s1 B"
    by (auto simp: add implements_True)
  let ?I = "append_open (asn1_identifier tag) A"
  have Beq: "B = open_field 1 True ?I" using B(1) r(2) by (simp add: open_asn1_def)
  have dB: "nesting B = Suc k" using open_asn1_depth [OF B(1)] r(2) by simp
  show ?thesis
  proof (rule that [OF B(2) dB])
    fix c s2 s3
    assume r2: "repr s2 (append_open c B)" and fl: "CBB_flush k s2 = (True, s3)"
    have "implements (flush_to k (append_open c B)) s2 (CBB_flush k s2)"
      by (rule refinesD(1) [OF flush_refines r2]) (simp add: dB)
    then obtain C where C: "flush_to k (append_open c B) = Some C" "repr s3 C"
      by (auto simp: fl implements_True)
    have "append_open c B = ((1, True, c) # fst ?I, snd ?I)" by (simp add: Beq open_field_def)
    then have "length_prefix 1 True (length c) \<noteq> None \<and> C = append_open (asn1_length (length c) @ c) ?I \<and> length c \<le> 0xfffffffe"
      using C(1) r(2) by (auto simp: flush_to_def length_prefix_def split: if_splits)
    then show "length c \<le> 0xfffffffe \<and> repr s3 (append_open (der_element tag c) A)"
      using C(2) by (simp add: append_open_append der_element_def der_header_def)
  qed
qed

lemma add_bytes_field:
  assumes "repr s A" "nesting A = k" "CBB_add_bytes k bs s = (True, s')" "length bs < 2 ^ 64"
  shows "repr s' (append_open bs A)"
proof -
  have "implements (write_to k bs A) s (CBB_add_bytes k bs s)"
    by (rule refinesD(1) [OF CBB_add_bytes_refines [OF assms(4)] assms(1)]) (use assms(2) in simp)
  with assms(2,3) show ?thesis by (auto simp: implements_True)
qed

lemma flush_field:
  assumes "repr s A" "nesting A = k" "CBB_flush k s = (True, s')"
  shows "repr s' A"
proof -
  have "implements (flush_to k A) s (CBB_flush k s)"
    by (rule refinesD(1) [OF flush_refines assms(1)]) (use assms(2) in simp)
  with assms(2,3) show ?thesis by (auto simp: implements_True)
qed

lemma convert_depth: "cbs_convert_ber fuel inp k t eoc d s = Some (True, inp', s') \<Longrightarrow> d \<le> kMaxDepth"
  by (cases fuel) (auto split: if_splits)

lemma convert_correct:
  assumes "cbs_convert_ber fuel inp k string_tag eoc depth s = Some (True, inp', s')"
    and "repr s A" "nesting A = k" "length inp < 2 ^ 64" "length inp < fuel"
  shows "\<exists>d. repr s' (append_open d A) \<and> (string_tag = 0 \<longrightarrow> der_tree (kMaxDepth - depth) d)"
  using assms
proof (induction fuel arbitrary: inp k string_tag eoc depth s A inp' s')
  case (Suc fuel)
  note r = Suc.prems(2,3)
  show ?case
  proof (cases "depth > kMaxDepth \<or> length inp = 0 \<or> eoc \<and> fst (cbs_get_eoc inp) \<noteq> None")
    case True
    then have "s' = s" using Suc.prems(1) by (auto split: if_splits)
    then show ?thesis using r by (intro exI [of _ "[]"]) auto
  next
    case False
    then obtain el rest where el: "CBS_get_any_ber_asn1_element inp = (Some el, rest)"
      using Suc.prems(1) by (auto split: prod.splits option.splits if_splits)
    note step = Suc.prems(1) [unfolded convert_step [OF False el]]
    note parts = ber_element_parts [OF el]
    have shorter: "length rest < 2 ^ 64" "length rest < fuel"
      using ber_element_shorter(1) [OF el] Suc.prems(4,5) by linarith+
    define tag where "tag = el_tag el"
    define is_string where "is_string = (is_constructed tag \<and> is_string_type tag)"
    define out_tag where "out_tag = (if is_string then primitive_tag tag else tag)"
    define child where "child = (if string_tag = 0 \<and> is_string then out_tag else string_tag)"
    define k' where "k' = (if string_tag \<noteq> 0 then k else k + 1)"
    have tag: "valid_tag tag" "valid_tag out_tag" using parts(4) by (simp_all add: tag_def out_tag_def)
    define start where "start = (if string_tag \<noteq> 0 then (primitive_tag tag = string_tag, s)
        else CBB_add_asn1 k out_tag s)"
    define go where "go = (\<lambda>inp s. case CBB_flush k s of
        (False, s) \<Rightarrow> Some (False, inp, s)
      | (True, s) \<Rightarrow> cbs_convert_ber fuel inp k string_tag eoc depth s)"
    obtain ok s1 where start: "start = (ok, s1)" by (cases start)
    have step': "(if \<not> ok then Some (False, rest, s1)
        else if el_indefinite el
        then (case cbs_convert_ber fuel rest k' child True (depth + 1) s1 of
                Some (True, inp, s) \<Rightarrow> go inp s | r \<Rightarrow> r)
        else (case CBS_skip (el_header_len el) (el_bytes el) of
                (None, _) \<Rightarrow> Some (False, rest, s1)
              | (Some _, contents) \<Rightarrow>
                  if is_constructed tag
                  then (case cbs_convert_ber fuel contents k' child False (depth + 1) s1 of
                          Some (True, _, s) \<Rightarrow> go rest s
                        | Some (False, _, s) \<Rightarrow> Some (False, rest, s)
                        | None \<Rightarrow> None)
                  else (case CBB_add_bytes k' contents s1 of
                          (False, s) \<Rightarrow> Some (False, rest, s)
                        | (True, s) \<Rightarrow> go rest s))) = Some (True, inp', s')"
      using step unfolding Let_def tag_def [symmetric] is_string_def [symmetric] out_tag_def [symmetric]
        child_def [symmetric] k'_def [symmetric] start_def [symmetric] go_def [symmetric] start prod.case .
    then have ok: "ok" by (cases ok) auto
    text \<open>The open field \<open>B\<close>, its contents \<open>c\<close>, and the flush and the loop after it.\<close>
    obtain B where B: "repr s1 B" "nesting B = k'"
      and close: "\<And>c s2 s3. repr s2 (append_open c B) \<Longrightarrow> CBB_flush k s2 = (True, s3) \<Longrightarrow>
        \<exists>d. repr s3 (append_open d A) \<and> (string_tag = 0 \<longrightarrow> d = der_element out_tag c \<and> length c \<le> 0xfffffffe)"
    proof (cases "string_tag = 0")
      case True
      then have "CBB_add_asn1 k out_tag s = (True, s1)" using start ok by (simp add: start_def)
      from asn1_field [OF r this] show ?thesis using that True by (metis Suc_eq_plus1 k'_def)
    next
      case False
      then have "s1 = s" "k' = k" using start by (simp_all add: start_def k'_def)
      then show ?thesis using that [of A] r False flush_field by (metis length_append_open)
    qed
    obtain c s2 rest' where c: "repr s2 (append_open c B)"
      and cc: "string_tag = 0 \<longrightarrow> is_constructed out_tag \<longrightarrow> depth < kMaxDepth \<and> der_tree (kMaxDepth - (depth + 1)) c"
      and go: "go rest' s2 = Some (True, inp', s')"
      and rest': "length rest' < 2 ^ 64" "length rest' < fuel"
    proof -
      have nested: "\<exists>c. repr s2 (append_open c B) \<and>
          (string_tag = 0 \<longrightarrow> is_constructed out_tag \<longrightarrow> depth < kMaxDepth \<and> der_tree (kMaxDepth - (depth + 1)) c)"
        if "cbs_convert_ber fuel xs k' child e (depth + 1) s1 = Some (True, xs', s2)"
          "length xs < 2 ^ 64" "length xs < fuel" for xs e xs' s2
      proof -
        have "string_tag = 0 \<longrightarrow> is_constructed out_tag \<longrightarrow> child = 0"
          by (auto simp: child_def out_tag_def)
        with Suc.IH [OF that(1) B that(2,3)] convert_depth [OF that(1)] show ?thesis by auto
      qed
      show ?thesis
      proof (cases "el_indefinite el")
        case True
        then obtain xs s2 where n: "cbs_convert_ber fuel rest k' child True (depth + 1) s1 = Some (True, xs, s2)"
          "go xs s2 = Some (True, inp', s')"
          using step' ok by (auto split: option.splits prod.splits bool.splits)
        have "length xs \<le> length rest"
          using convert_total [OF shorter(2), of k' child True "depth + 1" s1] n(1) by simp
        with shorter nested [OF n(1) shorter] that n(2) show ?thesis by fastforce
      next
        case False
        then obtain contents where sk: "CBS_skip (el_header_len el) (el_bytes el) = (Some (), contents)"
          using step' ok by (auto split: option.splits prod.splits)
        have lc: "length contents < 2 ^ 64" "length contents < fuel"
          using ber_element_shorter(2) [OF el sk] Suc.prems(4,5) by linarith+
        show ?thesis
        proof (cases "is_constructed tag")
          case True
          then obtain xs s2 where n: "cbs_convert_ber fuel contents k' child False (depth + 1) s1 = Some (True, xs, s2)"
            "go rest s2 = Some (True, inp', s')"
            using step' ok False sk by (auto split: option.splits prod.splits bool.splits)
          with shorter nested [OF n(1) lc] that show ?thesis by blast
        next
          case prim: False
          then obtain s2 where n: "CBB_add_bytes k' contents s1 = (True, s2)" "go rest s2 = Some (True, inp', s')"
            using step' ok False sk by (auto split: prod.splits bool.splits)
          have "\<not> is_constructed out_tag" using prim by (simp add: out_tag_def is_string_def)
          then show ?thesis using that [OF add_bytes_field [OF B n(1) lc(1)] _ n(2)] shorter by blast
        qed
      qed
    qed
    obtain s3 where fl: "CBB_flush k s2 = (True, s3)"
      and loop: "cbs_convert_ber fuel rest' k string_tag eoc depth s3 = Some (True, inp', s')"
      using go by (auto simp: go_def split: prod.splits bool.splits)
    obtain d where d: "repr s3 (append_open d A)"
      "string_tag = 0 \<longrightarrow> d = der_element out_tag c \<and> length c \<le> 0xfffffffe"
      using close [OF c fl] by blast
    have "nesting (append_open d A) = k" using r(2) by simp
    from Suc.IH [OF loop d(1) this rest'] obtain e where
      e: "repr s' (append_open (d @ e) A)" "string_tag = 0 \<longrightarrow> der_tree (kMaxDepth - depth) e"
      by (auto simp: append_open_append)
    have "der_tree (kMaxDepth - depth) (d @ e)" if z: "string_tag = 0"
    proof (cases "is_constructed out_tag")
      case False
      then show ?thesis using d(2) e(2) z tag(2) by (auto intro!: der_primitive)
    next
      case True
      then have "kMaxDepth - depth = Suc (kMaxDepth - (depth + 1))" "\<not> is_string_type out_tag"
        using cc z by (auto simp: out_tag_def is_string_def split: if_splits)
      with True d(2) e(2) z tag(2) cc show ?thesis by (auto intro!: der_constructed)
    qed
    with e(1) show ?thesis by blast
  qed
qed simp

lemma repr_init: "cap s < 2 ^ 64 \<Longrightarrow> buf s = [] \<Longrightarrow> children s = [] \<Longrightarrow> \<not> error s \<Longrightarrow> repr s ([], [])"
  by (simp add: repr_def)

lemma CBB_init_repr: "CBB_init alloc n = Some s \<Longrightarrow> n < 2 ^ 64 \<Longrightarrow> repr s ([], [])"
  by (rule repr_init) (auto simp: CBB_init_def cbb_init_def split: if_splits)

lemma CBB_finish_data:
  assumes "repr s ([], r)" "CBB_finish 0 True s = (Some out, s')"
  shows "out = r"
proof -
  obtain ok s1 where fl: "CBB_flush 0 s = (ok, s1)" by (cases "CBB_flush 0 s")
  then have "ok" "out = buf s1" using assms(2) by (auto simp: CBB_finish_def split: bool.splits if_splits)
  moreover have "repr s1 ([], r)" using flush_field [OF assms(1), of 0] fl \<open>ok\<close> by simp
  ultimately show ?thesis by (simp add: repr_def)
qed

text \<open>What a successful conversion returns is DER that needs no further conversion.\<close>

lemma CBS_asn1_ber_to_der_correct:
  assumes "CBS_asn1_ber_to_der alloc inp = (Some (out, storage), rest)" "length inp < 2 ^ 64"
  shows "cbs_find_ber out 0 = Some False"
proof (cases "cbs_find_ber inp 0")
  case None
  then show ?thesis using assms(1) by (simp add: CBS_asn1_ber_to_der_def)
next
  case (Some b)
  show ?thesis
  proof (cases b)
    case False
    then obtain el where "CBS_get_any_asn1_element inp = (Some el, rest)" "out = el_bytes el"
      using assms(1) Some by (auto simp: CBS_asn1_ber_to_der_def rbind_eq_Some)
    then obtain tag c where t: "valid_tag tag" "length c < 2 ^ 32" "inp = der_element tag c @ rest" "out = der_element tag c"
      by (auto simp: CBS_get_any_asn1_element_iff)
    have nil: "cbs_find_ber [] 0 = Some False" by (simp add: cbs_find_ber.simps)
    show ?thesis
      using Some False find_ber_der_element [OF t(1,2), of 0 rest] find_ber_der_element [OF t(1,2), of 0 "[]"]
      by (simp add: t(3,4) nil split: if_splits option.splits bool.splits)
  next
    case True
    then obtain s rest' s' where s: "CBB_init alloc (length inp) = Some s"
      "cbs_convert_ber (length inp + 1) inp 0 0 False 0 s = Some (True, rest', s')"
      "CBB_finish 0 True s' = (Some out, snd (CBB_finish 0 True s'))"
      using assms(1) Some
      by (auto simp: CBS_asn1_ber_to_der_def simp del: cbs_convert_ber.simps
          split: option.splits prod.splits bool.splits)
    obtain d where d: "repr s' (append_open d ([], []))" "der_tree kMaxDepth d"
      using convert_correct [OF s(2) CBB_init_repr [OF s(1) assms(2)] _ assms(2)] by auto
    have "out = d" using CBB_finish_data [of s' d out] d(1) s(3) by simp
    with find_ber_der_tree [OF d(2), of 0] show ?thesis by simp
  qed
qed

text \<open>The implicit string: the body of the primitive form, or the bodies of the chunks.\<close>

lemma implicit_chunks_correct:
  assumes "implicit_chunks tag child s = (True, s')" "repr s ([], r)" "length child < 2 ^ 64"
  shows "\<exists>chunks. child = concat (map (der_element tag) chunks) \<and> repr s' ([], r @ concat chunks)"
  using assms
proof (induction "length child" arbitrary: child s r rule: less_induct)
  case less
  show ?case
  proof (cases "child = []")
    case True
    then show ?thesis using less.prems by (intro exI [of _ "[]"]) (simp add: implicit_chunks.simps)
  next
    case False
    then obtain chunk rest s1 where g: "CBS_get_asn1 tag child = (Some chunk, rest)"
      "CBB_add_bytes 0 chunk s = (True, s1)" "implicit_chunks tag rest s1 = (True, s')"
      using less.prems(1) by (subst (asm) implicit_chunks.simps) (auto split: prod.splits option.splits bool.splits)
    then have child: "child = der_element tag chunk @ rest" by (simp add: CBS_get_asn1_iff)
    have len: "length rest < length child" "length chunk < 2 ^ 64"
      using less.prems(3) by (simp_all add: child der_element_def der_header_def asn1_identifier_def)
    have "repr s1 ([], r @ chunk)"
      using add_bytes_field [OF less.prems(2) _ g(2) len(2)] by simp
    with less.hyps [OF len(1) g(3)] less.prems(3) len(1)
    obtain chunks where "rest = concat (map (der_element tag) chunks)" "repr s' ([], (r @ chunk) @ concat chunks)"
      by fastforce
    with child show ?thesis by (intro exI [of _ "chunk # chunks"]) simp
  qed
qed

lemma implicit_string_correct:
  assumes "CBS_get_asn1_implicit_string alloc outer_tag inner_tag inp = (Some (out, storage), rest)"
    "length inp < 2 ^ 64"
  shows "inp = der_element outer_tag out @ rest \<or>
    (\<exists>chunks. inp = der_element (outer_tag OR CBS_ASN1_CONSTRUCTED)
       (concat (map (der_element inner_tag) chunks)) @ rest \<and> out = concat chunks)"
proof (cases "CBS_peek_asn1_tag inp outer_tag")
  case True
  then show ?thesis
    using assms(1) by (auto simp: CBS_get_asn1_implicit_string_def rbind_eq_Some CBS_get_asn1_iff)
next
  case False
  then obtain s child s' where s: "CBB_init alloc (length inp) = Some s"
    "CBS_get_asn1 (outer_tag OR CBS_ASN1_CONSTRUCTED) inp = (Some child, rest)"
    "implicit_chunks inner_tag child s = (True, s')" "CBB_finish 0 True s' = (Some out, snd (CBB_finish 0 True s'))"
    using assms(1)
    by (auto simp: CBS_get_asn1_implicit_string_def split: option.splits prod.splits bool.splits)
  then have inp: "inp = der_element (outer_tag OR CBS_ASN1_CONSTRUCTED) child @ rest"
    by (simp add: CBS_get_asn1_iff)
  then have "length child < 2 ^ 64" using assms(2) by (simp add: der_element_def)
  from implicit_chunks_correct [OF s(3) CBB_init_repr [OF s(1) assms(2)] this]
  obtain chunks where c: "child = concat (map (der_element inner_tag) chunks)" "repr s' ([], concat chunks)"
    by auto
  then have "out = concat chunks" using CBB_finish_data s(4) by blast
  with c(1) inp show ?thesis by blast
qed

lemma CBB_finish_i2d_correct:
  assumes "repr s ([], r)" "growable s" "length r < 2 ^ 31"
  shows "CBB_finish_i2d s outp = (int (length r),
    case outp of None \<Rightarrow> None | Some None \<Rightarrow> Some r | Some (Some b) \<Rightarrow> Some (r @ drop (length r) b))"
proof -
  have "CBB_flush 0 s = (True, s)" using CBB_flush_innermost [OF assms(1)] by simp
  then have "CBB_finish 0 True s = (Some r, s\<lparr>buf := []\<rparr>)"
    using assms(1) by (simp add: CBB_finish_def repr_def)
  with assms(3) show ?thesis by (simp add: CBB_finish_i2d_def)
qed

section \<open>A fresh buffer\<close>

lemma fresh_buffer:
  assumes "n < 2 ^ 64"
  shows "repr (cbb_init (\<lambda>_. True) n True) ([], [])" "growable (cbb_init (\<lambda>_. True) n True)"
proof -
  have "CBB_init (\<lambda>_. True) n = Some (cbb_init (\<lambda>_. True) n True)" by (simp add: CBB_init_def)
  then show "repr (cbb_init (\<lambda>_. True) n True) ([], [])" using assms by (rule CBB_init_repr)
qed (simp add: growable_def cbb_init_def)

text \<open>A writer of a value on a fresh buffer and \<open>CBB_finish\<close> give exactly its bytes.\<close>

lemma write_finish:
  assumes w: "refines (\<lambda>A. 0 \<le> nesting A) w (write_to 0 bs)" and n: "n < 2 ^ 64" and bs: "length bs < 2 ^ 64"
  defines "s \<equiv> cbb_init (\<lambda>_. True) n True"
  shows "fst (w s)" "fst (CBB_finish 0 True (snd (w s))) = Some bs"
proof -
  note fresh = fresh_buffer [OF n, folded s_def]
  obtain ok s' where ws: "w s = (ok, s')" by (cases "w s")
  have "implements (write_to 0 bs ([], [])) s (w s)"
    by (rule refinesD(1) [OF w fresh(1)]) simp
  moreover have d: "write_to 0 bs ([], []) = Some ([], bs)" by (simp add: write_to_def flush_to_def)
  ultimately have i: "implements (Some ([], bs)) s (ok, s')" by (simp only: ws)
  then have "ok" using bs fresh(2) by (cases ok) (simp_all add: implements_False)
  then have r: "repr s' ([], bs)" "growable s'" using i fresh(2) by (simp_all add: implements_True)
  show "fst (w s)" using \<open>ok\<close> by (simp add: ws)
  have "fst (CBB_finish 0 True s') \<noteq> None"
    using CBB_finish_refines [OF r(1)] r(2) bs
    by (auto simp: flush_to_def split: option.splits prod.splits)
  then show "fst (CBB_finish 0 True (snd (w s))) = Some bs"
    using CBB_finish_data [OF r(1)] by (cases "CBB_finish 0 True s'") (auto simp: ws)
qed

end
