(* ===== verification/Base64.thy ===== *)
theory Base64
  imports Prelude
begin

text \<open>
  Base64 encoding and decoding, \<open>crypto/base64/base64.c\<close>, with the constant-time primitives of
  \<open>crypto/internal.h\<close> it uses. \<open>crypto_word_t\<close> is the 64-bit word; \<open>value_barrier_w\<close> returns its
  argument. Output buffers are returned as the bytes written to them; the NUL the encoder puts
  after its text is part of them, and \<open>*out_len\<close> does not count it.
\<close>

section \<open>Constant-time primitives\<close>

definition constant_time_msb_w :: "u64 \<Rightarrow> u64" where
  "constant_time_msb_w a = 0 - drop_bit 63 a"

definition constant_time_is_zero_w :: "u64 \<Rightarrow> u64" where
  "constant_time_is_zero_w a = constant_time_msb_w (NOT a AND (a - 1))"

definition constant_time_eq_w :: "u64 \<Rightarrow> u64 \<Rightarrow> u64" where
  "constant_time_eq_w a b = constant_time_is_zero_w (a XOR b)"

definition constant_time_eq_8 :: "u64 \<Rightarrow> u64 \<Rightarrow> byte" where
  "constant_time_eq_8 a b = ucast (constant_time_eq_w a b)"

definition constant_time_select_8 :: "u64 \<Rightarrow> byte \<Rightarrow> byte \<Rightarrow> byte" where
  "constant_time_select_8 select a b = (let m = ucast select in (m AND a) OR (NOT m AND b))"

definition constant_time_lt_args_8 :: "byte \<Rightarrow> byte \<Rightarrow> byte" where
  "constant_time_lt_args_8 a b = ucast (constant_time_msb_w (ucast a - ucast b))"

definition constant_time_in_range_8 :: "byte \<Rightarrow> byte \<Rightarrow> byte \<Rightarrow> byte" where
  "constant_time_in_range_8 a lo hi =
     (let a = a - lo in constant_time_lt_args_8 a (hi - lo + 1))"

section \<open>Encoding\<close>

definition conv_bin2ascii :: "byte \<Rightarrow> byte" where
  "conv_bin2ascii a =
     (let a = a AND 0x3f;
          ret = constant_time_select_8 (ucast (constant_time_eq_8 (ucast a) 62)) 0x2b 0x2f;
          ret = constant_time_select_8 (ucast (constant_time_lt_args_8 a 62)) (a - 52 + 0x30) ret;
          ret = constant_time_select_8 (ucast (constant_time_lt_args_8 a 52)) (a - 26 + 0x61) ret;
          ret = constant_time_select_8 (ucast (constant_time_lt_args_8 a 26)) (a + 0x41) ret
      in ret)"

text \<open>On \<open>size_t\<close> values: None when the function returns zero.\<close>

definition EVP_EncodedLength :: "u64 \<Rightarrow> u64 option" where
  "EVP_EncodedLength len =
     (if len + 2 < len then None
      else let len = (len + 2) div 3
           in if drop_bit 2 (push_bit 2 len) \<noteq> len then None
              else let len = push_bit 2 len
                   in if len + 1 < len then None else Some (len + 1))"

text \<open>The loop of \<open>EVP_EncodeBlock\<close>.\<close>

fun encode_loop :: "byte list \<Rightarrow> byte list" where
  "encode_loop (a # b # c # src) =
     (let l = push_bit 16 (ucast a) OR push_bit 8 (ucast b) OR ucast c :: u32
      in conv_bin2ascii (ucast (drop_bit 18 l)) # conv_bin2ascii (ucast (drop_bit 12 l)) #
         conv_bin2ascii (ucast (drop_bit 6 l)) # conv_bin2ascii (ucast l) # encode_loop src)"
| "encode_loop [a, b] =
     (let l = push_bit 16 (ucast a) OR push_bit 8 (ucast b) :: u32
      in [conv_bin2ascii (ucast (drop_bit 18 l)), conv_bin2ascii (ucast (drop_bit 12 l)),
          conv_bin2ascii (ucast (drop_bit 6 l)), 0x3d])"
| "encode_loop [a] =
     (let l = push_bit 16 (ucast a) :: u32
      in [conv_bin2ascii (ucast (drop_bit 18 l)), conv_bin2ascii (ucast (drop_bit 12 l)), 0x3d, 0x3d])"
| "encode_loop [] = []"

definition EVP_EncodeBlock :: "byte list \<Rightarrow> byte list \<times> nat" where
  "EVP_EncodeBlock src = (let dst = encode_loop src in (dst @ [0], length dst))"

record EVP_ENCODE_CTX =
  data :: "byte list"
  data_used :: nat
  eof_seen :: bool
  error_encountered :: bool

definition EVP_EncodeInit :: EVP_ENCODE_CTX where
  "EVP_EncodeInit = \<lparr>data = replicate 48 0, data_used = 0, eof_seen = False, error_encountered = False\<rparr>"

definition memcpy :: "byte list \<Rightarrow> nat \<Rightarrow> byte list \<Rightarrow> byte list" where
  "memcpy dst off src = take off dst @ src @ drop (off + length src) dst"

abbreviation INT_MAX :: nat where
  "INT_MAX \<equiv> 0x7fffffff"

text \<open>
  The loop over whole blocks of the input. \<open>written\<close> is a \<open>size_t\<close>; a total that wraps around makes
  the function return with \<open>*out_len\<close> zero before the context is updated (None).
\<close>

function encode_blocks :: "byte list \<Rightarrow> nat \<Rightarrow> byte list \<Rightarrow> byte list \<times> (nat \<times> byte list) option" where
  "encode_blocks out written inp =
     (if 48 \<le> length inp
      then let (dst, encoded) = EVP_EncodeBlock (take 48 inp);
               out = out @ take encoded dst @ [0x0a]
           in if (written + encoded + 1) mod 2 ^ 64 < written then (out, None)
              else encode_blocks out ((written + encoded + 1) mod 2 ^ 64) (drop 48 inp)
      else (out, Some (written, inp)))"
  by pat_completeness auto
termination
  by (relation "measure (\<lambda>(out, written, inp). length inp)") auto

declare encode_blocks.simps [simp del]

text \<open>
  The result is the context, the text and \<open>*out_len\<close>; a text that is not empty is followed
  by a NUL.
\<close>

definition EVP_EncodeUpdate :: "EVP_ENCODE_CTX \<Rightarrow> byte list \<Rightarrow> EVP_ENCODE_CTX \<times> byte list \<times> nat" where
  "EVP_EncodeUpdate ctx inp =
     (if length inp = 0 then (ctx, [], 0)
      else if 48 - data_used ctx > length inp
      then (ctx\<lparr>data := memcpy (data ctx) (data_used ctx) inp,
                data_used := data_used ctx + length inp\<rparr>, [], 0)
      else
        let (ctx, out, written, inp) =
              (if data_used ctx \<noteq> 0
               then let todo = 48 - data_used ctx;
                        data' = memcpy (data ctx) (data_used ctx) (take todo inp);
                        (dst, encoded) = EVP_EncodeBlock data'
                    in (ctx\<lparr>data := data', data_used := 0\<rparr>, take encoded dst @ [0x0a],
                        encoded + 1, drop todo inp)
               else (ctx, [], 0, inp))
        in (case encode_blocks out written inp of
              (out, None) \<Rightarrow> (ctx, out @ [0], 0)
            | (out, Some (written, inp)) \<Rightarrow>
                (ctx\<lparr>data := (if length inp \<noteq> 0 then memcpy (data ctx) 0 inp else data ctx),
                     data_used := length inp\<rparr>,
                 out @ [0], if written > INT_MAX then 0 else written)))"

definition EVP_EncodeFinal :: "EVP_ENCODE_CTX \<Rightarrow> EVP_ENCODE_CTX \<times> byte list \<times> nat" where
  "EVP_EncodeFinal ctx =
     (if data_used ctx = 0 then (ctx, [], 0)
      else let (dst, encoded) = EVP_EncodeBlock (take (data_used ctx) (data ctx))
           in (ctx\<lparr>data_used := 0\<rparr>, take encoded dst @ [0x0a, 0], encoded + 1))"

section \<open>Decoding\<close>

definition EVP_DecodedLength :: "nat \<Rightarrow> nat option" where
  "EVP_DecodedLength len = (if len mod 4 \<noteq> 0 then None else Some ((len div 4) * 3))"

definition EVP_DecodeInit :: EVP_ENCODE_CTX where
  "EVP_DecodeInit = \<lparr>data = replicate 48 0, data_used = 0, eof_seen = False, error_encountered = False\<rparr>"

definition base64_ascii_to_bin :: "byte \<Rightarrow> byte" where
  "base64_ascii_to_bin a =
     (let is_upper = constant_time_in_range_8 a 0x41 0x5a;
          is_lower = constant_time_in_range_8 a 0x61 0x7a;
          is_digit = constant_time_in_range_8 a 0x30 0x39;
          is_plus = constant_time_eq_8 (ucast a) 0x2b;
          is_slash = constant_time_eq_8 (ucast a) 0x2f;
          is_equals = constant_time_eq_8 (ucast a) 0x3d;
          ret = 0;
          ret = ret OR (is_upper AND (a - 0x41));
          ret = ret OR (is_lower AND (a - 0x61 + 26));
          ret = ret OR (is_digit AND (a - 0x30 + 52));
          ret = ret OR (is_plus AND 62);
          ret = ret OR (is_slash AND 63);
          is_valid = is_upper OR is_lower OR is_digit OR is_plus OR is_slash OR is_equals
      in ret OR NOT is_valid)"

text \<open>The bytes written for one quad; their number is \<open>*out_num_bytes\<close>.\<close>

definition base64_decode_quad :: "byte \<Rightarrow> byte \<Rightarrow> byte \<Rightarrow> byte \<Rightarrow> byte list option" where
  "base64_decode_quad in0 in1 in2 in3 =
     (let a = base64_ascii_to_bin in0; b = base64_ascii_to_bin in1;
          c = base64_ascii_to_bin in2; d = base64_ascii_to_bin in3
      in if a = 0xff \<or> b = 0xff \<or> c = 0xff \<or> d = 0xff then None
      else let v = push_bit 18 (ucast a) OR push_bit 12 (ucast b) OR push_bit 6 (ucast c) OR ucast d :: u32;
               padding_pattern = (if in0 = 0x3d then 8 else 0) + (if in1 = 0x3d then 4 else 0)
                 + (if in2 = 0x3d then 2 else 0) + (if in3 = 0x3d then 1 else 0) :: nat
           in if padding_pattern = 0
              then Some [ucast (drop_bit 16 v), ucast (drop_bit 8 v), ucast v]
              else if padding_pattern = 1 then Some [ucast (drop_bit 16 v), ucast (drop_bit 8 v)]
              else if padding_pattern = 3 then Some [ucast (drop_bit 16 v)]
              else None)"

definition is_space :: "byte \<Rightarrow> bool" where
  "is_space c \<longleftrightarrow> c = 0x20 \<or> c = 0x09 \<or> c = 0x0d \<or> c = 0x0a"

text \<open>The loop of \<open>EVP_DecodeUpdate\<close>: whether it ended without an error, and the bytes written.\<close>

fun decode_loop :: "EVP_ENCODE_CTX \<Rightarrow> byte list \<Rightarrow> byte list \<Rightarrow> bool \<times> EVP_ENCODE_CTX \<times> byte list" where
  "decode_loop ctx out [] = (True, ctx, out)"
| "decode_loop ctx out (c # inp) =
     (if is_space c then decode_loop ctx out inp
      else if eof_seen ctx then (False, ctx\<lparr>error_encountered := True\<rparr>, out)
      else let ctx = ctx\<lparr>data := (data ctx)[data_used ctx := c], data_used := data_used ctx + 1\<rparr>
           in if data_used ctx = 4
              then (case base64_decode_quad (data ctx ! 0) (data ctx ! 1) (data ctx ! 2) (data ctx ! 3) of
                      None \<Rightarrow> (False, ctx\<lparr>error_encountered := True\<rparr>, out)
                    | Some bs \<Rightarrow>
                        decode_loop (ctx\<lparr>data_used := 0, eof_seen := eof_seen ctx \<or> length bs < 3\<rparr>)
                          (out @ bs) inp)
              else decode_loop ctx out inp)"

text \<open>The context, the bytes written, \<open>*out_len\<close> and the return value.\<close>

definition EVP_DecodeUpdate ::
  "EVP_ENCODE_CTX \<Rightarrow> byte list \<Rightarrow> EVP_ENCODE_CTX \<times> byte list \<times> nat \<times> int" where
  "EVP_DecodeUpdate ctx inp =
     (if error_encountered ctx then (ctx, [], 0, -1)
      else case decode_loop ctx [] inp of
        (False, ctx, out) \<Rightarrow> (ctx, out, 0, -1)
      | (True, ctx, out) \<Rightarrow>
          if length out > INT_MAX then (ctx\<lparr>error_encountered := True\<rparr>, out, 0, -1)
          else (ctx, out, length out, if eof_seen ctx then 0 else 1))"

definition EVP_DecodeFinal :: "EVP_ENCODE_CTX \<Rightarrow> int" where
  "EVP_DecodeFinal ctx = (if error_encountered ctx \<or> data_used ctx \<noteq> 0 then -1 else 1)"

fun decode_quads :: "byte list \<Rightarrow> byte list option" where
  "decode_quads (a # b # c # d # inp) =
     (case base64_decode_quad a b c d of None \<Rightarrow> None | Some bs \<Rightarrow>
        if length bs \<noteq> 3 \<and> inp \<noteq> [] then None
        else map_option ((@) bs) (decode_quads inp))"
| "decode_quads inp = Some []"

definition EVP_DecodeBase64 :: "nat \<Rightarrow> byte list \<Rightarrow> byte list option" where
  "EVP_DecodeBase64 max_out inp =
     (if length inp mod 4 \<noteq> 0 then None
      else case EVP_DecodedLength (length inp) of
             None \<Rightarrow> None
           | Some max_len \<Rightarrow> if max_out < max_len then None else decode_quads inp)"

definition EVP_DecodeBlock :: "byte list \<Rightarrow> int \<times> byte list" where
  "EVP_DecodeBlock src =
     (let src = dropWhile (\<lambda>c. c = 0x20 \<or> c = 0x09) src;
          src = rev (dropWhile is_space (rev src))
      in case EVP_DecodedLength (length src) of
           None \<Rightarrow> (-1, [])
         | Some dst_len \<Rightarrow>
             if dst_len > INT_MAX then (-1, [])
             else (case EVP_DecodeBase64 dst_len src of
                     None \<Rightarrow> (-1, [])
                   | Some dst \<Rightarrow>
                       let dst = dst @ replicate ((3 - length dst mod 3) mod 3) 0
                       in (int (length dst), dst)))"

section \<open>The constant-time primitives compare\<close>

lemma msb_w_eq: "constant_time_msb_w a = (if unat a < 2 ^ 63 then 0 else -1)"
proof -
  have d: "unat (drop_bit 63 a) = unat a div 2 ^ 63" by (rule unat_drop_bit)
  show ?thesis
  proof (cases "unat a < 2 ^ 63")
    case True
    then show ?thesis using d by (simp add: constant_time_msb_w_def drop_bit_eq_0_nat)
  next
    case False
    then have "unat a div 2 ^ 63 = 1" using unat_bound [of a] by (intro div_nat_eqI) simp_all
    with d have "drop_bit 63 a = 1" by (simp add: word_unat_eq_iff)
    with False show ?thesis by (simp add: constant_time_msb_w_def)
  qed
qed

lemma ucast_minus_1 [simp]: "(ucast (-1 :: u64) :: byte) = -1"
  by (rule bit_word_eqI) (simp add: bit_simps)

lemma ucast_ucast_byte [simp]: "(ucast (ucast (m :: byte) :: u64) :: byte) = m"
  by (rule bit_word_eqI) (simp add: bit_simps)

lemma lt_args_8_eq: "constant_time_lt_args_8 a b = (if a < b then -1 else 0)"
proof -
  have u: "unat (ucast a :: u64) = unat a" "unat (ucast b :: u64) = unat b" by simp_all
  have "unat (ucast a - ucast b :: u64) < 2 ^ 63 \<longleftrightarrow> \<not> unat a < unat b"
  proof (cases "unat b \<le> unat a")
    case True
    then have "unat (ucast a - ucast b :: u64) = unat a - unat b"
      by (simp add: unat_sub word_le_nat_alt)
    moreover have "unat a - unat b \<le> 255" using byte_bound [of a] by linarith
    then have "unat a - unat b < 2 ^ 63" by (rule le_less_trans) simp
    ultimately show ?thesis using True by simp
  next
    case False
    then have "unat (ucast a - ucast b :: u64) = 2 ^ 64 + unat a - unat b"
      by (simp add: unat_sub_if')
    moreover have "unat b \<le> 255" using byte_bound [of b] by linarith
    then have "2 ^ 63 \<le> 2 ^ 64 + unat a - unat b" by simp
    ultimately show ?thesis using False by simp
  qed
  then show ?thesis
    by (simp add: constant_time_lt_args_8_def msb_w_eq word_less_nat_alt)
qed

lemma bit_63: "bit (x :: u64) 63 \<longleftrightarrow> 2 ^ 63 \<le> unat x"
proof -
  have "bit x 63 \<longleftrightarrow> odd (unat x div 2 ^ 63)"
    by (metis bit_iff_odd bit_unsigned_iff possible_bit_nat)
  also have "\<dots> \<longleftrightarrow> 2 ^ 63 \<le> unat x"
  proof (cases "2 ^ 63 \<le> unat x")
    case True
    then have "unat x div 2 ^ 63 = 1" using unat_bound [of x] by (intro div_nat_eqI) simp_all
    with True show ?thesis by simp
  qed simp
  finally show ?thesis .
qed

lemma eq_8_eq: "constant_time_eq_8 a b = (if a = b then -1 else 0)"
proof -
  define x where "x = a XOR b"
  have "x XOR b = a" by (simp only: x_def xor.assoc xor_self_eq xor.right_neutral)
  then have x0: "(x = 0) = (a = b)" by (auto simp: x_def)
  have "2 ^ 63 \<le> unat (NOT x AND (x - 1)) \<longleftrightarrow> x = 0"
  proof (cases "x = 0")
    case True
    have "(2::nat) ^ 63 \<le> unat (-1 :: u64)" by (simp add: unsigned_minus_1_eq_mask mask_eq_exp_minus_1)
    with True show ?thesis by simp
  next
    case False
    have "\<not> bit (NOT x AND (x - 1)) 63"
    proof
      assume "bit (NOT x AND (x - 1)) 63"
      then have "\<not> bit x 63" "bit (x - 1) 63" by (auto simp: bit_simps)
      then have "unat x < 2 ^ 63" "2 ^ 63 \<le> unat (x - 1)" by (simp_all add: bit_63)
      then show False using unat_minus_one [OF False] by linarith
    qed
    with False show ?thesis by (simp only: bit_63 simp_thms)
  qed
  with x0 show ?thesis
    unfolding constant_time_eq_8_def constant_time_eq_w_def constant_time_is_zero_w_def
      x_def [symmetric] msb_w_eq by (auto simp: not_less)
qed

lemma select_8_eq [simp]:
  "constant_time_select_8 (ucast (if P then -1 else 0 :: byte)) a b = (if P then a else b)"
  by (simp add: constant_time_select_8_def Let_def)

lemma in_range_8_eq:
  assumes "lo \<le> hi" "hi - lo < 0xff"
  shows "constant_time_in_range_8 a lo hi = (if lo \<le> a \<and> a \<le> hi then -1 else 0)"
proof -
  have d: "unat (hi - lo) = unat hi - unat lo"
    using assms(1) by (simp add: unat_sub word_le_nat_alt)
  have "unat (hi - lo) < 255" using assms(2) by (simp add: word_less_nat_alt)
  then have "unat (hi - lo + 1) = unat hi - unat lo + 1"
    unfolding d [symmetric] by (simp add: unat_word_ariths)
  then have "a - lo < hi - lo + 1 \<longleftrightarrow> lo \<le> a \<and> a \<le> hi"
  proof (cases "lo \<le> a")
    case True
    then have "unat (a - lo) = unat a - unat lo" by (simp add: unat_sub word_le_nat_alt)
    with True \<open>unat (hi - lo + 1) = unat hi - unat lo + 1\<close> assms(1) show ?thesis
      by (auto simp: word_less_nat_alt word_le_nat_alt)
  next
    case False
    then have "unat (a - lo) = unat a + 256 - unat lo"
      using unat_sub_if' [of a lo] by (simp add: word_le_nat_alt)
    then have "unat hi - unat lo + 1 \<le> unat (a - lo)"
      using byte_bound [of lo] byte_bound [of hi] by linarith
    with False \<open>unat (hi - lo + 1) = unat hi - unat lo + 1\<close> show ?thesis
      by (simp add: word_less_nat_alt)
  qed
  then show ?thesis by (simp add: constant_time_in_range_8_def lt_args_8_eq)
qed

section \<open>The alphabet\<close>

definition b64_char :: "nat \<Rightarrow> nat" where
  "b64_char x = (if x < 26 then 65 + x else if x < 52 then 71 + x else if x < 62 then x - 4
                 else if x = 62 then 43 else 47)"

definition b64_value :: "nat \<Rightarrow> nat" where
  "b64_value c = (if 65 \<le> c \<and> c \<le> 90 then c - 65 else if 97 \<le> c \<and> c \<le> 122 then c - 71
                  else if 48 \<le> c \<and> c \<le> 57 then c + 4 else if c = 43 then 62
                  else if c = 47 then 63 else if c = 61 then 0 else 255)"

lemma b64_value_char: "x < 64 \<Longrightarrow> b64_value (b64_char x) = x"
  by (auto simp: b64_char_def b64_value_def)

lemma b64_char_bound: "x < 64 \<Longrightarrow> b64_char x < 128 \<and> b64_char x \<noteq> 61 \<and> 33 \<le> b64_char x"
  by (auto simp: b64_char_def)

lemma conv_bin2ascii_eq: "conv_bin2ascii a = of_nat (b64_char (unat a mod 64))"
proof -
  define x where "x = unat a mod 64"
  have x: "x < 64" by (simp add: x_def)
  have "unat (a AND mask 6) = x" using unat_and_mask [of a 6] by (simp add: x_def)
  moreover have "mask 6 = (0x3f :: byte)" by (simp add: mask_eq_exp_minus_1)
  ultimately have a: "a AND 0x3f = of_nat x" by (metis word_eq_of_nat)
  have u: "unat (of_nat x :: byte) = x" using x by (simp add: unat_of_nat_byte)
  have lt: "of_nat x < (62 :: byte) \<longleftrightarrow> x < 62" "of_nat x < (52 :: byte) \<longleftrightarrow> x < 52"
    "of_nat x < (26 :: byte) \<longleftrightarrow> x < 26"
    by (simp_all add: word_less_nat_alt u)
  have eq: "(ucast (of_nat x :: byte) :: u64) = 62 \<longleftrightarrow> x = 62"
    by (simp add: word_unat_eq_iff u)
  have "conv_bin2ascii a =
    (if x < 26 then of_nat x + 0x41 else if x < 52 then of_nat x - 26 + 0x61
     else if x < 62 then of_nat x - 52 + 0x30 else if x = 62 then 0x2b else 0x2f)"
    unfolding conv_bin2ascii_def Let_def a eq_8_eq lt_args_8_eq select_8_eq lt eq ..
  also have "\<dots> = of_nat (b64_char x)"
    by (auto simp: b64_char_def of_nat_diff)
  finally show ?thesis by (simp only: x_def)
qed

lemma base64_ascii_to_bin_eq: "base64_ascii_to_bin c = of_nat (b64_value (unat c))"
proof -
  define n where "n = unat c"
  have n: "n < 256" by (simp add: n_def)
  have c: "c = of_nat n" by (simp add: n_def)
  have rng: "constant_time_in_range_8 c 0x41 0x5a = (if 65 \<le> n \<and> n \<le> 90 then -1 else 0)"
    "constant_time_in_range_8 c 0x61 0x7a = (if 97 \<le> n \<and> n \<le> 122 then -1 else 0)"
    "constant_time_in_range_8 c 0x30 0x39 = (if 48 \<le> n \<and> n \<le> 57 then -1 else 0)"
    by (simp_all add: in_range_8_eq word_le_nat_alt n_def)
  have eq: "constant_time_eq_8 (ucast c) 0x2b = (if n = 43 then -1 else 0)"
    "constant_time_eq_8 (ucast c) 0x2f = (if n = 47 then -1 else 0)"
    "constant_time_eq_8 (ucast c) 0x3d = (if n = 61 then -1 else 0)"
    by (simp_all add: eq_8_eq word_unat_eq_iff n_def)
  consider "65 \<le> n \<and> n \<le> 90" | "97 \<le> n \<and> n \<le> 122" | "48 \<le> n \<and> n \<le> 57" | "n = 43" | "n = 47" | "n = 61"
    | "\<not> (65 \<le> n \<and> n \<le> 90)" "\<not> (97 \<le> n \<and> n \<le> 122)" "\<not> (48 \<le> n \<and> n \<le> 57)" "n \<noteq> 43" "n \<noteq> 47" "n \<noteq> 61"
    by blast
  note classes = this
  have def: "base64_ascii_to_bin c =
    (if U then c - 0x41 else 0) OR (if L then c - 0x61 + 26 else 0) OR (if D then c - 0x30 + 52 else 0)
      OR (if P then 62 else 0) OR (if S then 63 else 0)
      OR (if U \<or> L \<or> D \<or> P \<or> S \<or> E then 0 else -1)"
    if "U = (65 \<le> n \<and> n \<le> 90)" "L = (97 \<le> n \<and> n \<le> 122)" "D = (48 \<le> n \<and> n \<le> 57)"
      "P = (n = 43)" "S = (n = 47)" "E = (n = 61)" for U L D P S E
    unfolding base64_ascii_to_bin_def Let_def rng eq that [symmetric]
    by (cases U; cases L; cases D; cases P; cases S; cases E) (simp_all add: or.assoc)
  from classes have "base64_ascii_to_bin c = of_nat (b64_value n)"
    unfolding def [OF refl refl refl refl refl refl]
    by cases (auto simp: b64_value_def c of_nat_diff)
  then show ?thesis by (simp only: n_def)
qed

section \<open>Quads\<close>

text \<open>The four 6-bit digits of a 24-bit number.\<close>

definition digits64 :: "nat \<Rightarrow> nat list" where
  "digits64 l = [l div 2 ^ 18 mod 64, l div 2 ^ 12 mod 64, l div 2 ^ 6 mod 64, l mod 64]"

lemma digits64_sum:
  fixes l :: nat
  assumes "l < 2 ^ 24"
  shows "l div 2 ^ 18 mod 64 * 2 ^ 18 + (l div 2 ^ 12 mod 64 * 2 ^ 12 + (l div 2 ^ 6 mod 64 * 2 ^ 6 + l mod 64)) = l"
proof -
  have "l div 262144 < 64" using assms by (simp add: less_mult_imp_div_less)
  then have "l div 262144 mod 64 = l div 262144" by simp
  moreover have "l div 64 div 64 = l div 4096" "l div 4096 div 64 = l div 262144"
    by (simp_all flip: div_mult2_eq)
  moreover note mult_div_mod_eq [of 64 l] mult_div_mod_eq [of 64 "l div 64"] mult_div_mod_eq [of 64 "l div 4096"]
  ultimately have "l div 262144 mod 64 * 262144 +
      (l div 4096 mod 64 * 4096 + (l div 64 mod 64 * 64 + l mod 64)) = l"
    by linarith
  moreover have "(2::nat) ^ 18 = 262144" "(2::nat) ^ 12 = 4096" "(2::nat) ^ 6 = 64" by simp_all
  ultimately show ?thesis by (simp only:)
qed

lemma unat_triple:
  fixes a b c :: byte
  defines "l \<equiv> push_bit 16 (ucast a) OR push_bit 8 (ucast b) OR ucast c :: u32"
  shows "unat l = unat a * 2 ^ 16 + unat b * 2 ^ 8 + unat c"
proof -
  note bnd = byte_le [of a] byte_le [of b] byte_le [of c]
  have bc: "unat (push_bit 8 (ucast b) OR ucast c :: u32) = unat b * 2 ^ 8 + unat c"
    by (rule unat_shift_or [of "ucast c :: u32" 8 "ucast b", unfolded unat_ucast_byte])
      (use bnd in simp_all)
  have "unat b * 2 ^ 8 + unat c < 2 ^ 16" "unat a * 2 ^ 16 < 2 ^ 32" using bnd by simp_all
  then have "unat (push_bit 16 (ucast a) OR (push_bit 8 (ucast b) OR ucast c) :: u32) =
      unat a * 2 ^ 16 + (unat b * 2 ^ 8 + unat c)"
    using unat_shift_or [of "push_bit 8 (ucast b) OR ucast c :: u32" 16 "ucast a"] bc
    by (simp only: unat_ucast_byte) simp
  then show ?thesis by (simp only: l_def or.assoc add.assoc)
qed

lemma unat_quad:
  fixes a b c d :: byte
  defines "v \<equiv> push_bit 18 (ucast a) OR push_bit 12 (ucast b) OR push_bit 6 (ucast c) OR ucast d :: u32"
  assumes "unat a < 64" "unat b < 64" "unat c < 64" "unat d < 64"
  shows "unat v = unat a * 2 ^ 18 + (unat b * 2 ^ 12 + (unat c * 2 ^ 6 + unat d))"
proof -
  have cd: "unat (push_bit 6 (ucast c) OR ucast d :: u32) = unat c * 2 ^ 6 + unat d"
    using assms(2-) unat_shift_or [of "ucast d :: u32" 6 "ucast c"] by simp
  have "unat c * 2 ^ 6 + unat d < 2 ^ 12" "unat b * 2 ^ 12 < 2 ^ 32" using assms(2-) by simp_all
  then have bcd: "unat (push_bit 12 (ucast b) OR (push_bit 6 (ucast c) OR ucast d) :: u32) =
      unat b * 2 ^ 12 + (unat c * 2 ^ 6 + unat d)"
    using unat_shift_or [of "push_bit 6 (ucast c) OR ucast d :: u32" 12 "ucast b"] cd
    by (simp only: unat_ucast_byte) simp
  have "unat b * 2 ^ 12 + (unat c * 2 ^ 6 + unat d) < 2 ^ 18" "unat a * 2 ^ 18 < 2 ^ 32"
    using assms(2-) by simp_all
  then have "unat (push_bit 18 (ucast a) OR (push_bit 12 (ucast b) OR (push_bit 6 (ucast c) OR ucast d)) :: u32) =
      unat a * 2 ^ 18 + (unat b * 2 ^ 12 + (unat c * 2 ^ 6 + unat d))"
    using unat_shift_or [of "push_bit 12 (ucast b) OR (push_bit 6 (ucast c) OR ucast d) :: u32" 18 "ucast a"] bcd
    by (simp only: unat_ucast_byte) simp
  then show ?thesis by (simp only: v_def or.assoc)
qed

lemma ucast_byte_32: "(ucast (v :: u32) :: byte) = of_nat (unat v)"
  by (simp add: word_unat_eq_iff unsigned_ucast_eq unat_of_nat take_bit_eq_mod)

lemma conv_ucast: "conv_bin2ascii (ucast (drop_bit k (l :: u32))) = of_nat (b64_char (unat l div 2 ^ k mod 64))"
  "conv_bin2ascii (ucast l) = of_nat (b64_char (unat l mod 64))"
proof -
  have m: "n mod 256 mod 64 = n mod 64" for n :: nat by (simp add: mod_mod_cancel)
  have "unat (ucast (drop_bit k l) :: byte) = unat l div 2 ^ k mod 256"
    by (simp only: ucast_byte_32 unat_of_nat_byte unat_drop_bit)
  then show "conv_bin2ascii (ucast (drop_bit k l)) = of_nat (b64_char (unat l div 2 ^ k mod 64))"
    by (simp only: conv_bin2ascii_eq m)
  have "unat (ucast l :: byte) = unat l mod 256"
    by (simp only: ucast_byte_32 unat_of_nat_byte)
  then show "conv_bin2ascii (ucast l) = of_nat (b64_char (unat l mod 64))"
    by (simp only: conv_bin2ascii_eq m)
qed

definition b64_byte :: "nat \<Rightarrow> byte" where
  "b64_byte x = of_nat (b64_char (x mod 64))"

lemma b64_byte [simp]:
  "base64_ascii_to_bin (b64_byte x) = of_nat (x mod 64)" "b64_byte x \<noteq> 0x3d" "\<not> is_space (b64_byte x)"
proof -
  have b: "b64_char (x mod 64) < 128" "b64_char (x mod 64) \<noteq> 61" "33 \<le> b64_char (x mod 64)"
    using b64_char_bound [of "x mod 64"] by simp_all
  then have u: "unat (b64_byte x) = b64_char (x mod 64)"
    by (simp add: b64_byte_def unat_of_nat_byte)
  show "base64_ascii_to_bin (b64_byte x) = of_nat (x mod 64)"
    by (simp add: base64_ascii_to_bin_eq u b64_value_char)
  show "b64_byte x \<noteq> 0x3d" "\<not> is_space (b64_byte x)"
    using u b by (auto simp: is_space_def word_unat_eq_iff)
qed

lemma pad_value [simp]: "base64_ascii_to_bin 0x3d = 0"
  by (simp add: base64_ascii_to_bin_eq b64_value_def)

text \<open>What the encoder writes for one, two and three bytes, and that the decoder reads it back.\<close>

lemma encode_loop_3:
  "encode_loop (a # b # c # src) =
   (let l = unat a * 2 ^ 16 + unat b * 2 ^ 8 + unat c
    in [b64_byte (l div 2 ^ 18), b64_byte (l div 2 ^ 12), b64_byte (l div 2 ^ 6), b64_byte l]) @ encode_loop src"
  by (simp only: encode_loop.simps Let_def conv_ucast unat_drop_bit unat_triple b64_byte_def append_Cons append_Nil)

lemma encode_loop_2:
  "encode_loop [a, b] =
   (let l = unat a * 2 ^ 16 + unat b * 2 ^ 8
    in [b64_byte (l div 2 ^ 18), b64_byte (l div 2 ^ 12), b64_byte (l div 2 ^ 6), 0x3d])"
  using unat_triple [of a b 0]
  by (simp only: encode_loop.simps Let_def conv_ucast unat_drop_bit b64_byte_def append_Cons append_Nil
      ucast_0 or.right_neutral unat_0 add_0_right)

lemma encode_loop_1:
  "encode_loop [a] =
   (let l = unat a * 2 ^ 16
    in [b64_byte (l div 2 ^ 18), b64_byte (l div 2 ^ 12), 0x3d, 0x3d])"
  using unat_triple [of a 0 0]
  by (simp only: encode_loop.simps Let_def conv_ucast unat_drop_bit b64_byte_def append_Cons append_Nil
      ucast_0 or.right_neutral unat_0 add_0_right push_bit_of_0 mult_zero_left)

lemma decode_v:
  assumes "l < 2 ^ 24"
  defines "v \<equiv> push_bit 18 (ucast (of_nat (l div 2 ^ 18 mod 64) :: byte)) OR
      push_bit 12 (ucast (of_nat (l div 2 ^ 12 mod 64) :: byte)) OR
      push_bit 6 (ucast (of_nat (l div 2 ^ 6 mod 64) :: byte)) OR ucast (of_nat (l mod 64) :: byte) :: u32"
  shows "unat v = l"
proof -
  have u: "unat (of_nat (n mod 64) :: byte) = n mod 64" for n :: nat
    unfolding unat_of_nat_byte by (intro mod_less less_trans [OF mod_less_divisor]) simp_all
  have "unat v = l div 2 ^ 18 mod 64 * 2 ^ 18 + (l div 2 ^ 12 mod 64 * 2 ^ 12 + (l div 2 ^ 6 mod 64 * 2 ^ 6 + l mod 64))"
    unfolding v_def by (subst unat_quad) (simp_all only: u mod_less_divisor zero_less_numeral)
  with digits64_sum [OF assms(1)] show ?thesis by (simp only:)
qed

lemma six_bit_valid: "(of_nat (n mod 64) :: byte) \<noteq> 0xff"
proof -
  have "unat (of_nat (n mod 64) :: byte) = n mod 64"
    unfolding unat_of_nat_byte by (intro mod_less less_trans [OF mod_less_divisor]) simp_all
  moreover have "n mod 64 < 64" by simp
  ultimately show ?thesis by (auto simp: word_unat_eq_iff)
qed

lemma decode_quad_4:
  assumes "l < 2 ^ 24"
  shows "base64_decode_quad (b64_byte (l div 2 ^ 18)) (b64_byte (l div 2 ^ 12)) (b64_byte (l div 2 ^ 6)) (b64_byte l)
    = Some [of_nat (l div 2 ^ 16), of_nat (l div 2 ^ 8), of_nat l]"
  unfolding base64_decode_quad_def Let_def b64_byte(1) ucast_byte_32 unat_drop_bit decode_v [OF assms]
  by (simp add: six_bit_valid)

lemma decode_quad_3:
  assumes "l < 2 ^ 24" "l mod 64 = 0"
  shows "base64_decode_quad (b64_byte (l div 2 ^ 18)) (b64_byte (l div 2 ^ 12)) (b64_byte (l div 2 ^ 6)) 0x3d
    = Some [of_nat (l div 2 ^ 16), of_nat (l div 2 ^ 8)]"
proof -
  have "base64_ascii_to_bin 0x3d = of_nat (l mod 64)" using assms(2) by simp
  then show ?thesis
    unfolding base64_decode_quad_def Let_def b64_byte(1)
    by (simp only: ucast_byte_32 unat_drop_bit decode_v [OF assms(1)] six_bit_valid) simp
qed

lemma decode_quad_2:
  assumes "l < 2 ^ 24" "l mod 2 ^ 12 = 0"
  shows "base64_decode_quad (b64_byte (l div 2 ^ 18)) (b64_byte (l div 2 ^ 12)) 0x3d 0x3d
    = Some [of_nat (l div 2 ^ 16)]"
proof -
  have "l = 2 ^ 12 * (l div 2 ^ 12)" using assms(2) mult_div_mod_eq [of "2 ^ 12" l] by simp
  then obtain m where m: "l = 2 ^ 12 * m" ..
  have "l mod 64 = 0" "l div 2 ^ 6 mod 64 = 0" unfolding m by simp_all
  then have "base64_ascii_to_bin 0x3d = of_nat (l mod 64)"
    "base64_ascii_to_bin 0x3d = of_nat (l div 2 ^ 6 mod 64)"
    by simp_all
  then have "base64_decode_quad (b64_byte (l div 2 ^ 18)) (b64_byte (l div 2 ^ 12)) 0x3d 0x3d =
     (let v = push_bit 18 (ucast (of_nat (l div 2 ^ 18 mod 64) :: byte)) OR
      push_bit 12 (ucast (of_nat (l div 2 ^ 12 mod 64) :: byte)) OR
      push_bit 6 (ucast (of_nat (l div 2 ^ 6 mod 64) :: byte)) OR ucast (of_nat (l mod 64) :: byte) :: u32
      in Some [ucast (drop_bit 16 v)])"
    using six_bit_valid [of "l div 2 ^ 18"] six_bit_valid [of "l div 2 ^ 12"]
    unfolding base64_decode_quad_def Let_def b64_byte(1) by (simp add: b64_byte(2))
  then show ?thesis
    by (simp only: Let_def ucast_byte_32 unat_drop_bit decode_v [OF assms(1)])
qed

lemma of_nat_bytes:
  fixes a b c :: byte
  defines "l \<equiv> unat a * 2 ^ 16 + unat b * 2 ^ 8 + unat c"
  shows "of_nat (l div 2 ^ 16) = a" "of_nat (l div 2 ^ 8) = b" "of_nat l = c" "l < 2 ^ 24"
proof -
  note bnd = byte_le [of a] byte_le [of b] byte_le [of c]
  have l: "l = (unat a * 256 + unat b) * 256 + unat c" by (simp add: l_def)
  then have b: "l div 2 ^ 8 = unat a * 256 + unat b" using bnd by simp
  have "l div 2 ^ 16 = l div 2 ^ 8 div 2 ^ 8" by (simp flip: div_mult2_eq)
  also have "\<dots> = unat a" using bnd by (simp only: b) simp
  finally have "l div 2 ^ 16 = unat a" .
  then show "of_nat (l div 2 ^ 16) = a" by simp
  show "of_nat (l div 2 ^ 8) = b" by (simp only: b of_nat_byte_tail)
  show "of_nat l = c" by (simp only: l of_nat_byte_tail)
  show "l < 2 ^ 24" using bnd by (simp add: l_def)
qed

text \<open>A quad carries up to three bytes.\<close>

fun quad :: "byte list \<Rightarrow> byte list" where
  "quad [a, b, c] =
     (let l = unat a * 2 ^ 16 + unat b * 2 ^ 8 + unat c
      in [b64_byte (l div 2 ^ 18), b64_byte (l div 2 ^ 12), b64_byte (l div 2 ^ 6), b64_byte l])"
| "quad [a, b] =
     (let l = unat a * 2 ^ 16 + unat b * 2 ^ 8
      in [b64_byte (l div 2 ^ 18), b64_byte (l div 2 ^ 12), b64_byte (l div 2 ^ 6), 0x3d])"
| "quad [a] =
     (let l = unat a * 2 ^ 16 in [b64_byte (l div 2 ^ 18), b64_byte (l div 2 ^ 12), 0x3d, 0x3d])"
| "quad _ = []"

lemma encode_loop_quad:
  "encode_loop (a # b # c # src) = quad [a, b, c] @ encode_loop src"
  "encode_loop [a, b] = quad [a, b]" "encode_loop [a] = quad [a]"
  by (simp_all only: encode_loop_3 encode_loop_2 encode_loop_1 quad.simps)

lemma decode_quad:
  assumes "1 \<le> length bs" "length bs \<le> 3"
  obtains w x y z where "quad bs = [w, x, y, z]" "base64_decode_quad w x y z = Some bs"
    "\<not> is_space w" "\<not> is_space x" "\<not> is_space y" "\<not> is_space z"
proof -
  have pad: "\<not> is_space 0x3d" by (simp add: is_space_def)
  consider a b c where "bs = [a, b, c]" | a b where "bs = [a, b]" | a where "bs = [a]"
    using assms by (cases bs; cases "tl bs"; cases "tl (tl bs)") auto
  then show ?thesis
  proof cases
    case 1
    note n = of_nat_bytes [of a b c]
    show ?thesis
      by (rule that [of _ _ _ _, OF 1 [THEN arg_cong [of _ _ quad], unfolded quad.simps Let_def]])
        (simp_all only: decode_quad_4 [OF n(4)] n 1 b64_byte(3) not_False_eq_True)
  next
    case 2
    note n = of_nat_bytes [of a b 0, unfolded unat_0 add_0_right]
    have "(unat a * 2 ^ 16 + unat b * 2 ^ 8) mod 64 = 0"
      using mod_mult_self2_is_0 [of "unat a * 1024 + unat b * 4" 64] by (simp add: algebra_simps)
    then show ?thesis
      using that [of _ _ _ _, OF 2 [THEN arg_cong [of _ _ quad], unfolded quad.simps Let_def]]
      by (simp only: decode_quad_3 [OF n(4)] n 2 b64_byte(3) pad not_False_eq_True)
  next
    case 3
    note n = of_nat_bytes [of a 0 0, unfolded unat_0 add_0_right mult_zero_left]
    have "(unat a * 2 ^ 16) mod 2 ^ 12 = 0"
      using mod_mult_self2_is_0 [of "unat a * 16" "2 ^ 12"] by (simp add: algebra_simps)
    then show ?thesis
      using that [of _ _ _ _, OF 3 [THEN arg_cong [of _ _ quad], unfolded quad.simps Let_def]]
      by (simp only: decode_quad_2 [OF n(4)] n 3 b64_byte(3) pad not_False_eq_True)
  qed
qed

section \<open>Round trip\<close>

text \<open>The bytes in groups of three, and the same for the code's quads.\<close>

fun triples :: "'a list \<Rightarrow> 'a list list" where
  "triples [] = []"
| "triples [a] = [[a]]"
| "triples [a, b] = [[a, b]]"
| "triples (a # b # c # xs) = [a, b, c] # triples xs"

lemma concat_triples [simp]: "concat (triples xs) = xs"
  by (induction xs rule: triples.induct) simp_all

lemma triples_length: "t \<in> set (triples xs) \<Longrightarrow> 1 \<le> length t \<and> length t \<le> 3"
  by (induction xs rule: triples.induct) auto

lemma triples_full: "triples xs = us @ t # vs \<Longrightarrow> vs \<noteq> [] \<Longrightarrow> length t = 3"
proof (induction xs arbitrary: us rule: triples.induct)
  case (4 a b c xs)
  then show ?case by (cases us) auto
qed (auto simp: Cons_eq_append_conv)

lemma encode_loop_triples: "encode_loop xs = concat (map quad (triples xs))"
  by (induction xs rule: triples.induct) (simp_all only: triples.simps list.map concat.simps
      encode_loop_quad encode_loop.simps(4) append_Nil2)

lemma length_encode_loop: "length (encode_loop xs) = 4 * ((length xs + 2) div 3)"
proof (induction xs rule: triples.induct)
  case (4 a b c xs)
  have "length (quad [a, b, c]) = 4" by (simp add: Let_def)
  moreover have "(length (a # b # c # xs) + 2) div 3 = Suc ((length xs + 2) div 3)" by simp
  ultimately show ?case using 4 by (simp only: encode_loop_quad length_append) simp
qed (simp_all add: Let_def)

lemma decode_quads_quads:
  assumes "\<And>us t vs. ts = us @ t # vs \<Longrightarrow> 1 \<le> length t \<and> length t \<le> 3 \<and> (vs \<noteq> [] \<longrightarrow> length t = 3)"
  shows "decode_quads (concat (map quad ts)) = Some (concat ts)"
  using assms
proof (induction ts)
  case (Cons t ts)
  have t: "1 \<le> length t" "length t \<le> 3" "ts \<noteq> [] \<longrightarrow> length t = 3"
    using Cons.prems [of "[]" t ts] by auto
  have "decode_quads (concat (map quad ts)) = Some (concat ts)"
  proof (rule Cons.IH)
    fix us u vs assume "ts = us @ u # vs"
    then show "1 \<le> length u \<and> length u \<le> 3 \<and> (vs \<noteq> [] \<longrightarrow> length u = 3)"
      using Cons.prems [of "t # us" u vs] by simp
  qed
  moreover obtain w x y z where "quad t = [w, x, y, z]" "base64_decode_quad w x y z = Some t"
    using decode_quad [OF t(1,2)] by metis
  moreover have "ts = [] \<Longrightarrow> concat (map quad ts) = []" by simp
  ultimately show ?case using t(3) by (cases "ts = []") auto
qed simp

lemma decode_encode_loop: "decode_quads (encode_loop xs) = Some xs"
proof -
  have "decode_quads (concat (map quad (triples xs))) = Some (concat (triples xs))"
  proof (rule decode_quads_quads)
    fix us t vs assume t: "triples xs = us @ t # vs"
    then have "t \<in> set (triples xs)" by simp
    from triples_length [OF this] triples_full [OF t]
    show "1 \<le> length t \<and> length t \<le> 3 \<and> (vs \<noteq> [] \<longrightarrow> length t = 3)" by blast
  qed
  then show ?thesis by (simp add: encode_loop_triples)
qed

lemma EVP_DecodeBase64_encode:
  assumes "4 * ((length xs + 2) div 3) div 4 * 3 \<le> max_out"
  shows "EVP_DecodeBase64 max_out (encode_loop xs) = Some xs"
  using assms by (simp add: EVP_DecodeBase64_def EVP_DecodedLength_def length_encode_loop decode_encode_loop)

lemma encode_loop_append:
  "3 dvd length xs \<Longrightarrow> encode_loop (xs @ ys) = encode_loop xs @ encode_loop ys"
proof (induction xs rule: triples.induct)
  case (4 a b c xs)
  then have "3 dvd length xs" by (simp add: dvd_def) presburger
  with 4 show ?case by (simp only: append_Cons encode_loop_quad) simp
next
  case (3 a b)
  have "\<not> 3 dvd (2 :: nat)" by simp
  moreover have "length [a, b] = 2" by simp
  ultimately show ?case using 3 by (simp only:)
qed simp_all

lemma quad_not_space: "1 \<le> length t \<Longrightarrow> length t \<le> 3 \<Longrightarrow> \<forall>c \<in> set (quad t). \<not> is_space c"
  using decode_quad [of t] by (metis empty_iff empty_set insert_iff list.simps(15))

lemma encode_loop_not_space: "c \<in> set (encode_loop xs) \<Longrightarrow> \<not> is_space c"
  using quad_not_space triples_length by (fastforce simp: encode_loop_triples)

text \<open>The exact length, when the arithmetic on \<open>size_t\<close> does not wrap.\<close>

lemma EVP_EncodedLength_eq:
  "EVP_EncodedLength n =
   (if 4 * ((unat n + 2) div 3) + 1 < 2 ^ 64 then Some (of_nat (4 * ((unat n + 2) div 3) + 1)) else None)"
proof -
  define m where "m = (unat n + 2) div 3"
  have n: "unat n < 2 ^ 64" using unat_bound [of n] by simp
  show ?thesis
  proof (cases "unat n + 2 < 2 ^ 64")
    case False
    then have "unat (n + 2) = unat n + 2 - 2 ^ 64" using n by (simp add: unat_word_ariths le_mod_geq)
    then have "n + 2 < n" using n False by (simp add: word_less_nat_alt)
    moreover have "(2 ^ 64) div 3 \<le> m" unfolding m_def using False by (intro div_le_mono) simp
    then have "\<not> 4 * m + 1 < 2 ^ 64" by simp
    ultimately show ?thesis by (simp only: EVP_EncodedLength_def m_def if_True if_False)
  next
    case True
    then have un: "unat (n + 2) = unat n + 2" by (simp add: unat_word_ariths)
    define w where "w = (n + 2) div 3"
    have w: "unat w = m" by (simp add: w_def m_def unat_div un)
    have push: "unat (push_bit 2 w) = 4 * m mod 2 ^ 64"
      by (simp add: push_bit_eq_mult unat_word_ariths w mult.commute)
    have nle: "\<not> n + 2 < n" by (simp add: word_less_nat_alt un)
    show ?thesis
    proof (cases "4 * m < 2 ^ 64")
      case False
      have "4 * m mod 2 ^ 64 div 4 < 2 ^ 62" by (simp add: less_mult_imp_div_less)
      with False have "unat (drop_bit 2 (push_bit 2 w)) \<noteq> m" by (simp add: unat_drop_bit push)
      then have "drop_bit 2 (push_bit 2 w) \<noteq> w" using w by auto
      with False show ?thesis
        by (simp only: EVP_EncodedLength_def Let_def nle w_def [symmetric] m_def [symmetric] if_False)
          simp
    next
      case True
      then have p4: "unat (push_bit 2 w) = 4 * m" using push by simp
      then have d: "drop_bit 2 (push_bit 2 w) = w" using w by (simp add: word_unat_eq_iff unat_drop_bit)
      have "4 * m + 1 < 2 ^ 64" using True by simp
      then have "unat (push_bit 2 w + 1) = 4 * m + 1" by (simp add: unat_word_ariths p4)
      moreover from this have "\<not> push_bit 2 w + 1 < push_bit 2 w" by (simp add: word_less_nat_alt p4)
      ultimately show ?thesis
        using \<open>4 * m + 1 < 2 ^ 64\<close> d
        by (simp only: EVP_EncodedLength_def Let_def nle w_def [symmetric] m_def [symmetric] if_False
            if_True not_True_eq_False option.inject word_eq_of_nat [OF \<open>unat (push_bit 2 w + 1) = 4 * m + 1\<close>] refl simp_thms)
    qed
  qed
qed

text \<open>Leading blanks and trailing white space are dropped; padding turns into zero bytes.\<close>

lemma dropWhile_all: "(\<forall>x \<in> set xs. P x) \<Longrightarrow> dropWhile P (xs @ ys) = dropWhile P ys"
  by (induction xs) auto

lemma dropWhile_none: "(\<forall>x \<in> set xs. \<not> P x) \<Longrightarrow> xs \<noteq> [] \<Longrightarrow> dropWhile P (xs @ ys) = xs @ ys"
  by (cases xs) auto

lemma EVP_DecodeBlock_encode:
  assumes pre: "\<forall>c \<in> set pre. c = 0x20 \<or> c = 0x09" and post: "\<forall>c \<in> set post. is_space c"
    and len: "(length xs + 2) div 3 * 3 \<le> INT_MAX"
  defines "padded \<equiv> xs @ replicate ((3 - length xs mod 3) mod 3) 0"
  shows "EVP_DecodeBlock (pre @ encode_loop xs @ post) = (int (length padded), padded)"
proof -
  let ?e = "encode_loop xs" and ?blank = "\<lambda>c :: byte. c = 0x20 \<or> c = 0x09"
  have sp: "\<forall>c \<in> set ?e. \<not> is_space c" using encode_loop_not_space by blast
  then have bl: "\<forall>c \<in> set ?e. \<not> ?blank c" by (auto simp: is_space_def)
  have "rev (dropWhile is_space (rev (dropWhile ?blank (pre @ ?e @ post)))) = ?e"
  proof (cases "?e = []")
    case True
    have "\<forall>c \<in> set (rev (dropWhile ?blank post)). is_space c"
      using post by (auto dest: set_dropWhileD)
    then have "dropWhile is_space (rev (dropWhile ?blank post)) = []" by (simp only: dropWhile_eq_Nil_conv)
    with True show ?thesis by (simp only: dropWhile_all [OF pre] append_Nil rev.simps)
  next
    case False
    have "\<forall>c \<in> set (rev post). is_space c" "\<forall>c \<in> set (rev ?e). \<not> is_space c" "rev ?e \<noteq> []"
      using post sp False by simp_all
    then have "dropWhile is_space (rev post @ rev ?e) = rev ?e"
      using dropWhile_none [OF \<open>\<forall>c \<in> set (rev ?e). \<not> is_space c\<close> \<open>rev ?e \<noteq> []\<close>, of "[]"]
      by (simp only: dropWhile_all append_Nil2)
    then show ?thesis
      by (simp only: dropWhile_all [OF pre] dropWhile_none [OF bl False] rev_append rev_rev_ident)
  qed
  moreover have "EVP_DecodedLength (length ?e) = Some ((length xs + 2) div 3 * 3)"
    by (simp add: EVP_DecodedLength_def length_encode_loop)
  moreover have "EVP_DecodeBase64 ((length xs + 2) div 3 * 3) ?e = Some xs"
    by (rule EVP_DecodeBase64_encode) simp
  ultimately show ?thesis
    using len unfolding EVP_DecodeBlock_def Let_def padded_def by simp
qed

section \<open>Streams\<close>

text \<open>The text of a byte string in lines of 48 bytes, and what is left for the next line.\<close>

function full_lines :: "byte list \<Rightarrow> byte list" where
  "full_lines xs =
     (if 48 \<le> length xs then encode_loop (take 48 xs) @ [0x0a] @ full_lines (drop 48 xs) else [])"
  by pat_completeness auto
termination by (relation "measure length") auto

function last_line :: "byte list \<Rightarrow> byte list" where
  "last_line xs = (if 48 \<le> length xs then last_line (drop 48 xs) else xs)"
  by pat_completeness auto
termination by (relation "measure length") auto

declare full_lines.simps [simp del] last_line.simps [simp del]

definition base64_lines :: "byte list \<Rightarrow> byte list" where
  "base64_lines xs = full_lines xs @
     (if last_line xs = [] then [] else encode_loop (last_line xs) @ [0x0a])"

lemma length_last_line: "length (last_line xs) < 48"
  by (induction xs rule: last_line.induct) (simp add: last_line.simps)

lemma full_lines_append: "full_lines (xs @ ys) = full_lines xs @ full_lines (last_line xs @ ys)"
proof (induction xs rule: full_lines.induct)
  case (1 xs)
  show ?case
  proof (cases "48 \<le> length xs")
    case True
    with 1 show ?thesis
      by (simp add: full_lines.simps [of "xs @ ys"] full_lines.simps [of xs] last_line.simps [of xs])
  qed (simp add: full_lines.simps [of xs] last_line.simps [of xs])
qed

lemma last_line_append: "last_line (xs @ ys) = last_line (last_line xs @ ys)"
proof (induction xs rule: full_lines.induct)
  case (1 xs)
  then show ?case
    by (cases "48 \<le> length xs") (simp_all add: last_line.simps [of "xs @ ys"] last_line.simps [of xs])
qed

text \<open>The encoder's context holds the bytes of the current line.\<close>

definition encode_ctx :: "EVP_ENCODE_CTX \<Rightarrow> byte list \<Rightarrow> bool" where
  "encode_ctx ctx pending \<longleftrightarrow> length (data ctx) = 48 \<and> data_used ctx = length pending \<and>
     length pending < 48 \<and> take (length pending) (data ctx) = pending"

lemma encode_blocks_eq:
  assumes "n + 2 * length xs < 2 ^ 63"
  shows "\<exists>m. encode_blocks out n xs = (out @ full_lines xs, Some (m, last_line xs)) \<and>
    m = n + length (full_lines xs)"
  using assms
proof (induction xs arbitrary: out n rule: full_lines.induct)
  case (1 xs)
  show ?case
  proof (cases "48 \<le> length xs")
    case True
    let ?e = "encode_loop (take 48 xs)"
    have e: "length ?e = 64" using True by (simp add: length_encode_loop)
    have "(n + 65) mod 2 ^ 64 = n + 65" using 1(2) True by simp
    moreover have "n + 65 + 2 * length (drop 48 xs) < 2 ^ 63" using 1(2) True by simp
    ultimately show ?thesis
      using 1(1) [OF True, of "n + 65" "out @ ?e @ [0x0a]"] True e
      by (simp add: encode_blocks.simps [of out n xs] full_lines.simps [of xs] last_line.simps [of xs]
          EVP_EncodeBlock_def add.commute [of 65] add.assoc)
  qed (simp add: encode_blocks.simps full_lines.simps [of xs] last_line.simps [of xs])
qed

lemma take_memcpy:
  "length a = k \<Longrightarrow> take k d = a \<Longrightarrow> k + length xs \<le> length d \<Longrightarrow>
   take (k + length xs) (memcpy d k xs) = a @ xs \<and> length (memcpy d k xs) = length d"
  by (auto simp: memcpy_def)

lemma one_line:
  assumes "length xs = 48" shows "full_lines xs = encode_loop xs @ [0x0a]" "last_line xs = []"
  using assms by (simp_all add: full_lines.simps [of xs] last_line.simps [of xs]
      full_lines.simps [of "[]"] last_line.simps [of "[]"])

lemma EVP_EncodeUpdate_correct:
  assumes ctx: "encode_ctx ctx pending" and len: "length inp < 2 ^ 61"
  shows "\<exists>ctx' out n. EVP_EncodeUpdate ctx inp = (ctx', out @ (if out = [] then [] else [0]), n) \<and>
    out = full_lines (pending @ inp) \<and> encode_ctx ctx' (last_line (pending @ inp)) \<and>
    (length out \<le> INT_MAX \<longrightarrow> n = length out)"
proof -
  have d: "length (data ctx) = 48" "data_used ctx = length pending" "length pending < 48"
    "take (length pending) (data ctx) = pending"
    using ctx by (simp_all add: encode_ctx_def)
  show ?thesis
  proof (cases "48 - length pending > length inp")
    case True
    then have s: "length (pending @ inp) < 48" by simp
    then have "full_lines (pending @ inp) = []" "last_line (pending @ inp) = pending @ inp"
      by (simp_all add: full_lines.simps last_line.simps)
    moreover have "take (length pending + length inp) (memcpy (data ctx) (length pending) inp) = pending @ inp \<and>
        length (memcpy (data ctx) (length pending) inp) = length (data ctx)"
      using take_memcpy [of pending "length pending" "data ctx" inp] d s by simp
    ultimately show ?thesis
      using True d s ctx by (cases "inp = []") (auto simp: EVP_EncodeUpdate_def encode_ctx_def)
  next
    case False
    then have ne: "length inp \<noteq> 0" using d(3) by auto
    define todo where "todo = (if pending = [] then 0 else 48 - length pending)"
    define first where "first = (if pending = [] then [] else encode_loop (pending @ take todo inp) @ [0x0a])"
    define ctx1 where "ctx1 = (if pending = [] then ctx else
        ctx\<lparr>data := memcpy (data ctx) (length pending) (take todo inp), data_used := 0\<rparr>)"
    have le: "length pending + length (take todo inp) = (if pending = [] then 0 else 48)"
      using False d(3) by (auto simp: todo_def)
    have full: "memcpy (data ctx) (length pending) (take todo inp) = pending @ take todo inp" if "pending \<noteq> []"
      using that le d by (simp add: memcpy_def)
    have fst: "length first = (if pending = [] then 0 else 65)"
      using le by (auto simp: first_def length_encode_loop)
    have split: "full_lines (pending @ inp) = first @ full_lines (drop todo inp)"
      "last_line (pending @ inp) = last_line (drop todo inp)"
    proof -
      have "full_lines (pending @ inp) = first @ full_lines (drop todo inp) \<and>
          last_line (pending @ inp) = last_line (drop todo inp)"
      proof (cases "pending = []")
        case False
        then have "length (pending @ take todo inp) = 48" using le by simp
        note one_line [OF this]
        with False show ?thesis
          using full_lines_append [of "pending @ take todo inp" "drop todo inp"]
            last_line_append [of "pending @ take todo inp" "drop todo inp"]
          by (simp add: first_def)
      qed (simp add: first_def todo_def)
      then show "full_lines (pending @ inp) = first @ full_lines (drop todo inp)"
        "last_line (pending @ inp) = last_line (drop todo inp)" by simp_all
    qed
    obtain m where loop: "encode_blocks first (length first) (drop todo inp) =
        (first @ full_lines (drop todo inp), Some (m, last_line (drop todo inp)))"
      and m: "m = length first + length (full_lines (drop todo inp))"
    proof -
      have "length first \<le> 65" using fst by simp
      moreover have "length (drop todo inp) < 2 ^ 61" using len by simp
      ultimately have "length first + 2 * length (drop todo inp) < 2 ^ 63" by simp
      with encode_blocks_eq that show ?thesis by blast
    qed
    have upd: "EVP_EncodeUpdate ctx inp =
       (ctx1\<lparr>data := (if last_line (drop todo inp) \<noteq> [] then memcpy (data ctx1) 0 (last_line (drop todo inp)) else data ctx1),
             data_used := length (last_line (drop todo inp))\<rparr>,
        (first @ full_lines (drop todo inp)) @ [0], if m > INT_MAX then 0 else m)"
    proof (cases "pending = []")
      case True
      then show ?thesis
        using False d ne loop by (simp add: EVP_EncodeUpdate_def first_def ctx1_def todo_def)
    next
      case p: False
      have "length (pending @ take todo inp) = 48" using le p by simp
      then have "first = take 64 (encode_loop (pending @ take todo inp) @ [0]) @ [0x0a]" "todo = 48 - length pending"
        using p by (simp_all add: first_def todo_def length_encode_loop)
      then show ?thesis
        using False d ne loop p full [OF p] fst
        by (simp add: EVP_EncodeUpdate_def ctx1_def EVP_EncodeBlock_def length_encode_loop Let_def)
    qed
    have len1: "length (data ctx1) = 48" using d full le by (auto simp: ctx1_def)
    have "first @ full_lines (drop todo inp) \<noteq> []"
      using False by (cases "pending = []") (simp_all add: first_def full_lines.simps [of inp] todo_def)
    moreover have "take (length xs) (memcpy (data ctx1) 0 xs) = xs \<and> length (memcpy (data ctx1) 0 xs) = 48"
      if "length xs < 48" for xs
      using len1 that by (simp add: memcpy_def)
    ultimately show ?thesis
      using upd split m length_last_line [of "drop todo inp"] len1
      by (auto simp: encode_ctx_def)
  qed
qed

text \<open>Encoding a sequence of pieces.\<close>

fun encode_pieces :: "EVP_ENCODE_CTX \<Rightarrow> byte list list \<Rightarrow> byte list" where
  "encode_pieces ctx [] =
     (let (_, out, n) = EVP_EncodeFinal ctx in take n out)"
| "encode_pieces ctx (p # ps) =
     (let (ctx, out, n) = EVP_EncodeUpdate ctx p in take n out @ encode_pieces ctx ps)"

lemma EVP_EncodeFinal_correct:
  assumes "encode_ctx ctx pending"
  shows "encode_pieces ctx [] = (if pending = [] then [] else encode_loop pending @ [0x0a])"
  using assms by (auto simp: encode_ctx_def EVP_EncodeFinal_def EVP_EncodeBlock_def Let_def)

lemma length_full_lines: "length (full_lines xs) \<le> 2 * length xs"
proof (induction xs rule: full_lines.induct)
  case (1 xs)
  then show ?case
    by (cases "48 \<le> length xs") (auto simp: full_lines.simps [of xs] length_encode_loop)
qed

lemma encode_pieces_correct:
  assumes "encode_ctx ctx pending" "\<forall>p \<in> set ps. length p < 2 ^ 29"
  shows "encode_pieces ctx ps = base64_lines (pending @ concat ps)"
  using assms
proof (induction ps arbitrary: ctx pending)
  case Nil
  then have "length pending < 48" by (simp add: encode_ctx_def)
  with EVP_EncodeFinal_correct [OF Nil(1)] show ?case
    by (simp add: base64_lines_def full_lines.simps last_line.simps del: encode_pieces.simps)
next
  case (Cons p ps)
  have p: "length p < 2 ^ 29" using Cons.prems by simp
  then have "length p < 2 ^ 61" by simp
  from EVP_EncodeUpdate_correct [OF Cons.prems(1) this] obtain ctx' out n where
    upd: "EVP_EncodeUpdate ctx p = (ctx', out @ (if out = [] then [] else [0]), n)"
    and out: "out = full_lines (pending @ p)" and ctx': "encode_ctx ctx' (last_line (pending @ p))"
    and n: "length out \<le> INT_MAX \<longrightarrow> n = length out" by blast
  have "length pending < 48" using Cons.prems(1) by (simp add: encode_ctx_def)
  then have "length out \<le> INT_MAX" using out length_full_lines [of "pending @ p"] p by simp
  then have "encode_pieces ctx (p # ps) = out @ encode_pieces ctx' ps"
    using upd n by simp
  also have "encode_pieces ctx' ps = base64_lines (last_line (pending @ p) @ concat ps)"
    using Cons ctx' by simp
  finally show ?case
    using full_lines_append [of "pending @ p" "concat ps"] last_line_append [of "pending @ p" "concat ps"]
    by (simp add: base64_lines_def out)
qed

lemma encode_ctx_init: "encode_ctx EVP_EncodeInit []"
  by (simp add: encode_ctx_def EVP_EncodeInit_def)

subsection \<open>Decoding a stream\<close>

lemma decode_loop_filter: "decode_loop ctx out inp = decode_loop ctx out (filter (\<lambda>c. \<not> is_space c) inp)"
  by (induction ctx out inp rule: decode_loop.induct) (auto split: option.splits simp: Let_def)

lemma decode_loop_append:
  "decode_loop ctx out (xs @ ys) =
   (case decode_loop ctx out xs of (True, ctx, out) \<Rightarrow> decode_loop ctx out ys | r \<Rightarrow> r)"
  by (induction ctx out xs rule: decode_loop.induct) (auto split: option.splits simp: Let_def)

lemma filter_full_lines:
  "filter (\<lambda>c. \<not> is_space c) (full_lines xs) @ encode_loop (last_line xs) = encode_loop xs"
proof (induction xs rule: full_lines.induct)
  case (1 xs)
  have f: "filter (\<lambda>c. \<not> is_space c) (encode_loop ys) = encode_loop ys" for ys
    using encode_loop_not_space by (auto simp: filter_id_conv)
  show ?case
  proof (cases "48 \<le> length xs")
    case True
    have "encode_loop xs = encode_loop (take 48 xs) @ encode_loop (drop 48 xs)"
      using encode_loop_append [of "take 48 xs" "drop 48 xs"] True by (simp add: min_def)
    with True 1 f show ?thesis
      by (simp add: full_lines.simps [of xs] last_line.simps [of xs] is_space_def)
  qed (simp add: full_lines.simps [of xs] last_line.simps [of xs])
qed

lemma filter_base64_lines: "filter (\<lambda>c. \<not> is_space c) (base64_lines xs) = encode_loop xs"
proof -
  have f: "filter (\<lambda>c. \<not> is_space c) (encode_loop ys) = encode_loop ys" for ys
    using encode_loop_not_space by (auto simp: filter_id_conv)
  show ?thesis using filter_full_lines [of xs] f by (auto simp: base64_lines_def is_space_def)
qed

text \<open>The decoder between quads: nothing pending, no end and no error seen.\<close>

definition decode_ready :: "EVP_ENCODE_CTX \<Rightarrow> bool" where
  "decode_ready ctx \<longleftrightarrow> length (data ctx) = 48 \<and> data_used ctx = 0 \<and> \<not> error_encountered ctx"

lemma decode_loop_quad:
  assumes ctx: "decode_ready ctx" "\<not> eof_seen ctx" and t: "1 \<le> length t" "length t \<le> 3"
  shows "\<exists>ctx'. decode_loop ctx out (quad t @ inp) = decode_loop ctx' (out @ t) inp \<and>
    decode_ready ctx' \<and> eof_seen ctx' = (length t < 3)"
proof -
  obtain w x y z where q: "quad t = [w, x, y, z]" "base64_decode_quad w x y z = Some t"
    "\<not> is_space w" "\<not> is_space x" "\<not> is_space y" "\<not> is_space z"
    using decode_quad [OF t] by metis
  define d where "d = (data ctx)[0 := w, Suc 0 := x, Suc (Suc 0) := y, Suc (Suc (Suc 0)) := z]"
  have d: "d ! 0 = w" "d ! 1 = x" "d ! 2 = y" "d ! 3 = z" "length d = 48"
    using ctx(1) by (simp_all add: d_def decode_ready_def numeral_2_eq_2 numeral_3_eq_3)
  let ?ctx = "ctx\<lparr>data := d, data_used := 0, eof_seen := length t < 3\<rparr>"
  have "decode_loop ctx out (w # x # y # z # inp) = decode_loop ?ctx (out @ t) inp"
    using q(2-) ctx d(1-4)
    by (simp add: d_def [symmetric] decode_ready_def Let_def numeral_2_eq_2 numeral_3_eq_3)
      (simp add: d_def)?
  then have "decode_loop ctx out (quad t @ inp) = decode_loop ?ctx (out @ t) inp"
    by (simp add: q(1))
  then show ?thesis using ctx d(5) by (intro exI [of _ ?ctx]) (simp add: decode_ready_def)
qed

lemma decode_loop_encode:
  assumes "decode_ready ctx" "\<not> eof_seen ctx"
    and "\<And>us t vs. ts = us @ t # vs \<Longrightarrow> 1 \<le> length t \<and> length t \<le> 3 \<and> (vs \<noteq> [] \<longrightarrow> length t = 3)"
  shows "\<exists>ctx'. decode_loop ctx out (concat (map quad ts)) = (True, ctx', out @ concat ts) \<and> decode_ready ctx'"
  using assms
proof (induction ts arbitrary: ctx out)
  case (Cons t ts)
  have t: "1 \<le> length t" "length t \<le> 3" "ts \<noteq> [] \<longrightarrow> length t = 3"
    using Cons.prems(3) [of "[]" t ts] by auto
  have ts: "1 \<le> length u \<and> length u \<le> 3 \<and> (vs \<noteq> [] \<longrightarrow> length u = 3)" if "ts = us @ u # vs" for us u vs
    using Cons.prems(3) [of "t # us" u vs] that by simp
  obtain ctx' where c: "decode_loop ctx out (quad t @ concat (map quad ts)) = decode_loop ctx' (out @ t) (concat (map quad ts))"
    "decode_ready ctx'" "eof_seen ctx' = (length t < 3)"
    using decode_loop_quad [OF Cons.prems(1,2) t(1,2)] by blast
  show ?case
  proof (cases "ts = []")
    case True
    with c show ?thesis by simp
  next
    case False
    then have "\<not> eof_seen ctx'" using t(3) c(3) by simp
    from Cons.IH [where out = "out @ t", OF c(2) this ts] c(1) show ?thesis by auto
  qed
qed simp

text \<open>Decoding a sequence of pieces; None when a call reports an error.\<close>

fun decode_pieces :: "EVP_ENCODE_CTX \<Rightarrow> byte list list \<Rightarrow> byte list option" where
  "decode_pieces ctx [] = (if EVP_DecodeFinal ctx = 1 then Some [] else None)"
| "decode_pieces ctx (p # ps) =
     (let (ctx, out, n, r) = EVP_DecodeUpdate ctx p
      in if r = -1 then None else map_option ((@) (take n out)) (decode_pieces ctx ps))"

lemma decode_loop_out:
  "decode_loop ctx (pre @ out) xs = (let (b, ctx', out') = decode_loop ctx out xs in (b, ctx', pre @ out'))"
  by (induction ctx out xs rule: decode_loop.induct) (simp_all add: Let_def split: option.splits)

lemma decode_loop_error:
  "decode_loop ctx out xs = (True, ctx', out') \<Longrightarrow> error_encountered ctx' = error_encountered ctx"
  by (induction ctx out xs rule: decode_loop.induct) (auto simp: Let_def split: if_splits option.splits)

lemma decode_pieces_correct:
  assumes "\<not> error_encountered ctx" "decode_loop ctx [] (concat ps) = (True, ctx', out)"
    and "decode_ready ctx'" "length out \<le> INT_MAX"
  shows "decode_pieces ctx ps = Some out"
  using assms
proof (induction ps arbitrary: ctx out)
  case Nil
  then show ?case by (simp add: EVP_DecodeFinal_def decode_ready_def)
next
  case (Cons p ps)
  obtain b ctx1 out1 where p: "decode_loop ctx [] p = (b, ctx1, out1)" by (cases "decode_loop ctx [] p") auto
  have b: b using Cons.prems(2) p by (cases b) (simp_all add: decode_loop_append)
  then have "decode_loop ctx1 out1 (concat ps) = (True, ctx', out)"
    using Cons.prems(2) p by (simp add: decode_loop_append)
  then obtain more where more: "out = out1 @ more" "decode_loop ctx1 [] (concat ps) = (True, ctx', more)"
    using decode_loop_out [of ctx1 out1 "[]" "concat ps"] by (auto split: prod.splits)
  have "\<not> error_encountered ctx1"
    using decode_loop_error [of ctx "[]" p ctx1 out1] p b Cons.prems(1) by simp
  then have "decode_pieces ctx1 ps = Some more"
    using Cons.IH [OF _ more(2) Cons.prems(3)] Cons.prems(4) more(1) by simp
  then show ?case
    using Cons.prems(1,4) p b more(1) by (simp add: EVP_DecodeUpdate_def)
qed

lemma stream_roundtrip:
  assumes "concat ps = base64_lines xs" "length xs \<le> INT_MAX"
  shows "decode_pieces EVP_DecodeInit ps = Some xs"
proof -
  have init: "decode_ready EVP_DecodeInit" "\<not> eof_seen EVP_DecodeInit" "\<not> error_encountered EVP_DecodeInit"
    by (simp_all add: decode_ready_def EVP_DecodeInit_def)
  have ts: "1 \<le> length t \<and> length t \<le> 3 \<and> (vs \<noteq> [] \<longrightarrow> length t = 3)" if "triples xs = us @ t # vs" for us t vs
  proof -
    have "t \<in> set (triples xs)" using that by simp
    from triples_length [OF this] triples_full [OF that] show ?thesis by blast
  qed
  have "\<exists>ctx'. decode_loop EVP_DecodeInit [] (concat (map quad (triples xs))) =
      (True, ctx', [] @ concat (triples xs)) \<and> decode_ready ctx'"
    by (rule decode_loop_encode [OF init(1,2)]) (rule ts)
  then obtain ctx' where
    "decode_loop EVP_DecodeInit [] (encode_loop xs) = (True, ctx', xs)" "decode_ready ctx'"
    by (auto simp: encode_loop_triples)
  then have "decode_loop EVP_DecodeInit [] (concat ps) = (True, ctx', xs)"
    by (subst decode_loop_filter) (simp only: assms(1) filter_base64_lines)
  from decode_pieces_correct [OF init(3) this \<open>decode_ready ctx'\<close> assms(2)] show ?thesis .
qed

end
