(* ===== verification/Posix_Time.thy ===== *)
theory Posix_Time
  imports Main "HOL-Library.Signed_Division"
begin

text \<open>
  Conversion between POSIX times and calendar dates, \<open>crypto/asn1/posix_time.c\<close>. The values are
  \<open>int64_t\<close> in the code and stay far inside that range: the calendar functions check their argument
  first, and the checked addition of \<open>OPENSSL_gmtime_adj\<close> is modelled with its bounds. Division is
  the truncating one of C, \<open>sdiv\<close> and \<open>smod\<close>. A result is None when the function returns zero.
\<close>

abbreviation SECS_PER_HOUR :: int where "SECS_PER_HOUR \<equiv> 3600"
abbreviation SECS_PER_DAY :: int where "SECS_PER_DAY \<equiv> 86400"

definition is_leap :: "int \<Rightarrow> bool" where
  "is_leap year \<longleftrightarrow> year smod 4 = 0 \<and> year smod 100 \<noteq> 0 \<or> year smod 400 = 0"

definition is_valid_date :: "int \<Rightarrow> int \<Rightarrow> int \<Rightarrow> bool" where
  "is_valid_date year month day =
     (if day < 1 \<or> month < 1 \<or> year < 0 \<or> year > 9999 then False
      else if month \<in> {1, 3, 5, 7, 8, 10, 12} then day > 0 \<and> day \<le> 31
      else if month \<in> {4, 6, 9, 11} then day > 0 \<and> day \<le> 30
      else if month = 2 then if is_leap year then day > 0 \<and> day \<le> 29 else day > 0 \<and> day \<le> 28
      else False)"

definition is_valid_time :: "int \<Rightarrow> int \<Rightarrow> int \<Rightarrow> bool" where
  "is_valid_time hours minutes seconds =
     (if hours < 0 \<or> minutes < 0 \<or> seconds < 0 \<or> hours > 23 \<or> minutes > 59 \<or> seconds > 59
      then False else True)"

abbreviation MIN_POSIX_TIME :: int where "MIN_POSIX_TIME \<equiv> -62167219200"
abbreviation MAX_POSIX_TIME :: int where "MAX_POSIX_TIME \<equiv> 253402300799"

definition is_valid_posix_time :: "int \<Rightarrow> bool" where
  "is_valid_posix_time time \<longleftrightarrow> MIN_POSIX_TIME \<le> time \<and> time \<le> MAX_POSIX_TIME"

text \<open>The local variables of \<open>posix_time_from_utc\<close>, from a year that starts in March.\<close>

definition posix_days :: "int \<Rightarrow> int \<Rightarrow> int \<Rightarrow> int" where
  "posix_days year month day =
     (let era = (if year \<ge> 0 then year else year - 399) sdiv 400;
          year_of_era = year - era * 400;
          day_of_year = (153 * (if month > 2 then month - 3 else month + 9) + 2) sdiv 5 + day - 1;
          day_of_era = year_of_era * 365 + year_of_era sdiv 4 - year_of_era sdiv 100 + day_of_year
      in era * 146097 + day_of_era - 719468)"

definition posix_time_from_utc :: "int \<Rightarrow> int \<Rightarrow> int \<Rightarrow> int \<Rightarrow> int \<Rightarrow> int \<Rightarrow> int option" where
  "posix_time_from_utc year month day hours minutes seconds =
     (if \<not> is_valid_date year month day \<or> \<not> is_valid_time hours minutes seconds then None
      else let year = (if month \<le> 2 then year - 1 else year)
           in Some (posix_days year month day * SECS_PER_DAY + hours * SECS_PER_HOUR + minutes * 60 + seconds))"

text \<open>The date of a day, counted from March 1 of the year 0.\<close>

definition date_of_days :: "int \<Rightarrow> int \<times> int \<times> int" where
  "date_of_days days =
     (let era = (if days > 0 then days else days - 146096) sdiv 146097;
          day_of_era = days - era * 146097;
          year_of_era = (day_of_era - day_of_era sdiv 1460 + day_of_era sdiv 36524
                         - day_of_era sdiv 146096) sdiv 365;
          out_year = year_of_era + era * 400;
          day_of_year = day_of_era - (365 * year_of_era + year_of_era sdiv 4 - year_of_era sdiv 100);
          month_of_year = (5 * day_of_year + 2) sdiv 153;
          out_month = (if month_of_year < 10 then month_of_year + 3 else month_of_year - 9);
          out_year = (if out_month \<le> 2 then out_year + 1 else out_year);
          out_day = day_of_year - (153 * month_of_year + 2) sdiv 5 + 1
      in (out_year, out_month, out_day))"

definition utc_from_posix_time :: "int \<Rightarrow> (int \<times> int \<times> int \<times> int \<times> int \<times> int) option" where
  "utc_from_posix_time time =
     (if \<not> is_valid_posix_time time then None
      else let days = time sdiv SECS_PER_DAY;
               leftover_seconds = time smod SECS_PER_DAY;
               (days, leftover_seconds) =
                 (if leftover_seconds < 0 then (days - 1, leftover_seconds + SECS_PER_DAY)
                  else (days, leftover_seconds));
               (year, month, day) = date_of_days (days + 719468);
               hours = leftover_seconds sdiv SECS_PER_HOUR;
               leftover_seconds = leftover_seconds smod SECS_PER_HOUR
           in Some (year, month, day, hours, leftover_seconds sdiv 60, leftover_seconds smod 60))"

record tm =
  tm_year :: int
  tm_mon :: int
  tm_mday :: int
  tm_hour :: int
  tm_min :: int
  tm_sec :: int

definition OPENSSL_tm_to_posix :: "tm \<Rightarrow> int option" where
  "OPENSSL_tm_to_posix t =
     posix_time_from_utc (tm_year t + 1900) (tm_mon t + 1) (tm_mday t) (tm_hour t) (tm_min t) (tm_sec t)"

definition OPENSSL_posix_to_tm :: "int \<Rightarrow> tm option" where
  "OPENSSL_posix_to_tm time =
     (case utc_from_posix_time time of
        None \<Rightarrow> None
      | Some (year, month, day, hours, minutes, seconds) \<Rightarrow>
          Some \<lparr>tm_year = year - 1900, tm_mon = month - 1, tm_mday = day,
                tm_hour = hours, tm_min = minutes, tm_sec = seconds\<rparr>)"

text \<open>\<open>time_t_32\<close> says that \<open>time_t\<close> has 32 bits.\<close>

definition OPENSSL_timegm :: "bool \<Rightarrow> tm \<Rightarrow> int option" where
  "OPENSSL_timegm time_t_32 t =
     (case OPENSSL_tm_to_posix t of
        None \<Rightarrow> None
      | Some posix_time \<Rightarrow>
          if time_t_32 \<and> (posix_time > 0x7fffffff \<or> posix_time < - 0x80000000) then None
          else Some posix_time)"

definition OPENSSL_gmtime :: "int \<Rightarrow> tm option" where
  "OPENSSL_gmtime time = OPENSSL_posix_to_tm time"

abbreviation INT64_MAX :: int where "INT64_MAX \<equiv> 2 ^ 63 - 1"
abbreviation INT64_MIN :: int where "INT64_MIN \<equiv> - (2 ^ 63)"

definition OPENSSL_gmtime_adj :: "tm \<Rightarrow> int \<Rightarrow> int \<Rightarrow> tm option" where
  "OPENSSL_gmtime_adj t offset_day offset_sec =
     (case OPENSSL_tm_to_posix t of
        None \<Rightarrow> None
      | Some posix_time \<Rightarrow>
          let posix_time = posix_time + offset_day * SECS_PER_DAY
          in if posix_time > 0 \<and> offset_sec > INT64_MAX - posix_time then None
             else if posix_time < 0 \<and> offset_sec < INT64_MIN - posix_time then None
             else OPENSSL_posix_to_tm (posix_time + offset_sec))"

definition OPENSSL_gmtime_diff :: "tm \<Rightarrow> tm \<Rightarrow> (int \<times> int) option" where
  "OPENSSL_gmtime_diff from_tm to_tm =
     (case OPENSSL_tm_to_posix to_tm of None \<Rightarrow> None | Some time_to \<Rightarrow>
     (case OPENSSL_tm_to_posix from_tm of None \<Rightarrow> None | Some time_from \<Rightarrow>
        let timediff = time_to - time_from
        in Some (timediff sdiv SECS_PER_DAY, timediff smod SECS_PER_DAY)))"

section \<open>Truncating division\<close>

lemma sdiv_nonneg: "0 \<le> a \<Longrightarrow> 0 < b \<Longrightarrow> a sdiv b = a div (b :: int)"
  by (cases "a = 0") (simp_all add: signed_divide_int_def)

lemma smod_nonneg: "0 \<le> a \<Longrightarrow> 0 < b \<Longrightarrow> a smod b = a mod (b :: int)"
  by (cases "a = 0") (simp_all add: signed_modulo_int_def)

lemma smod_0: "0 < b \<Longrightarrow> a smod b = 0 \<longleftrightarrow> b dvd (a :: int)"
  by (cases "a = 0") (simp_all add: signed_modulo_int_def sgn_if flip: dvd_eq_mod_eq_0)

text \<open>The code's way to divide towards minus infinity.\<close>

lemma floor_div:
  assumes "0 < b"
  shows "(if a \<ge> 0 then a else a - (b - 1)) sdiv b = a div (b :: int)"
    and "(if a > 0 then a else a - (b - 1)) sdiv b = a div (b :: int)"
proof -
  have neg: "(a - (b - 1)) sdiv b = a div b" if "a \<le> 0"
  proof -
    have "(a - (b - 1)) sdiv b = - ((b - 1 - a) div b)"
      using that assms by (simp add: signed_divide_int_def sgn_if)
    also have "\<dots> = a div b"
    proof -
      define q r where "q = a div b" and "r = a mod b"
      have a: "a = b * q + r" "0 \<le> r" "r < b" using assms by (simp_all add: q_def r_def)
      have "(b - 1 - a) div b = (b * (- q) + (b - 1 - r)) div b" by (simp add: a(1) algebra_simps)
      also have "\<dots> = - q + (b - 1 - r) div b" using assms by (subst div_mult_self4) simp_all
      also have "(b - 1 - r) div b = 0" using a by (intro div_pos_pos_trivial) simp_all
      finally show ?thesis by (simp add: q_def)
    qed
    finally show ?thesis .
  qed
  then show "(if a \<ge> 0 then a else a - (b - 1)) sdiv b = a div b"
    "(if a > 0 then a else a - (b - 1)) sdiv b = a div b"
    using assms by (auto simp: sdiv_nonneg)
qed

section \<open>Days and dates\<close>

text \<open>
  The year of an era is \<open>100 c + 4 q + r\<close>: centuries, four-year cycles and years, where only the last
  year of a cycle that does not end a century, or ends the era, has a leap day.
\<close>

definition year_start :: "int \<Rightarrow> int" where
  "year_start y = 365 * y + y div 4 - y div 100"

definition leap_end :: "int \<Rightarrow> bool" where
  "leap_end y \<longleftrightarrow> (y + 1) mod 4 = 0 \<and> (y + 1) mod 100 \<noteq> 0 \<or> (y + 1) mod 400 = 0"

lemma year_parts:
  fixes y :: int
  assumes "0 \<le> y" "y \<le> 399"
  obtains c q r where "y = 100 * c + 4 * q + r" "0 \<le> c" "c \<le> 3" "0 \<le> q" "q \<le> 24" "0 \<le> r" "r \<le> 3"
proof -
  define c where "c = y div 100"
  define q where "q = (y mod 100) div 4"
  define r where "r = (y mod 100) mod 4"
  have "y = 100 * c + 4 * q + r" by (simp add: c_def q_def r_def)
  moreover have "0 \<le> c" "c \<le> 3" "0 \<le> q" "q \<le> 24" "0 \<le> r" "r \<le> 3"
    using assms unfolding c_def q_def r_def by presburger+
  ultimately show ?thesis by (rule that)
qed

lemma year_parts_eqs:
  fixes c q r :: int
  assumes "y = 100 * c + 4 * q + r" "0 \<le> c" "c \<le> 3" "0 \<le> q" "q \<le> 24" "0 \<le> r" "r \<le> 3"
  shows "y div 4 = 25 * c + q" "y div 100 = c" "year_start y = 36524 * c + 1461 * q + 365 * r"
    "leap_end y \<longleftrightarrow> r = 3 \<and> (q < 24 \<or> c = 3)"
proof -
  show a: "y div 4 = 25 * c + q" "y div 100 = c" using assms by auto
  then show "year_start y = 36524 * c + 1461 * q + 365 * r" by (simp add: year_start_def assms(1))
  define n where "n = 4 * q + r + 1"
  have n: "1 \<le> n" "n \<le> 100" "n = 100 \<longleftrightarrow> q = 24 \<and> r = 3" using assms(4-7) unfolding n_def by linarith+
  have yn: "y + 1 = c * 100 + n" by (simp add: n_def assms(1))
  have "y + 1 = (25 * c + q) * 4 + (r + 1)" by (simp add: assms(1))
  then have "(y + 1) mod 4 = (r + 1) mod 4" by (simp only: mod_mult_self3)
  then have "(y + 1) mod 4 = 0 \<longleftrightarrow> r = 3" using assms(6,7) by presburger
  moreover have "(y + 1) mod 100 = 0 \<longleftrightarrow> n = 100"
    unfolding yn mod_mult_self3 using n(1,2) by (cases "n = 100") simp_all
  moreover have "(y + 1) mod 400 = 0 \<longleftrightarrow> c = 3 \<and> n = 100"
  proof (cases "c = 3 \<and> n = 100")
    case False
    then have "1 \<le> c * 100 + n" "c * 100 + n < 400" using assms(2,3) n(1,2) by linarith+
    then show ?thesis using False unfolding yn by simp
  qed (simp add: yn)
  ultimately show "leap_end y \<longleftrightarrow> r = 3 \<and> (q < 24 \<or> c = 3)" using assms(5) n(3) unfolding leap_end_def by auto
qed

lemma day_parts:
  fixes doe :: int
  assumes "0 \<le> doe" "doe \<le> 146096"
  obtains c q r d where "doe = 36524 * c + 1461 * q + 365 * r + d" "0 \<le> c" "c \<le> 3" "0 \<le> q" "q \<le> 24"
    "0 \<le> r" "r \<le> 3" "0 \<le> d" "d \<le> 365" "d = 365 \<longrightarrow> r = 3 \<and> (q < 24 \<or> c = 3)"
proof -
  define c where "c = min 3 (doe div 36524)"
  define e where "e = doe - 36524 * c"
  have c: "0 \<le> c" "c \<le> 3" "0 \<le> e" "c < 3 \<longrightarrow> e < 36524" "e \<le> 36524"
    using assms unfolding c_def e_def by (auto simp: min_def)
  define q where "q = e div 1461"
  define g where "g = e mod 1461"
  have q: "e = 1461 * q + g" "0 \<le> q" "0 \<le> g" "g \<le> 1460" using c by (simp_all add: q_def g_def)
  then have q24: "q \<le> 24" using c(5) by linarith
  define r where "r = min 3 (g div 365)"
  define d where "d = g - 365 * r"
  have r: "0 \<le> r" "r \<le> 3" "0 \<le> d" "d \<le> 365" "d = 365 \<longrightarrow> r = 3 \<and> g = 1460"
    using q(3,4) unfolding r_def d_def by (auto simp: min_def)
  have "d = 365 \<longrightarrow> r = 3 \<and> (q < 24 \<or> c = 3)"
    using r(5) q c q24 by linarith
  moreover have "doe = 36524 * c + 1461 * q + 365 * r + d" using q(1) unfolding e_def d_def by linarith
  ultimately show ?thesis using that [of c q r d] c q q24 r by blast
qed

definition year_of_era :: "int \<Rightarrow> int" where
  "year_of_era doe = (doe - doe div 1460 + doe div 36524 - doe div 146096) div 365"

lemma year_of_era_parts:
  fixes c q r d :: int
  assumes doe: "doe = 36524 * c + 1461 * q + 365 * r + d" and b: "0 \<le> c" "c \<le> 3" "0 \<le> q" "q \<le> 24"
    "0 \<le> r" "r \<le> 3" "0 \<le> d" "d \<le> 365" "d = 365 \<longrightarrow> r = 3 \<and> (q < 24 \<or> c = 3)"
  shows "year_of_era doe = 100 * c + 4 * q + r"
proof (cases "q = 24 \<and> d = 365")
  case True
  then have "doe = 146096" "c = 3" "r = 3" using assms by auto
  then show ?thesis using True by (simp add: year_of_era_def)
next
  case False
  define u where "u = 24 * c + q + 365 * r + d"
  have e: "1461 * q + 365 * r + d < 36524" using b False by linarith
  have "doe div 36524 = c" using e b doe by (intro int_div_pos_eq [of _ _ _ "1461 * q + 365 * r + d"]) simp_all
  moreover have "doe div 146096 = 0" using e b doe by (intro div_pos_pos_trivial) simp_all
  moreover have "doe div 1460 = 25 * c + q + (if u \<ge> 1460 then 1 else 0)"
    using b doe unfolding u_def
    by (intro int_div_pos_eq [of _ _ _ "u - (if u \<ge> 1460 then 1460 else 0)"]) (auto simp: u_def)
  moreover have "u \<ge> 1460 \<or> d < 365" "u < 1460 \<or> 0 < d" using b by (auto simp: u_def)
  ultimately show ?thesis
    unfolding year_of_era_def using b doe
    by (intro int_div_pos_eq [of _ _ _ "d - (if u \<ge> 1460 then 1 else 0)"]) auto
qed

text \<open>Every day of an era is a year and a day of it, and each year and day gives the year back.\<close>

lemma year_of_era_days:
  assumes "0 \<le> doe" "doe \<le> 146096"
  defines "y \<equiv> year_of_era doe"
  shows "0 \<le> y \<and> y \<le> 399 \<and> 0 \<le> doe - year_start y \<and> doe - year_start y \<le> 365
    \<and> (doe - year_start y = 365 \<longrightarrow> leap_end y)"
proof -
  obtain c q r d where p: "doe = 36524 * c + 1461 * q + 365 * r + d" "0 \<le> c" "c \<le> 3" "0 \<le> q" "q \<le> 24"
    "0 \<le> r" "r \<le> 3" "0 \<le> d" "d \<le> 365" "d = 365 \<longrightarrow> r = 3 \<and> (q < 24 \<or> c = 3)"
    using day_parts [OF assms(1,2)] by metis
  have y: "y = 100 * c + 4 * q + r" unfolding y_def by (rule year_of_era_parts [OF p])
  note year_parts_eqs [OF y p(2-7)]
  with p y show ?thesis by auto
qed

lemma year_of_era_unique:
  assumes "0 \<le> y" "y \<le> 399" "0 \<le> d" "d \<le> 365" "d = 365 \<longrightarrow> leap_end y"
  shows "year_of_era (year_start y + d) = y"
    "0 \<le> year_start y + d" "year_start y + d \<le> 146096"
proof -
  obtain c q r where p: "y = 100 * c + 4 * q + r" "0 \<le> c" "c \<le> 3" "0 \<le> q" "q \<le> 24" "0 \<le> r" "r \<le> 3"
    using year_parts [OF assms(1,2)] by metis
  note e = year_parts_eqs [OF p]
  show "year_of_era (year_start y + d) = y"
    using year_of_era_parts [of "year_start y + d" c q r d] e p assms by simp
  show "0 \<le> year_start y + d" "year_start y + d \<le> 146096" using e p assms by auto
qed

section \<open>Months\<close>

definition month_start :: "int \<Rightarrow> int" where
  "month_start m = (153 * m + 2) div 5"

text \<open>The days of the month \<open>m\<close>, counted from March; \<open>leap\<close> is for February, the last month.\<close>

definition month_days :: "bool \<Rightarrow> int \<Rightarrow> int" where
  "month_days leap m = (if m = 11 then if leap then 29 else 28 else if m \<in> {1, 3, 6, 8} then 30 else 31)"

lemma month_cases:
  assumes "0 \<le> m" "m \<le> (11 :: int)"
  shows "m \<in> {0, 1, 2, 3, 4, 5, 6, 7, 8, 9, 10, 11}"
  using assms unfolding insert_iff empty_iff by presburger

lemma month_of_day:
  assumes "0 \<le> doy" "doy \<le> 365" "doy = 365 \<longrightarrow> leap"
  defines "m \<equiv> (5 * doy + 2) div 153"
  shows "0 \<le> m \<and> m \<le> 11 \<and> 1 \<le> doy - month_start m + 1 \<and> doy - month_start m + 1 \<le> month_days leap m"
proof -
  have m: "153 * m \<le> 5 * doy + 2" "5 * doy + 2 < 153 * m + 153" unfolding m_def by linarith+
  have b: "0 \<le> m" "m \<le> 11" using assms(1,2) m by linarith+
  have "1 \<le> doy - month_start m + 1 \<and> doy - month_start m + 1 \<le> month_days leap m"
    using month_cases [OF b] m assms(2,3) by (auto simp: month_start_def month_days_def)
  with b show ?thesis by simp
qed

lemma month_of_day_unique:
  assumes "0 \<le> m" "m \<le> 11" "1 \<le> d" "d \<le> month_days leap m"
  defines "doy \<equiv> month_start m + d - 1"
  shows "(5 * doy + 2) div 153 = m" "0 \<le> doy" "doy \<le> 365" "doy = 365 \<longrightarrow> leap"
    "m < 10 \<longleftrightarrow> doy < 306"
proof -
  have "153 * m \<le> 5 * doy + 2 \<and> 5 * doy + 2 < 153 * m + 153 \<and> 0 \<le> doy \<and> doy \<le> 365 \<and> (doy = 365 \<longrightarrow> leap)
      \<and> (m < 10 \<longleftrightarrow> doy < 306)"
    using month_cases [OF assms(1,2)] assms(3,4) unfolding doy_def
    by (auto simp: month_start_def month_days_def split: if_splits)
  then show "(5 * doy + 2) div 153 = m" "0 \<le> doy" "doy \<le> 365" "doy = 365 \<longrightarrow> leap" "m < 10 \<longleftrightarrow> doy < 306"
    by (auto intro: int_div_pos_eq [of _ _ _ "5 * doy + 2 - 153 * m"])
qed

section \<open>The calendar\<close>

text \<open>The year that starts in March and its month, as the code computes with them.\<close>

definition march_year :: "int \<Rightarrow> int \<Rightarrow> int" where
  "march_year year month = (if month \<le> 2 then year - 1 else year)"

definition march_month :: "int \<Rightarrow> int" where
  "march_month month = (if month > 2 then month - 3 else month + 9)"

lemma leap_end_era: "leap_end (y mod 400) \<longleftrightarrow> (4 dvd y + 1 \<and> \<not> 100 dvd y + 1) \<or> 400 dvd y + 1"
proof -
  have "(y mod 400 + 1) mod n = (y + 1) mod n" if "n dvd 400" for n
  proof -
    have "(y mod 400 + 1) mod n = (y mod 400 mod n + 1) mod n" by (simp only: mod_add_left_eq)
    also have "\<dots> = (y + 1) mod n" using that by (simp only: mod_mod_cancel mod_add_left_eq)
    finally show ?thesis .
  qed
  note this [of 4] this [of 100] this [of 400]
  moreover have "(4::int) dvd 400" "(100::int) dvd 400" "(400::int) dvd 400" by simp_all
  ultimately show ?thesis unfolding leap_end_def dvd_eq_mod_eq_0 by (simp only:)
qed

lemma is_leap_dvd: "is_leap y \<longleftrightarrow> (4 dvd y \<and> \<not> 100 dvd y) \<or> 400 dvd y"
  by (simp add: is_leap_def smod_0)

lemma valid_date_iff:
  "is_valid_date year month day \<longleftrightarrow> 0 \<le> year \<and> year \<le> 9999 \<and> 1 \<le> month \<and> month \<le> 12 \<and> 1 \<le> day \<and>
     day \<le> month_days (leap_end (march_year year month mod 400)) (march_month month)"
  (is "_ \<longleftrightarrow> ?R")
proof (cases "1 \<le> month \<and> month \<le> 12")
  case True
  have l: "leap_end ((year - 1) mod 400) = is_leap year"
    using leap_end_era [of "year - 1"] by (simp add: is_leap_dvd)
  have "month \<in> {1, 2, 3, 4, 5, 6, 7, 8, 9, 10, 11, 12}" using True
    unfolding insert_iff empty_iff by presburger
  then show ?thesis
    by (elim insertE emptyE)
      (auto simp: is_valid_date_def march_year_def march_month_def month_days_def l)
next
  case False
  then show ?thesis by (auto simp: is_valid_date_def)
qed

lemma posix_days_eq:
  assumes "1 \<le> month" "month \<le> 12"
  shows "posix_days y month day = y div 400 * 146097 + year_start (y mod 400)
    + (month_start (march_month month) + day - 1) - 719468"
proof -
  have e: "(if y \<ge> 0 then y else y - 399) sdiv 400 = y div 400"
    using floor_div(1) [of 400 y] by (auto split: if_splits)
  have m: "y - y div 400 * 400 = y mod 400" by (simp add: minus_div_mult_eq_mod)
  have s: "(y mod 400) sdiv 4 = y mod 400 div 4" "(y mod 400) sdiv 100 = y mod 400 div 100"
    by (simp_all add: sdiv_nonneg)
  have "0 \<le> march_month month" using assms by (simp add: march_month_def)
  then have "(153 * march_month month + 2) sdiv 5 = month_start (march_month month)"
    by (simp add: month_start_def sdiv_nonneg)
  then show ?thesis
    unfolding posix_days_def Let_def e m s march_month_def [symmetric]
    by (simp add: year_start_def)
qed

lemma date_of_days_eq:
  fixes days :: int
  defines "era \<equiv> days div 146097" and "doe \<equiv> days mod 146097"
  defines "y \<equiv> year_of_era doe"
  defines "m \<equiv> (5 * (doe - year_start y) + 2) div 153"
  shows "date_of_days days =
    (let month = (if m < 10 then m + 3 else m - 9)
     in (if month \<le> 2 then y + era * 400 + 1 else y + era * 400, month,
         doe - year_start y - month_start m + 1))"
proof -
  have e: "(if days > 0 then days else days - 146096) sdiv 146097 = era"
    using floor_div(2) [of 146097 days] by (auto simp: era_def split: if_splits)
  have d: "days - era * 146097 = doe" by (simp add: era_def doe_def minus_div_mult_eq_mod)
  have doe: "0 \<le> doe" "doe \<le> 146096" by (simp_all add: doe_def) 
  note yd = year_of_era_days [OF doe, folded y_def]
  have le: "doe div 1460 \<le> doe" using doe by linarith
  have "(doe - doe sdiv 1460 + doe sdiv 36524 - doe sdiv 146096) sdiv 365 = y"
  proof -
    have "0 \<le> doe - doe div 1460 + doe div 36524 - doe div 146096" using doe by linarith
    then show ?thesis using doe by (simp add: y_def year_of_era_def sdiv_nonneg)
  qed
  moreover have "365 * y + y sdiv 4 - y sdiv 100 = year_start y"
    using yd by (simp add: year_start_def sdiv_nonneg)
  moreover have "(5 * (doe - year_start y) + 2) sdiv 153 = m"
    using yd by (simp add: m_def sdiv_nonneg)
  moreover have "0 \<le> m"
  proof -
    have "0 \<le> 5 * (doe - year_start y) + 2" using yd by auto
    then show ?thesis unfolding m_def by (rule pos_imp_zdiv_nonneg_iff [THEN iffD2, rotated]) simp
  qed
  then have "(153 * m + 2) sdiv 5 = month_start m" by (simp add: month_start_def sdiv_nonneg)
  ultimately show ?thesis
    unfolding date_of_days_def Let_def e d by (simp only:)
qed

text \<open>From a date to its day and back, and from a day to its date and back.\<close>

lemma date_of_posix_days:
  assumes "is_valid_date year month day"
  defines "n \<equiv> posix_days (march_year year month) month day + 719468"
  shows "date_of_days n = (year, month, day)" "- 60 \<le> n" "n \<le> 3652364"
proof -
  define y where "y = march_year year month"
  define m where "m = march_month month"
  define leap where "leap = leap_end (y mod 400)"
  have v: "0 \<le> year" "year \<le> 9999" "1 \<le> month" "month \<le> 12" "1 \<le> day" "day \<le> month_days leap m"
    using assms(1) by (simp_all add: valid_date_iff y_def m_def leap_def)
  define doy where "doy = month_start m + day - 1"
  have m: "0 \<le> m" "m \<le> 11" using v by (auto simp: m_def march_month_def)
  note u = month_of_day_unique [OF m v(5,6), folded doy_def]
  have b: "0 \<le> y mod 400" "y mod 400 \<le> 399" by simp_all
  note yu = year_of_era_unique [OF b u(2,3) u(4) [unfolded leap_def]]
  have n: "n = y div 400 * 146097 + (year_start (y mod 400) + doy)"
    using posix_days_eq [OF v(3,4), of y day] by (simp add: n_def y_def [symmetric] m_def doy_def)
  have nd: "n div 146097 = y div 400" "n mod 146097 = year_start (y mod 400) + doy"
    using yu(2,3) unfolding n by (simp_all add: div_pos_pos_trivial mod_pos_pos_trivial)
  have mon: "(if m < 10 then m + 3 else m - 9) = month" "month \<le> 2 \<longleftrightarrow> \<not> m < 10"
    using v(3,4) by (auto simp: m_def march_month_def)
  have "y mod 400 + y div 400 * 400 = y" by simp
  moreover have "y = (if month \<le> 2 then year - 1 else year)" by (simp add: y_def march_year_def)
  ultimately show "date_of_days n = (year, month, day)"
    unfolding date_of_days_eq nd yu(1) Let_def add_diff_cancel_left' u(1) mon(1)
    by (simp add: doy_def)
  show "- 60 \<le> n"
  proof (cases "0 \<le> y")
    case True
    then have "0 \<le> y div 400" by simp
    then show ?thesis using n yu(2) by linarith
  next
    case False
    then have "y = - 1" "month \<le> 2" using v(1) by (auto simp: y_def march_year_def split: if_splits)
    then have "306 \<le> doy" using mon(2) u(5) by simp
    then show ?thesis using n \<open>y = - 1\<close> by (simp add: year_start_def)
  qed
  show "n \<le> 3652364"
  proof (cases "y = 9999")
    case True
    then have "m < 10" using v(2) mon(2) by (auto simp: y_def march_year_def split: if_splits)
    then have "doy \<le> 305" using u(5) by simp
    then show ?thesis using n True by (simp add: year_start_def)
  next
    case False
    then have y: "y \<le> 9998" using v(2) by (auto simp: y_def march_year_def split: if_splits)
    show ?thesis
    proof (cases "y div 400 \<le> 23")
      case True
      then show ?thesis using n yu(3) by simp
    next
      case False
      then have "y div 400 = 24" "y mod 400 \<le> 398" using y by presburger+
      moreover from this have "year_start (y mod 400) \<le> 145369"
        unfolding year_start_def using b by linarith
      ultimately show ?thesis using n u(3) by simp
    qed
  qed
qed

lemma posix_days_of_date:
  assumes "- 60 \<le> n" "n \<le> 3652364" "date_of_days n = (year, month, day)"
  shows "is_valid_date year month day" "posix_days (march_year year month) month day + 719468 = n"
proof -
  define era where "era = n div 146097"
  define doe where "doe = n mod 146097"
  define z where "z = year_of_era doe"
  define doy where "doy = doe - year_start z"
  define m where "m = (5 * doy + 2) div 153"
  have n: "n = era * 146097 + doe" by (simp add: era_def doe_def)
  have doe: "0 \<le> doe" "doe \<le> 146096" by (simp_all add: doe_def)
  note yd = year_of_era_days [OF doe, folded z_def, folded doy_def]
  have md: "0 \<le> m" "m \<le> 11" "1 \<le> doy - month_start m + 1" "doy - month_start m + 1 \<le> month_days (leap_end z) m"
    using month_of_day [of doy "leap_end z"] yd by (simp_all add: m_def)
  define y where "y = z + era * 400"
  have ymod: "y mod 400 = z" "y div 400 = era" using yd by (simp_all add: y_def)
  have out: "month = (if m < 10 then m + 3 else m - 9)" "year = (if month \<le> 2 then y + 1 else y)"
    "day = doy - month_start m + 1"
    using assms(3) unfolding date_of_days_eq era_def [symmetric] doe_def [symmetric] z_def [symmetric]
      doy_def [symmetric] m_def [symmetric] Let_def y_def by (auto split: if_splits)
  have month: "1 \<le> month" "month \<le> 12" "march_month month = m" "month \<le> 2 \<longleftrightarrow> \<not> m < 10"
    using md(1,2) by (auto simp: out(1) march_month_def)
  have my: "march_year year month = y" by (simp add: out(2) march_year_def)
  have doy306: "m < 10 \<longleftrightarrow> doy < 306" using yd unfolding m_def by linarith
  have range: "0 \<le> year" "year \<le> 9999"
  proof -
    have yr: "-1 \<le> y" "y \<le> 9999"
    proof -
      have "- 1 \<le> era" using assms(1) unfolding era_def by linarith
      moreover have "era \<le> 24" using assms(2) unfolding era_def by linarith
      ultimately have e: "-1 \<le> era" "era \<le> 24" by simp_all
      show "y \<le> 9999" using e yd by (simp add: y_def)
      show "-1 \<le> y"
      proof (cases "era = - 1")
        case True
        then have d: "146037 \<le> doe" using assms(1) n by simp
        have "z = 399"
        proof (rule ccontr)
          assume "z \<noteq> 399"
          then have "z \<le> 398" using yd by simp
          then have "year_start z \<le> 145369" unfolding year_start_def using yd by linarith
          then show False using d yd by (simp add: doy_def)
        qed
        then show ?thesis using True by (simp add: y_def)
      qed (use e yd in \<open>simp add: y_def\<close>)
    qed
    have "year_start 399 = 145731" by (simp add: year_start_def)
    show "0 \<le> year"
    proof (cases "y = - 1")
      case True
      then have "era = - 1" "z = 399" using ymod by simp_all
      then have "306 \<le> doy" using assms(1) n \<open>year_start 399 = 145731\<close> by (simp add: doy_def)
      then show ?thesis using doy306 month(4) True by (simp add: out(2))
    qed (use yr in \<open>simp add: out(2)\<close>)
    show "year \<le> 9999"
    proof (cases "y = 9999")
      case True
      then have "era = 24" "z = 399" using ymod by simp_all
      then have "doy \<le> 305" using assms(2) n \<open>year_start 399 = 145731\<close> by (simp add: doy_def)
      then show ?thesis using doy306 month(4) True by (simp add: out(2))
    qed (use yr in \<open>simp add: out(2)\<close>)
  qed
  show "is_valid_date year month day"
    using range month md by (simp add: valid_date_iff my ymod out(3))
  show "posix_days (march_year year month) month day + 719468 = n"
    using posix_days_eq [OF month(1,2), of y day] n
    by (simp add: my ymod month(3) out(3) doy_def)
qed

section \<open>Times\<close>

text \<open>The code's correction of a negative remainder gives the floor quotient and remainder.\<close>

lemma floor_divmod:
  assumes "0 < b"
  shows "(if a smod b < 0 then (a sdiv b - 1, a smod b + b) else (a sdiv b, a smod b)) = (a div b, a mod (b :: int))"
proof -
  have "a sdiv b * b + a smod b = a" by (rule sdiv_mult_smod_eq)
  moreover have "\<bar>a smod b\<bar> < b"
    using assms by (simp add: signed_modulo_int_def abs_mult sgn_if)
  moreover have u: "(q, r) = (a div b, a mod b)" if "q * b + r = a" "0 \<le> r" "r < b" for q r
  proof -
    have "a = r + q * b" using that(1) by simp
    then show ?thesis using that(2,3) assms by (simp only: div_mult_self1 mod_mult_self1 div_pos_pos_trivial mod_pos_pos_trivial add_0_right simp_thms less_imp_neq not_sym)
  qed
  ultimately have e: "a sdiv b * b + a smod b = a" "\<bar>a smod b\<bar> < b" by blast+
  show ?thesis
  proof (cases "a smod b < 0")
    case True
    have "(a sdiv b - 1, a smod b + b) = (a div b, a mod b)"
    proof (rule u)
      show "(a sdiv b - 1) * b + (a smod b + b) = a" using e(1) by (simp only: left_diff_distrib mult_1)
    qed (use e(2) True in linarith)+
    then show ?thesis using True by (simp only: if_True)
  next
    case False
    have "(a sdiv b, a smod b) = (a div b, a mod b)" by (rule u [OF e(1)]) (use e(2) False in linarith)+
    then show ?thesis using False by (simp only: if_False)
  qed
qed

lemma utc_from_posix_time_eq:
  "utc_from_posix_time time =
   (if \<not> is_valid_posix_time time then None
    else let (year, month, day) = date_of_days (time div 86400 + 719468); secs = time mod 86400
         in Some (year, month, day, secs div 3600, secs mod 3600 div 60, secs mod 3600 mod 60))"
proof -
  have "0 \<le> time mod 86400" by simp
  then have "time mod 86400 sdiv 3600 = time mod 86400 div 3600" "time mod 86400 smod 3600 = time mod 86400 mod 3600"
    "time mod 86400 mod 3600 sdiv 60 = time mod 86400 mod 3600 div 60"
    "time mod 86400 mod 3600 smod 60 = time mod 86400 mod 3600 mod 60"
    by (simp_all add: sdiv_nonneg smod_nonneg)
  then show ?thesis
    unfolding utc_from_posix_time_def Let_def floor_divmod [of 86400 time, simplified] prod.case
    by (simp only:)
qed

lemma posix_time_from_utc_eq:
  "posix_time_from_utc year month day hours minutes seconds =
   (if is_valid_date year month day \<and> is_valid_time hours minutes seconds
    then Some (posix_days (march_year year month) month day * 86400 + hours * 3600 + minutes * 60 + seconds)
    else None)"
  by (simp add: posix_time_from_utc_def march_year_def Let_def)

lemma seconds_parts:
  fixes hours minutes seconds :: int
  assumes "is_valid_time hours minutes seconds"
  defines "secs \<equiv> hours * 3600 + minutes * 60 + seconds"
  shows "0 \<le> secs" "secs < 86400" "secs div 3600 = hours" "secs mod 3600 div 60 = minutes"
    "secs mod 3600 mod 60 = seconds"
proof -
  have v: "0 \<le> hours" "hours \<le> 23" "0 \<le> minutes" "minutes \<le> 59" "0 \<le> seconds" "seconds \<le> 59"
    using assms(1) by (auto simp: is_valid_time_def split: if_splits)
  then show "0 \<le> secs" "secs < 86400" by (simp_all add: secs_def)
  have "secs div 3600 = hours" "secs mod 3600 = minutes * 60 + seconds"
    using v by (auto simp: secs_def intro: int_div_pos_eq int_mod_pos_eq)
  moreover have "(minutes * 60 + seconds) div 60 = minutes" "(minutes * 60 + seconds) mod 60 = seconds"
    using v by simp_all
  ultimately show "secs div 3600 = hours" "secs mod 3600 div 60 = minutes" "secs mod 3600 mod 60 = seconds"
    by simp_all
qed

lemma valid_time_parts:
  fixes secs :: int
  assumes "0 \<le> secs" "secs < 86400"
  shows "is_valid_time (secs div 3600) (secs mod 3600 div 60) (secs mod 3600 mod 60)"
    "secs div 3600 * 3600 + secs mod 3600 div 60 * 60 + secs mod 3600 mod 60 = secs"
proof -
  have "secs div 3600 \<le> 23" using assms by linarith
  moreover have "secs mod 3600 div 60 \<le> 59" by linarith
  moreover have "0 \<le> secs mod 3600 div 60" by simp
  moreover have "0 \<le> secs mod 3600 mod 60" "secs mod 3600 mod 60 \<le> 59" by (simp, linarith)
  moreover have "0 \<le> secs div 3600" using assms by simp
  ultimately show "is_valid_time (secs div 3600) (secs mod 3600 div 60) (secs mod 3600 mod 60)"
    unfolding is_valid_time_def not_less [symmetric] by simp
  show "secs div 3600 * 3600 + secs mod 3600 div 60 * 60 + secs mod 3600 mod 60 = secs"
    by simp
qed

text \<open>The two conversions are inverse bijections between valid times and valid dates.\<close>

lemma utc_of_posix_of_utc:
  assumes "posix_time_from_utc year month day hours minutes seconds = Some time"
  shows "utc_from_posix_time time = Some (year, month, day, hours, minutes, seconds)"
proof -
  have v: "is_valid_date year month day" "is_valid_time hours minutes seconds"
    and t: "time = posix_days (march_year year month) month day * 86400 + (hours * 3600 + minutes * 60 + seconds)"
    using assms by (auto simp: posix_time_from_utc_eq split: if_splits)
  note d = date_of_posix_days [OF v(1)]
  note s = seconds_parts [OF v(2)]
  have td: "time div 86400 = posix_days (march_year year month) month day"
    "time mod 86400 = hours * 3600 + minutes * 60 + seconds"
    using s(1,2) unfolding t by (simp_all add: div_pos_pos_trivial mod_pos_pos_trivial)
  have "is_valid_posix_time time"
    using d(2,3) s(1,2) unfolding is_valid_posix_time_def t by linarith
  then show ?thesis
    by (simp only: utc_from_posix_time_eq td d(1) s(3-5) Let_def prod.case simp_thms if_False)
qed

lemma posix_of_utc_of_posix:
  assumes "utc_from_posix_time time = Some (year, month, day, hours, minutes, seconds)"
  shows "posix_time_from_utc year month day hours minutes seconds = Some time"
proof -
  have v: "is_valid_posix_time time" and d: "date_of_days (time div 86400 + 719468) = (year, month, day)"
    and hms: "hours = time mod 86400 div 3600" "minutes = time mod 86400 mod 3600 div 60"
      "seconds = time mod 86400 mod 3600 mod 60"
    using assms by (auto simp: utc_from_posix_time_eq Let_def split: if_splits prod.splits)
  have b: "- 60 \<le> time div 86400 + 719468" "time div 86400 + 719468 \<le> 3652364"
    using v unfolding is_valid_posix_time_def by linarith+
  note p = posix_days_of_date [OF b d]
  have "0 \<le> time mod 86400" "time mod 86400 < 86400" by simp_all
  note t = valid_time_parts [OF this, folded hms]
  have "posix_days (march_year year month) month day = time div 86400" using p(2) by simp
  moreover have "time div 86400 * 86400 + time mod 86400 = time" by (rule div_mult_mod_eq)
  ultimately have "posix_days (march_year year month) month day * 86400 + hours * 3600 + minutes * 60 + seconds = time"
    using t(2) by linarith
  then show ?thesis using p(1) t(1) by (simp only: posix_time_from_utc_eq simp_thms if_True)
qed

section \<open>The interface on \<open>struct tm\<close>\<close>

lemma posix_to_tm_iff: "OPENSSL_posix_to_tm time = Some t \<longleftrightarrow> OPENSSL_tm_to_posix t = Some time"
proof
  assume "OPENSSL_posix_to_tm time = Some t"
  then obtain y mo d h mi s where "utc_from_posix_time time = Some (y, mo, d, h, mi, s)"
    "t = \<lparr>tm_year = y - 1900, tm_mon = mo - 1, tm_mday = d, tm_hour = h, tm_min = mi, tm_sec = s\<rparr>"
    by (auto simp: OPENSSL_posix_to_tm_def split: option.splits)
  with posix_of_utc_of_posix show "OPENSSL_tm_to_posix t = Some time"
    by (simp add: OPENSSL_tm_to_posix_def)
next
  assume "OPENSSL_tm_to_posix t = Some time"
  then have "utc_from_posix_time time = Some (tm_year t + 1900, tm_mon t + 1, tm_mday t, tm_hour t, tm_min t, tm_sec t)"
    unfolding OPENSSL_tm_to_posix_def by (rule utc_of_posix_of_utc)
  then show "OPENSSL_posix_to_tm time = Some t" by (simp add: OPENSSL_posix_to_tm_def)
qed

lemma posix_to_tm_valid: "(\<exists>t. OPENSSL_posix_to_tm time = Some t) \<longleftrightarrow> is_valid_posix_time time"
  by (auto simp: OPENSSL_posix_to_tm_def utc_from_posix_time_eq Let_def split: prod.splits)

lemma tm_to_posix_valid: "OPENSSL_tm_to_posix t = Some time \<Longrightarrow> is_valid_posix_time time"
  using posix_to_tm_iff posix_to_tm_valid by blast

lemma gmtime_adj_iff:
  assumes "\<bar>offset_day\<bar> \<le> 2 ^ 31" "\<bar>offset_sec\<bar> < 2 ^ 62"
  shows "OPENSSL_gmtime_adj t offset_day offset_sec = Some t' \<longleftrightarrow>
    (\<exists>time. OPENSSL_tm_to_posix t = Some time \<and>
       OPENSSL_tm_to_posix t' = Some (time + offset_day * 86400 + offset_sec))"
proof (cases "OPENSSL_tm_to_posix t")
  case (Some time)
  define p where "p = time + offset_day * 86400"
  have "MIN_POSIX_TIME \<le> time" "time \<le> MAX_POSIX_TIME"
    using tm_to_posix_valid [OF Some] by (simp_all add: is_valid_posix_time_def)
  then have "- (2 ^ 62) < p" "p < 2 ^ 62" using assms(1) by (auto simp: p_def abs_le_iff)
  then have "\<not> (p > 0 \<and> offset_sec > INT64_MAX - p)" "\<not> (p < 0 \<and> offset_sec < INT64_MIN - p)"
    using assms(2) by (auto simp: abs_less_iff)
  then have "OPENSSL_gmtime_adj t offset_day offset_sec = OPENSSL_posix_to_tm (p + offset_sec)"
    by (simp only: OPENSSL_gmtime_adj_def Some option.case Let_def p_def [symmetric] if_False)
  then show ?thesis by (simp add: Some posix_to_tm_iff p_def)
qed (simp add: OPENSSL_gmtime_adj_def)

lemma gmtime_diff_correct:
  assumes "OPENSSL_gmtime_diff from_tm to_tm = Some (days, secs)"
  shows "\<exists>a b. OPENSSL_tm_to_posix from_tm = Some a \<and> OPENSSL_tm_to_posix to_tm = Some b \<and>
    b = a + days * 86400 + secs \<and> \<bar>secs\<bar> < 86400 \<and> (a \<le> b \<longrightarrow> 0 \<le> days \<and> 0 \<le> secs) \<and>
    (b \<le> a \<longrightarrow> days \<le> 0 \<and> secs \<le> 0)"
proof -
  obtain a b where ab: "OPENSSL_tm_to_posix from_tm = Some a" "OPENSSL_tm_to_posix to_tm = Some b"
    "days = (b - a) sdiv 86400" "secs = (b - a) smod 86400"
    using assms by (auto simp: OPENSSL_gmtime_diff_def Let_def split: option.splits)
  have "(b - a) sdiv 86400 * 86400 + (b - a) smod 86400 = b - a" by (rule sdiv_mult_smod_eq)
  moreover have "\<bar>(b - a) smod 86400\<bar> < 86400"
    by (simp add: signed_modulo_int_def abs_mult sgn_if)
  moreover have "a \<le> b \<longrightarrow> 0 \<le> (b - a) sdiv 86400 \<and> 0 \<le> (b - a) smod 86400"
    by (simp add: sdiv_nonneg smod_nonneg pos_imp_zdiv_nonneg_iff)
  moreover have "b \<le> a \<longrightarrow> (b - a) sdiv 86400 \<le> 0 \<and> (b - a) smod 86400 \<le> 0"
    by (auto simp: signed_divide_int_def signed_modulo_int_def sgn_if)
  ultimately show ?thesis using ab by (intro exI [of _ a] exI [of _ b]) (simp add: algebra_simps)
qed

end
