(* ===== verification/Asn1_Time.thy ===== *)
theory Asn1_Time
  imports Cbs Posix_Time
begin

text \<open>
  The time types of the DER parser, \<open>cbs_get_two_digits\<close> to \<open>CBS_parse_utc_time\<close> of
  \<open>crypto/bytestring/cbs.c\<close>. The two parsers are shown to accept exactly the printed forms of
  the valid dates and times, each time in one form only.
\<close>

section \<open>The parser\<close>

definition cbs_get_two_digits :: "int reader" where
  "cbs_get_two_digits =
     rbind CBS_get_u8 (\<lambda>first_digit. rbind (rcheck (OPENSSL_isdigit first_digit)) (\<lambda>_.
     rbind CBS_get_u8 (\<lambda>second_digit. rbind (rcheck (OPENSSL_isdigit second_digit)) (\<lambda>_.
     rret ((int (unat first_digit) - 0x30) * 10 + (int (unat second_digit) - 0x30))))))"

definition is_valid_day :: "int \<Rightarrow> int \<Rightarrow> int \<Rightarrow> bool" where
  "is_valid_day year month day =
     (if day < 1 then False
      else if month \<in> {1, 3, 5, 7, 8, 10, 12} then day \<le> 31
      else if month \<in> {4, 6, 9, 11} then day \<le> 30
      else if month = 2 then if is_leap year then day \<le> 29 else day \<le> 28
      else False)"

text \<open>The year, with a century for the type \<open>GeneralizedTime\<close> and without one for \<open>UTCTime\<close>.\<close>

definition get_year :: "bool \<Rightarrow> int reader" where
  "get_year is_gentime =
     (if is_gentime
      then rbind cbs_get_two_digits (\<lambda>tmp. let year = tmp * 100 in
           rbind cbs_get_two_digits (\<lambda>tmp. rret (year + tmp)))
      else rbind cbs_get_two_digits (\<lambda>tmp.
           let year = 1900 + tmp; year = (if year < 1950 then year + 100 else year)
           in if year \<ge> 2050 then rfail else rret year))"

definition get_time_zone :: "bool \<Rightarrow> int reader" where
  "get_time_zone allow_timezone_offset =
     rbind CBS_get_u8 (\<lambda>tz.
     if tz = 0x5a then rret 0
     else if tz \<noteq> 0x2b \<and> tz \<noteq> 0x2d then rfail
     else let offset_sign = (if tz = 0x2b then 1 else - 1)
     in rbind (rcheck allow_timezone_offset) (\<lambda>_.
        rbind cbs_get_two_digits (\<lambda>offset_hours. rbind (rcheck (\<not> offset_hours > 23)) (\<lambda>_.
        rbind cbs_get_two_digits (\<lambda>offset_minutes. rbind (rcheck (\<not> offset_minutes > 59)) (\<lambda>_.
        rret (offset_sign * (offset_hours * 3600 + offset_minutes * 60))))))))"

definition get_time_parts :: "bool \<Rightarrow> bool \<Rightarrow> (tm \<times> int) reader" where
  "get_time_parts is_gentime allow_timezone_offset =
     rbind (get_year is_gentime) (\<lambda>year.
     rbind cbs_get_two_digits (\<lambda>month. rbind (rcheck (\<not> (month < 1 \<or> month > 12))) (\<lambda>_.
     rbind cbs_get_two_digits (\<lambda>day. rbind (rcheck (is_valid_day year month day)) (\<lambda>_.
     rbind cbs_get_two_digits (\<lambda>hour. rbind (rcheck (\<not> hour > 23)) (\<lambda>_.
     rbind cbs_get_two_digits (\<lambda>min. rbind (rcheck (\<not> min > 59)) (\<lambda>_.
     rbind cbs_get_two_digits (\<lambda>sec. rbind (rcheck (\<not> sec > 59)) (\<lambda>_.
     rbind (get_time_zone allow_timezone_offset) (\<lambda>offset_seconds.
     rret (\<lparr>tm_year = year - 1900, tm_mon = month - 1, tm_mday = day, tm_hour = hour,
             tm_min = min, tm_sec = sec\<rparr>, offset_seconds)))))))))))))"

text \<open>
  None for the return value zero, otherwise \<open>*out_tm\<close>, which is None when the caller passed NULL.
\<close>

definition CBS_parse_rfc5280_time_internal :: "CBS \<Rightarrow> bool \<Rightarrow> bool \<Rightarrow> bool \<Rightarrow> tm option option" where
  "CBS_parse_rfc5280_time_internal cbs is_gentime allow_timezone_offset have_out =
     (case get_time_parts is_gentime allow_timezone_offset cbs of
        (None, _) \<Rightarrow> None
      | (Some (out_tm, offset_seconds), copy) \<Rightarrow>
          if length copy \<noteq> 0 then None
          else if \<not> have_out then Some None
          else if offset_seconds = 0 then Some (Some out_tm)
          else (case OPENSSL_gmtime_adj out_tm 0 offset_seconds of
                  None \<Rightarrow> None
                | Some out_tm \<Rightarrow> Some (Some out_tm)))"

definition CBS_parse_generalized_time :: "CBS \<Rightarrow> bool \<Rightarrow> bool \<Rightarrow> tm option option" where
  "CBS_parse_generalized_time cbs have_out allow_timezone_offset =
     CBS_parse_rfc5280_time_internal cbs True allow_timezone_offset have_out"

definition CBS_parse_utc_time :: "CBS \<Rightarrow> bool \<Rightarrow> bool \<Rightarrow> tm option option" where
  "CBS_parse_utc_time cbs have_out allow_timezone_offset =
     CBS_parse_rfc5280_time_internal cbs False allow_timezone_offset have_out"

section \<open>Two digits\<close>

definition two_digits :: "int \<Rightarrow> byte list" where
  "two_digits n = [of_int (n div 10 + 0x30), of_int (n mod 10 + 0x30)]"

lemma isdigit_nat: "OPENSSL_isdigit c \<longleftrightarrow> 0x30 \<le> unat c \<and> unat c \<le> 0x39"
  by (simp add: OPENSSL_isdigit_def word_le_nat_alt)

lemma unat_of_int_byte: "0 \<le> n \<Longrightarrow> n < 256 \<Longrightarrow> unat (of_int n :: byte) = nat n"
  by (simp add: unat_eq_nat_uint uint_word_of_int_eq take_bit_int_eq_self)

lemma cbs_get_two_digits_iff:
  "cbs_get_two_digits s = (Some n, t) \<longleftrightarrow> 0 \<le> n \<and> n \<le> 99 \<and> s = two_digits n @ t"
proof
  assume "cbs_get_two_digits s = (Some n, t)"
  then obtain a b where s: "s = a # b # t" and d: "OPENSSL_isdigit a" "OPENSSL_isdigit b"
    and n: "n = (int (unat a) - 0x30) * 10 + (int (unat b) - 0x30)"
    unfolding cbs_get_two_digits_def rbind_eq_Some rcheck_eq_Some
    by (cases s; cases "tl s") (auto simp: rbind_eq_Some rcheck_eq_Some)
  define x where "x = int (unat a) - 0x30"
  define y where "y = int (unat b) - 0x30"
  have "0x30 \<le> unat a" "unat a \<le> 0x39" "0x30 \<le> unat b" "unat b \<le> 0x39" using d unfolding isdigit_nat by blast+
  then have "0 \<le> x" "x \<le> 9" "0 \<le> y" "y \<le> 9" unfolding x_def y_def by linarith+
  then have "n div 10 = x" "n mod 10 = y" "0 \<le> n" "n \<le> 99" unfolding n x_def [symmetric] y_def [symmetric] by simp_all
  then have "n div 10 + 0x30 = int (unat a)" "n mod 10 + 0x30 = int (unat b)" "0 \<le> n" "n \<le> 99"
    by (simp_all add: x_def y_def)
  moreover have "of_int (int (unat a)) = a" "of_int (int (unat b)) = b" by simp_all
  ultimately show "0 \<le> n \<and> n \<le> 99 \<and> s = two_digits n @ t"
    by (simp add: s two_digits_def)
next
  assume n: "0 \<le> n \<and> n \<le> 99 \<and> s = two_digits n @ t"
  let ?a = "of_int (n div 10 + 0x30) :: byte" and ?b = "of_int (n mod 10 + 0x30) :: byte"
  have "0 \<le> n div 10" "n div 10 \<le> 9" "0 \<le> n mod 10" "n mod 10 \<le> 9" using n by linarith+
  then have u: "unat ?a = nat (n div 10 + 0x30)" "unat ?b = nat (n mod 10 + 0x30)"
    by (auto intro: unat_of_int_byte simp del: of_int_add)
  have d: "OPENSSL_isdigit ?a" "OPENSSL_isdigit ?b"
    using \<open>0 \<le> n div 10\<close> \<open>n div 10 \<le> 9\<close> \<open>0 \<le> n mod 10\<close> \<open>n mod 10 \<le> 9\<close>
    unfolding isdigit_nat u by linarith+
  have "(int (unat ?a) - 0x30) * 10 + (int (unat ?b) - 0x30) = n"
    using \<open>0 \<le> n div 10\<close> \<open>0 \<le> n mod 10\<close> unfolding u by simp
  then show "cbs_get_two_digits s = (Some n, t)"
    using n d unfolding cbs_get_two_digits_def
    by (simp only: two_digits_def append_Cons append_Nil) (simp add: rbind_def rcheck_def)
qed

section \<open>The printed forms\<close>

text \<open>What follows the year in both types.\<close>

definition month_to_second :: "tm \<Rightarrow> byte list" where
  "month_to_second t = two_digits (tm_mon t + 1) @ two_digits (tm_mday t) @ two_digits (tm_hour t) @
     two_digits (tm_min t) @ two_digits (tm_sec t)"

definition printed_year :: "bool \<Rightarrow> int \<Rightarrow> byte list" where
  "printed_year is_gentime year =
     (if is_gentime then two_digits (year div 100) @ two_digits (year mod 100) else two_digits (year mod 100))"

definition printable_year :: "bool \<Rightarrow> int \<Rightarrow> bool" where
  "printable_year is_gentime year \<longleftrightarrow> (if is_gentime then 0 \<le> year \<and> year \<le> 9999 else 1950 \<le> year \<and> year < 2050)"

definition printed_time :: "bool \<Rightarrow> tm \<Rightarrow> byte list" where
  "printed_time is_gentime t = printed_year is_gentime (tm_year t + 1900) @ month_to_second t"

text \<open>The zone \<open>Z\<close>, or the offset in hours and minutes.\<close>

definition printed_zone :: "int \<Rightarrow> byte list \<Rightarrow> bool" where
  "printed_zone offset z \<longleftrightarrow> (offset = 0 \<and> z = [0x5a]) \<or>
     (\<exists>h m. 0 \<le> h \<and> h \<le> 23 \<and> 0 \<le> m \<and> m \<le> 59 \<and>
        ((z = 0x2b # two_digits h @ two_digits m \<and> offset = h * 3600 + m * 60) \<or>
         (z = 0x2d # two_digits h @ two_digits m \<and> offset = - (h * 3600 + m * 60))))"

lemma two_digit_year:
  fixes a year :: int
  shows "0 \<le> a \<and> a \<le> 99 \<and> year = (if 1900 + a < 1950 then 1900 + a + 100 else 1900 + a) \<and> \<not> year \<ge> 2050 \<longleftrightarrow>
    1950 \<le> year \<and> year < 2050 \<and> a = year mod 100"
proof (intro iffI; elim conjE)
  assume a: "0 \<le> a" "a \<le> 99" "year = (if 1900 + a < 1950 then 1900 + a + 100 else 1900 + a)"
  show "1950 \<le> year \<and> year < 2050 \<and> a = year mod 100"
  proof (cases "1900 + a < 1950")
    case True
    with a have "year = a + 100 * 20" by simp
    moreover have "(a + 100 * 20) mod 100 = a mod 100" by (rule mod_mult_self2)
    ultimately show ?thesis using a(1,2) True by simp
  next
    case False
    with a have "year = a + 100 * 19" by simp
    moreover have "(a + 100 * 19) mod 100 = a mod 100" by (rule mod_mult_self2)
    ultimately show ?thesis using a(1,2) False by simp
  qed
next
  assume y: "1950 \<le> year" "year < 2050" and a: "a = year mod 100"
  have range: "0 \<le> a" "a \<le> 99" using a by simp_all
  have parts: "year = 100 * (year div 100) + a" by (simp add: a)
  show "0 \<le> a \<and> a \<le> 99 \<and> year = (if 1900 + a < 1950 then 1900 + a + 100 else 1900 + a) \<and> \<not> year \<ge> 2050"
  proof (cases "year < 2000")
    case True
    have "year div 100 = 19" using parts range y(1) True by linarith
    with parts y(1) range True show ?thesis by simp
  next
    case False
    have "year div 100 = 20" using parts range y(2) False by linarith
    with parts y(2) range False show ?thesis by simp
  qed
qed

lemma get_year_iff:
  "get_year is_gentime s = (Some year, t) \<longleftrightarrow> printable_year is_gentime year \<and> s = printed_year is_gentime year @ t"
proof (cases is_gentime)
  case True
  have "(\<exists>a b. 0 \<le> a \<and> a \<le> 99 \<and> 0 \<le> b \<and> b \<le> 99 \<and> year = a * 100 + b \<and> s = two_digits a @ two_digits b @ t) \<longleftrightarrow>
    0 \<le> year \<and> year \<le> 9999 \<and> s = two_digits (year div 100) @ two_digits (year mod 100) @ t" (is "?L \<longleftrightarrow> ?R")
  proof
    assume ?R
    then have "0 \<le> year div 100" "year div 100 \<le> 99" "0 \<le> year mod 100" "year mod 100 \<le> 99" by linarith+
    with \<open>?R\<close> show ?L by (intro exI [of _ "year div 100"] exI [of _ "year mod 100"]) simp
  qed auto
  then show ?thesis using True
    by (auto simp: get_year_def printable_year_def printed_year_def rbind_eq_Some cbs_get_two_digits_iff Let_def)
next
  case False
  define y :: "int \<Rightarrow> int" where "y a = (if 1900 + a < 1950 then 1900 + a + 100 else 1900 + a)" for a
  have "get_year is_gentime s = (Some year, t) \<longleftrightarrow>
      (\<exists>a s'. cbs_get_two_digits s = (Some a, s') \<and> (if y a \<ge> 2050 then rfail else rret (y a)) s' = (Some year, t))"
    unfolding get_year_def if_not_P [OF False] rbind_eq_Some Let_def y_def ..
  also have "\<dots> \<longleftrightarrow> (\<exists>a. cbs_get_two_digits s = (Some a, t) \<and> year = y a \<and> \<not> year \<ge> 2050)"
  proof -
    have "(if y a \<ge> 2050 then rfail else rret (y a)) s' = (Some year, t) \<longleftrightarrow> s' = t \<and> year = y a \<and> \<not> year \<ge> 2050" for a s'
      by (cases "y a \<ge> 2050") auto
    then show ?thesis by (simp only:) iprover
  qed
  also have "\<dots> \<longleftrightarrow> (\<exists>a. (0 \<le> a \<and> a \<le> 99 \<and> year = y a \<and> \<not> year \<ge> 2050) \<and> s = two_digits a @ t)"
    by (simp only: cbs_get_two_digits_iff conj_ac)
  also have "\<dots> \<longleftrightarrow> 1950 \<le> year \<and> year < 2050 \<and> s = two_digits (year mod 100) @ t"
    by (simp only: y_def two_digit_year conj_assoc) iprover
  finally show ?thesis using False by (simp only: printable_year_def printed_year_def if_False conj_assoc)
qed

lemma rbind_two_digits [simp]:
  "0 \<le> n \<Longrightarrow> n \<le> 99 \<Longrightarrow> rbind cbs_get_two_digits f (two_digits n @ t) = f n t"
  by (rule rbind_Some) (simp only: cbs_get_two_digits_iff simp_thms)

lemma get_time_zone_Cons:
  "get_time_zone allow (tz # s) =
   (if tz = 0x5a then (Some 0, s)
    else if tz \<noteq> 0x2b \<and> tz \<noteq> 0x2d \<or> \<not> allow then (None, s)
    else rbind cbs_get_two_digits (\<lambda>h. rbind (rcheck (\<not> h > 23)) (\<lambda>_.
         rbind cbs_get_two_digits (\<lambda>m. rbind (rcheck (\<not> m > 59)) (\<lambda>_.
         rret ((if tz = 0x2b then 1 else - 1) * (h * 3600 + m * 60)))))) s)"
  by (cases allow) (simp_all add: get_time_zone_def rbind_Some Let_def)

lemma get_time_zone_iff:
  "get_time_zone allow s = (Some offset, t) \<longleftrightarrow>
   (\<exists>z. s = z @ t \<and> printed_zone offset z \<and> (z = [0x5a] \<or> allow))" (is "?L \<longleftrightarrow> ?R")
proof
  assume l: ?L
  then obtain tz s' where s: "s = tz # s'" by (cases s) (auto simp: get_time_zone_def rbind_None)
  show ?R
  proof (cases "tz = 0x5a")
    case True
    with l show ?R by (intro exI [of _ "[0x5a]"]) (simp add: s get_time_zone_Cons printed_zone_def)
  next
    case False
    with l have tz: "tz = 0x2b \<or> tz = 0x2d" and allow: allow by (auto simp: s get_time_zone_Cons split: if_splits)
    with l False obtain h m where hm: "0 \<le> h" "\<not> h > 23" "0 \<le> m" "\<not> m > 59" "s' = two_digits h @ two_digits m @ t"
      "offset = (if tz = 0x2b then 1 else - 1) * (h * 3600 + m * 60)"
      unfolding s get_time_zone_Cons if_not_P [OF False] rbind_eq_Some rcheck_eq_Some cbs_get_two_digits_iff
      by (auto simp: rbind_eq_Some rcheck_eq_Some cbs_get_two_digits_iff)
    have "(tz = 0x2b \<and> offset = h * 3600 + m * 60) \<or> (tz = 0x2d \<and> offset = - (h * 3600 + m * 60))"
      using tz hm(6) by auto
    then have "printed_zone offset (tz # two_digits h @ two_digits m)"
      using hm(1-4) unfolding printed_zone_def not_less by blast
    then show ?R using allow hm(5) by (intro exI [of _ "tz # two_digits h @ two_digits m"]) (simp add: s)
  qed
next
  assume ?R
  then show ?L by (auto simp: printed_zone_def get_time_zone_Cons)
qed

lemma rbind_get_year [simp]:
  "printable_year is_gentime year \<Longrightarrow> rbind (get_year is_gentime) f (printed_year is_gentime year @ t) = f year t"
  by (rule rbind_Some) (simp only: get_year_iff simp_thms)

lemma rbind_get_time_zone:
  "printed_zone offset z \<Longrightarrow> z = [0x5a] \<or> allow \<Longrightarrow> rbind (get_time_zone allow) f (z @ t) = f offset t"
  by (rule rbind_Some) (auto simp only: get_time_zone_iff)

lemma is_valid_day_date: "1 \<le> month \<Longrightarrow> month \<le> 12 \<Longrightarrow> 0 \<le> year \<Longrightarrow> year \<le> 9999 \<Longrightarrow>
    is_valid_day year month day \<longleftrightarrow> is_valid_date year month day"
  by (auto simp: is_valid_day_def is_valid_date_def)

lemma tm_to_posix_ex:
  "(\<exists>time. OPENSSL_tm_to_posix t = Some time) \<longleftrightarrow>
   is_valid_date (tm_year t + 1900) (tm_mon t + 1) (tm_mday t) \<and> is_valid_time (tm_hour t) (tm_min t) (tm_sec t)"
  by (auto simp: OPENSSL_tm_to_posix_def posix_time_from_utc_eq)

lemma is_valid_date_bounds:
  "is_valid_date year month day \<Longrightarrow> 0 \<le> year \<and> year \<le> 9999 \<and> 1 \<le> month \<and> month \<le> 12 \<and> 1 \<le> day \<and> day \<le> 31"
  by (auto simp: is_valid_date_def split: if_splits)

lemma get_time_parts_iff:
  "get_time_parts is_gentime allow s = (Some (t, offset), rest) \<longleftrightarrow>
   (\<exists>z. s = printed_time is_gentime t @ z @ rest \<and> printed_zone offset z \<and> (z = [0x5a] \<or> allow)) \<and>
   printable_year is_gentime (tm_year t + 1900) \<and> (\<exists>time. OPENSSL_tm_to_posix t = Some time)"
  (is "?L \<longleftrightarrow> ?R")
proof
  assume ?L
  then obtain year month day hour min sec z where p: "printable_year is_gentime year" "1 \<le> month" "month \<le> 12"
    "is_valid_day year month day" "0 \<le> hour" "hour \<le> 23" "0 \<le> min" "min \<le> 59" "0 \<le> sec" "sec \<le> 59"
    "s = printed_year is_gentime year @ two_digits month @ two_digits day @ two_digits hour @ two_digits min @
      two_digits sec @ z @ rest"
    "printed_zone offset z" "z = [0x5a] \<or> allow"
    "t = \<lparr>tm_year = year - 1900, tm_mon = month - 1, tm_mday = day, tm_hour = hour, tm_min = min, tm_sec = sec\<rparr>"
    by (auto simp: get_time_parts_def rbind_eq_Some rcheck_eq_Some cbs_get_two_digits_iff get_year_iff get_time_zone_iff)
  have "0 \<le> year" "year \<le> 9999" using p(1) by (auto simp: printable_year_def split: if_splits)
  then have "is_valid_date year month day" using p(2-4) by (simp add: is_valid_day_date)
  with p show ?R
    by (auto simp: tm_to_posix_ex is_valid_time_def printed_time_def month_to_second_def)
next
  assume r: ?R
  then have v: "is_valid_date (tm_year t + 1900) (tm_mon t + 1) (tm_mday t)" "is_valid_time (tm_hour t) (tm_min t) (tm_sec t)"
    by (simp_all only: tm_to_posix_ex)
  note b = is_valid_date_bounds [OF v(1)]
  have "is_valid_day (tm_year t + 1900) (tm_mon t + 1) (tm_mday t)"
    using v(1) b is_valid_day_date by blast
  with r b v(2) show ?L
    by (auto simp: get_time_parts_def rbind_get_time_zone is_valid_time_def printed_time_def month_to_second_def
        split: if_splits)
qed

section \<open>The two types\<close>

text \<open>
  A parse succeeds exactly on the printed form of a valid time in the range of the type, with an
  offset only where it is allowed; the result is that time, moved by the offset.
\<close>

lemma small_offset: "printed_zone offset z \<Longrightarrow> \<bar>offset\<bar> < 86400"
  by (auto simp: printed_zone_def)

lemma parse_time_iff:
  "CBS_parse_rfc5280_time_internal cbs is_gentime allow True = Some (Some t') \<longleftrightarrow>
   (\<exists>t z offset time. cbs = printed_time is_gentime t @ z \<and> printed_zone offset z \<and> (z = [0x5a] \<or> allow) \<and>
      printable_year is_gentime (tm_year t + 1900) \<and> OPENSSL_tm_to_posix t = Some time \<and>
      OPENSSL_tm_to_posix t' = Some (time + offset))"
  (is "?L \<longleftrightarrow> ?R")
proof -
  have "?L \<longleftrightarrow> (\<exists>t offset. get_time_parts is_gentime allow cbs = (Some (t, offset), []) \<and>
      (if offset = 0 then t' = t else OPENSSL_gmtime_adj t 0 offset = Some t'))"
    by (auto simp: CBS_parse_rfc5280_time_internal_def split: prod.splits option.splits if_splits)
  also have "\<dots> \<longleftrightarrow> (\<exists>t offset. get_time_parts is_gentime allow cbs = (Some (t, offset), []) \<and>
      (\<exists>time. OPENSSL_tm_to_posix t = Some time \<and> OPENSSL_tm_to_posix t' = Some (time + offset)))"
  proof (intro ex_cong1 conj_cong refl)
    fix t offset assume g: "get_time_parts is_gentime allow cbs = (Some (t, offset), [])"
    then obtain time where t: "OPENSSL_tm_to_posix t = Some time" by (auto simp: get_time_parts_iff)
    have "\<bar>offset\<bar> < 2 ^ 62" using g small_offset by (fastforce simp: get_time_parts_iff)
    then have adj: "OPENSSL_gmtime_adj t 0 offset = Some t' \<longleftrightarrow>
        (\<exists>time. OPENSSL_tm_to_posix t = Some time \<and> OPENSSL_tm_to_posix t' = Some (time + offset))"
      using gmtime_adj_iff [of 0 offset t t'] by simp
    have "t' = t \<longleftrightarrow> OPENSSL_tm_to_posix t' = Some time"
      using t posix_to_tm_iff by (metis option.inject)
    with adj t show "(if offset = 0 then t' = t else OPENSSL_gmtime_adj t 0 offset = Some t') \<longleftrightarrow>
        (\<exists>time. OPENSSL_tm_to_posix t = Some time \<and> OPENSSL_tm_to_posix t' = Some (time + offset))"
      by simp
  qed
  also have "\<dots> \<longleftrightarrow> ?R" unfolding get_time_parts_iff append_Nil2 by blast
  finally show ?thesis .
qed

text \<open>Without offsets the parsers invert the printing of valid times.\<close>

lemma parse_print_time:
  "CBS_parse_rfc5280_time_internal cbs is_gentime False True = Some (Some t) \<longleftrightarrow>
   cbs = printed_time is_gentime t @ [0x5a] \<and> printable_year is_gentime (tm_year t + 1900) \<and>
   (\<exists>time. OPENSSL_tm_to_posix t = Some time)"
proof -
  have z: "printed_zone offset [0x5a] \<longleftrightarrow> offset = 0" for offset by (auto simp: printed_zone_def)
  have inj: "OPENSSL_tm_to_posix t' = Some time \<Longrightarrow> OPENSSL_tm_to_posix t = Some time \<Longrightarrow> t' = t" for t' time
    by (metis option.inject posix_to_tm_iff)
  show ?thesis
  proof
    assume "CBS_parse_rfc5280_time_internal cbs is_gentime False True = Some (Some t)"
    then obtain u time where "cbs = printed_time is_gentime u @ [0x5a]" "printable_year is_gentime (tm_year u + 1900)"
      "OPENSSL_tm_to_posix u = Some time" "OPENSSL_tm_to_posix t = Some time"
      unfolding parse_time_iff using z by fastforce
    moreover from this(3,4) have "t = u" by (metis inj)
    ultimately show "cbs = printed_time is_gentime t @ [0x5a] \<and> printable_year is_gentime (tm_year t + 1900) \<and>
      (\<exists>time. OPENSSL_tm_to_posix t = Some time)" by blast
  next
    assume "cbs = printed_time is_gentime t @ [0x5a] \<and> printable_year is_gentime (tm_year t + 1900) \<and>
      (\<exists>time. OPENSSL_tm_to_posix t = Some time)"
    then obtain time where "cbs = printed_time is_gentime t @ [0x5a]" "printable_year is_gentime (tm_year t + 1900)"
      "OPENSSL_tm_to_posix t = Some time" by blast
    then show "CBS_parse_rfc5280_time_internal cbs is_gentime False True = Some (Some t)"
      unfolding parse_time_iff by (intro exI [of _ t] exI [of _ "[0x5a]"] exI [of _ 0] exI [of _ time]) (simp add: z)
  qed
qed

end
