(* ===== verification/Oid.thy ===== *)
theory Oid
  imports Ber
begin

text \<open>
  Object identifiers as text: \<open>CBS_asn1_oid_to_text\<close> of \<open>crypto/bytestring/cbs.c\<close> and
  \<open>CBB_add_asn1_oid_from_text\<close> of \<open>crypto/bytestring/cbb.c\<close>, with the decimal numbers both are
  made of. The two are shown to be the two directions of one bijection between the encodings of
  object identifiers and their dotted decimal form.
\<close>

section \<open>The code\<close>

text \<open>The characters that \<open>snprintf\<close> writes for the format \<open>"%" PRIu64\<close>.\<close>

fun decimal_text :: "nat \<Rightarrow> byte list" where
  "decimal_text n = (if n < 10 then [of_nat (0x30 + n)] else decimal_text (n div 10) @ [of_nat (0x30 + n mod 10)])"

declare decimal_text.simps [simp del]

definition add_decimal :: "nat \<Rightarrow> u64 \<Rightarrow> writer" where
  "add_decimal k v = CBB_add_bytes k (decimal_text (unat v))"

lemma parse_base128_shorter:
  "parse_base128_integer s = (Some v, t) \<Longrightarrow> length t < length s"
  by (auto simp: parse_base128_integer_iff base128_def)

function oid_text_loop :: "CBS \<Rightarrow> writer" where
  "oid_text_loop copy cbb =
     (if length copy = 0 then (True, cbb)
      else case parse_base128_integer copy of
        (None, _) \<Rightarrow> (False, cbb)
      | (Some v, copy) \<Rightarrow>
          wand (wand (CBB_add_u8 0 0x2e) (add_decimal 0 v)) (oid_text_loop copy) cbb)"
  by pat_completeness auto
termination
  by (relation "measure (\<lambda>(copy, cbb). length copy)") (auto dest!: sym [of "(_, _)"] dest: parse_base128_shorter)

declare oid_text_loop.simps [simp del]

definition CBS_asn1_oid_to_text :: "(nat \<Rightarrow> bool) \<Rightarrow> CBS \<Rightarrow> byte list option" where
  "CBS_asn1_oid_to_text alloc cbs =
     (case CBB_init alloc 32 of None \<Rightarrow> None | Some cbb \<Rightarrow>
     (case parse_base128_integer cbs of (None, _) \<Rightarrow> None | (Some v, copy) \<Rightarrow>
      let first = (if v \<ge> 80 then wand (CBB_add_bytes 0 [0x32, 0x2e]) (add_decimal 0 (v - 80))
                   else wand (wand (add_decimal 0 (v div 40)) (CBB_add_u8 0 0x2e)) (add_decimal 0 (v mod 40)))
      in (case wand (wand first (oid_text_loop copy)) (CBB_add_u8 0 0) cbb of
            (False, _) \<Rightarrow> None
          | (True, cbb) \<Rightarrow> fst (CBB_finish 0 True cbb))))"

definition parse_dotted_decimal :: "u64 reader" where
  "parse_dotted_decimal cbs =
     (case CBS_get_u64_decimal cbs of (None, cbs) \<Rightarrow> (None, cbs) | (Some out, cbs) \<Rightarrow>
     (case CBS_get_u8 cbs of
        (None, cbs) \<Rightarrow> (Some out, cbs)
      | (Some dot, cbs) \<Rightarrow> if dot = 0x2e \<and> length cbs > 0 then (Some out, cbs) else (None, cbs)))"

section \<open>Decimal numbers\<close>

lemma unat_of_nat_less: "n < 2 ^ LENGTH('a) \<Longrightarrow> unat (of_nat n :: 'a::len word) = n"
  by (simp add: unat_of_nat take_bit_nat_eq_self)

lemma decimal_text_snoc: "0 < n \<Longrightarrow> d < 10 \<Longrightarrow> decimal_text (n * 10 + d) = decimal_text n @ [of_nat (0x30 + d)]"
  using decimal_text.simps [of "n * 10 + d"] by simp

lemma decimal_text_digit: "d < 10 \<Longrightarrow> decimal_text d = [of_nat (0x30 + d)]"
  using decimal_text.simps [of d] by simp

lemma decimal_text_ne [simp]: "decimal_text n \<noteq> []"
  using decimal_text.simps [of n] by simp

lemma isdigit_iff: "OPENSSL_isdigit c \<longleftrightarrow> (\<exists>d < 10. c = of_nat (0x30 + d))"
proof
  assume "OPENSSL_isdigit c"
  then have "unat c - 0x30 < 10" "c = of_nat (0x30 + (unat c - 0x30))"
    by (auto simp: OPENSSL_isdigit_def word_le_nat_alt)
  then show "\<exists>d < 10. c = of_nat (0x30 + d)" by blast
next
  assume "\<exists>d < 10. c = of_nat (0x30 + d)"
  then obtain d where d: "d < 10" "c = of_nat (0x30 + d)" by blast
  then have "unat c = 0x30 + d" by (simp only: d(2) unat_of_nat_byte) simp
  with d show "OPENSSL_isdigit c" by (simp add: OPENSSL_isdigit_def word_le_nat_alt)
qed

lemma digit_step:
  fixes v :: u64
  assumes d: "d < 10" and c: "c = (of_nat (0x30 + d) :: byte)"
  shows "(v > UINT64_MAX div 10 \<or> v * 10 > UINT64_MAX - ucast (c - 0x30)) \<longleftrightarrow> 2 ^ 64 \<le> unat v * 10 + d"
    and "unat v * 10 + d < 2 ^ 64 \<Longrightarrow> unat (v * 10 + ucast (c - 0x30)) = unat v * 10 + d"
proof -
  have "c - 0x30 = of_nat d" by (simp add: c)
  then have "unat (c - 0x30) = d" using d by (simp add: unat_of_nat_byte)
  then have u: "unat (ucast (c - 0x30) :: u64) = d" by (simp add: unat_ucast_up)
  have max: "unat (UINT64_MAX div 10) = (2 ^ 64 - 1) div 10" by (simp add: unat_div)
  have le: "ucast (c - 0x30) \<le> UINT64_MAX" unfolding word_le_nat_alt u using d by simp
  have sub: "unat (UINT64_MAX - ucast (c - 0x30)) = 2 ^ 64 - 1 - d" using le unfolding unat_sub [OF le] u by simp
  have mult: "unat (v * 10) = unat v * 10" if "unat v \<le> (2 ^ 64 - 1) div 10"
    using that by (subst unat_mult_lem [THEN iffD1]) simp_all
  have two64: "(2 :: nat) ^ 64 = 18446744073709551616" by simp
  show "(v > UINT64_MAX div 10 \<or> v * 10 > UINT64_MAX - ucast (c - 0x30)) \<longleftrightarrow> 2 ^ 64 \<le> unat v * 10 + d"
  proof (cases "unat v \<le> (2 ^ 64 - 1) div 10")
    case True
    then show ?thesis unfolding word_less_nat_alt max sub mult [OF True] using d two64 by auto
  next
    case False
    then show ?thesis unfolding word_less_nat_alt max using two64 by auto
  qed
  assume f: "unat v * 10 + d < 2 ^ 64"
  then have "unat v \<le> (2 ^ 64 - 1) div 10" by linarith
  note m = mult [OF this]
  show "unat (v * 10 + ucast (c - 0x30)) = unat v * 10 + d"
    using iffD1 [OF unat_add_lem, of "v * 10" "ucast (c - 0x30)", unfolded m u] f by simp
qed

lemma get_decimal_loop_digit:
  assumes "d < 10" "\<not> (v = 0 \<and> seen)" "unat v * 10 + d < 2 ^ 64" "c = of_nat (0x30 + d)"
  shows "get_decimal_loop v seen (c # cbs) = get_decimal_loop (of_nat (unat v * 10 + d)) True cbs"
proof -
  have "OPENSSL_isdigit c" using assms(1,4) isdigit_iff by blast
  moreover have "v * 10 + ucast (c - 0x30) = of_nat (unat v * 10 + d)"
    using digit_step(2) [OF assms(1,4,3)] by (rule word_eq_of_nat)
  ultimately show ?thesis
    using digit_step(1) [OF assms(1,4), of v] assms(2,3) by (simp only: get_decimal_loop.simps) auto
qed

lemma get_decimal_loop_sound:
  "get_decimal_loop v seen s = (Some w, t) \<Longrightarrow> (\<not> seen \<Longrightarrow> v = 0) \<Longrightarrow>
   (if seen then decimal_text (unat v) else []) @ s = decimal_text (unat w) @ t \<and>
   (t = [] \<or> \<not> OPENSSL_isdigit (hd t))"
proof (induction s arbitrary: v seen)
  case Nil
  then show ?case by (auto split: if_splits)
next
  case (Cons c s)
  show ?case
  proof (cases "OPENSSL_isdigit c")
    case False
    with Cons.prems show ?thesis by (auto split: if_splits)
  next
    case True
    then obtain d where d: "d < 10" "c = of_nat (0x30 + d)" using isdigit_iff by blast
    have ok: "\<not> (v = 0 \<and> seen)" "unat v * 10 + d < 2 ^ 64"
      using Cons.prems(1) True digit_step(1) [OF d, of v] by (auto simp only: get_decimal_loop.simps split: if_splits)
    then have l: "get_decimal_loop (of_nat (unat v * 10 + d)) True s = (Some w, t)"
      using Cons.prems(1) get_decimal_loop_digit [OF d(1) ok d(2)] by simp
    have u: "unat (of_nat (unat v * 10 + d) :: u64) = unat v * 10 + d"
      by (rule unat_of_nat_less) (use ok(2) in simp)
    have "(if seen then decimal_text (unat v) else []) @ [c] = decimal_text (unat v * 10 + d)"
    proof (cases seen)
      case True
      with ok have "0 < unat v" by (simp add: unat_gt_0)
      with True d show ?thesis by (simp add: decimal_text_snoc)
    next
      case False
      with Cons.prems(2) d show ?thesis by (simp add: decimal_text_digit)
    qed
    then show ?thesis using Cons.IH [OF l] unfolding u by (metis append_Cons append_Nil append_assoc)
  qed
qed

lemma get_decimal_loop_text:
  "n < 2 ^ 64 \<Longrightarrow> get_decimal_loop 0 False (decimal_text n @ u) = get_decimal_loop (of_nat n) True u"
proof (induction n arbitrary: u rule: less_induct)
  case (less n)
  show ?case
  proof (cases "n < 10")
    case True
    then show ?thesis using get_decimal_loop_digit [of n 0 False "of_nat (0x30 + n)" u]
      by (simp add: decimal_text_digit)
  next
    case False
    define q where "q = n div 10"
    define d where "d = n mod 10"
    have n: "n = q * 10 + d" "d < 10" "0 < q" "q < n" using False by (simp_all add: q_def d_def)
    have q: "unat (of_nat q :: u64) = q" using n(4) less.prems by (simp add: unat_of_nat)
    then have "(of_nat q :: u64) \<noteq> 0" using n(3) by (metis unat_0 less_numeral_extra(3))
    then have "get_decimal_loop (of_nat q) True (of_nat (0x30 + d) # u) = get_decimal_loop (of_nat n) True u"
      using get_decimal_loop_digit [of d "of_nat q" True "of_nat (0x30 + d)" u] n less.prems by (simp add: q)
    then show ?thesis
      using less.IH [OF n(4), of "of_nat (0x30 + d) # u"] n(4) less.prems decimal_text_snoc [OF n(3,2)]
      by (simp add: n(1))
  qed
qed

lemma CBS_get_u64_decimal_iff:
  "CBS_get_u64_decimal s = (Some v, t) \<longleftrightarrow> s = decimal_text (unat v) @ t \<and> (t = [] \<or> \<not> OPENSSL_isdigit (hd t))"
proof
  assume "CBS_get_u64_decimal s = (Some v, t)"
  from get_decimal_loop_sound [OF this [unfolded CBS_get_u64_decimal_def]]
  show "s = decimal_text (unat v) @ t \<and> (t = [] \<or> \<not> OPENSSL_isdigit (hd t))" by simp
next
  assume s: "s = decimal_text (unat v) @ t \<and> (t = [] \<or> \<not> OPENSSL_isdigit (hd t))"
  then have "get_decimal_loop v True t = (Some v, t)" by (cases t) auto
  then show "CBS_get_u64_decimal s = (Some v, t)"
    using s get_decimal_loop_text [of "unat v" t] unat_bound [of v] by (simp add: CBS_get_u64_decimal_def)
qed

lemma parse_dotted_decimal_iff:
  "parse_dotted_decimal s = (Some v, t) \<longleftrightarrow> s = decimal_text (unat v) @ (if t = [] then [] else 0x2e # t)"
proof -
  have "\<not> OPENSSL_isdigit 0x2e" by (simp add: OPENSSL_isdigit_def)
  have "parse_dotted_decimal s = (Some v, t) \<longleftrightarrow>
    (\<exists>u. CBS_get_u64_decimal s = (Some v, u) \<and> (u = [] \<and> t = [] \<or> t \<noteq> [] \<and> u = 0x2e # t))"
    unfolding parse_dotted_decimal_def
    by (auto split: prod.splits option.splits if_splits) (metis CBS_get_u8_simps list.exhaust prod.inject option.distinct(1) option.inject)+
  also have "\<dots> \<longleftrightarrow> s = decimal_text (unat v) @ (if t = [] then [] else 0x2e # t)"
    using \<open>\<not> OPENSSL_isdigit 0x2e\<close> by (auto simp: CBS_get_u64_decimal_iff)
  finally show ?thesis .
qed

lemma parse_dotted_decimal_shorter: "parse_dotted_decimal s = (Some v, t) \<Longrightarrow> length t < length s"
  by (auto simp: parse_dotted_decimal_iff split: if_splits)

function add_oid_components :: "nat \<Rightarrow> CBS \<Rightarrow> writer" where
  "add_oid_components k cbs cbb =
     (if length cbs = 0 then (True, cbb)
      else case parse_dotted_decimal cbs of
        (None, _) \<Rightarrow> (False, cbb)
      | (Some a, cbs) \<Rightarrow> wand (add_base128_integer k a) (add_oid_components k cbs) cbb)"
  by pat_completeness auto
termination
  by (relation "measure (\<lambda>(k, cbs, cbb). length cbs)") (auto dest!: sym [of "(_, _)"] dest: parse_dotted_decimal_shorter)

declare add_oid_components.simps [simp del]

text \<open>A failure here leaves the components that were written, and does not set the error bit.\<close>

definition CBB_add_asn1_oid_from_text :: "nat \<Rightarrow> byte list \<Rightarrow> writer" where
  "CBB_add_asn1_oid_from_text k text =
     wand (CBB_flush k) (\<lambda>cbb.
       case parse_dotted_decimal text of (None, _) \<Rightarrow> (False, cbb) | (Some a, cbs) \<Rightarrow>
       (case parse_dotted_decimal cbs of (None, _) \<Rightarrow> (False, cbb) | (Some b, cbs) \<Rightarrow>
        if a > 2 \<or> (a < 2 \<and> b > 39) \<or> b > UINT64_MAX - 80 then (False, cbb)
        else wand (add_base128_integer k (40 * a + b)) (add_oid_components k cbs) cbb))"

section \<open>The bijection\<close>

text \<open>An object identifier is the list of its components, with a bound on the first two.\<close>

fun valid_arcs :: "u64 list \<Rightarrow> bool" where
  "valid_arcs (a # b # arcs) = (\<not> (a > 2 \<or> (a < 2 \<and> b > 39) \<or> b > UINT64_MAX - 80))"
| "valid_arcs _ = False"

fun dotted :: "u64 list \<Rightarrow> byte list" where
  "dotted [] = []"
| "dotted (a # arcs) = decimal_text (unat a) @ (if arcs = [] then [] else 0x2e # dotted arcs)"

definition components_der :: "u64 list \<Rightarrow> byte list" where
  "components_der arcs = concat (map (\<lambda>a. base128 (unat a)) arcs)"

fun oid_der :: "u64 list \<Rightarrow> byte list" where
  "oid_der (a # b # arcs) = components_der ((40 * a + b) # arcs)"
| "oid_der _ = []"

lemma components_der_simps [simp]:
  "components_der [] = []" "components_der (a # arcs) = base128 (unat a) @ components_der arcs"
  by (simp_all add: components_der_def)

lemma dotted_eq_Nil [simp]: "dotted arcs = [] \<longleftrightarrow> arcs = []"
  by (cases arcs) simp_all

lemma base128_ne [simp]: "base128 n \<noteq> []"
  by (simp add: base128_def)

lemma parse_dotted [simp]: "parse_dotted_decimal (dotted (a # arcs)) = (Some a, dotted arcs)"
  by (simp add: parse_dotted_decimal_iff)

lemma parse_base128 [simp]: "parse_base128_integer (base128 (unat a) @ t) = (Some a, t)"
  by (simp add: parse_base128_integer_iff)

text \<open>The numbers 0 to 79 and the ones above stand for the pairs of the first two components.\<close>

lemma first_component:
  assumes "\<not> (a > 2 \<or> (a < 2 \<and> b > 39) \<or> b > UINT64_MAX - 80)"
  shows "unat (40 * a + b :: u64) = 40 * unat a + unat b"
    and "40 * a + b \<ge> 80 \<longleftrightarrow> a = 2" "a = 2 \<Longrightarrow> 40 * a + b - 80 = b"
    and "a \<noteq> 2 \<Longrightarrow> (40 * a + b) div 40 = a" "a \<noteq> 2 \<Longrightarrow> (40 * a + b) mod 40 = b"
proof -
  have n: "unat a \<le> 2" "unat a < 2 \<longrightarrow> unat b \<le> 39" "unat b \<le> 18446744073709551535"
    using assms by (auto simp: word_less_nat_alt word_le_nat_alt not_less)
  have "unat (40 * a) = 40 * unat a"
    using iffD1 [OF unat_mult_lem, of 40 a] n(1) by simp
  then show u: "unat (40 * a + b) = 40 * unat a + unat b"
    using iffD1 [OF unat_add_lem, of "40 * a" b] n by simp
  have two: "a = 2 \<longleftrightarrow> unat a = 2" by (simp add: word_unat_eq_iff)
  show "40 * a + b \<ge> 80 \<longleftrightarrow> a = 2"
    unfolding word_le_nat_alt u two using n by auto
  show "a = 2 \<Longrightarrow> 40 * a + b - 80 = b" by simp
  assume "a \<noteq> 2"
  then have "unat a < 2" "unat b \<le> 39" using n two by auto
  then show "(40 * a + b) div 40 = a" "(40 * a + b) mod 40 = b"
    unfolding word_unat_eq_iff unat_div unat_mod u by simp_all
qed

lemma first_component_ex:
  obtains a b :: u64 where "v = 40 * a + b" "\<not> (a > 2 \<or> (a < 2 \<and> b > 39) \<or> b > UINT64_MAX - 80)"
proof (cases "v \<ge> 80")
  case True
  then have "unat (v - 80) = unat v - 80" by (simp add: unat_sub)
  then have "\<not> v - 80 > UINT64_MAX - 80" using unat_bound [of v] by (simp add: word_less_nat_alt)
  then show ?thesis by (intro that [of 2 "v - 80"]) simp_all
next
  case False
  then have v: "unat v < 80" by (simp add: word_le_nat_alt)
  have "40 * (v div 40) + v mod 40 = v" by (metis add.commute mult.commute mod_mult_div_eq mult_div_mod_eq)
  moreover have "unat (v div 40) < 2" "unat (v mod 40) < 40" using v by (simp_all add: unat_div unat_mod)
  then have "\<not> v div 40 > 2" "\<not> v mod 40 > 39" "\<not> v mod 40 > UINT64_MAX - 80"
    by (simp_all add: word_less_nat_alt)
  ultimately show ?thesis by (intro that [of "v div 40" "v mod 40"]) simp_all
qed

subsection \<open>From text\<close>

lemma refines_flushed:
  assumes "refines (\<lambda>A. k \<le> nesting A) w (write_to k xs)"
  shows "refines (\<lambda>A. k \<le> nesting A) (wand (CBB_flush k) w) (write_to k xs)"
proof -
  have "write_to k [] = flush_to k"
    by (rule ext) (simp add: write_to_def map_option_case split: option.split)
  then have "refines (\<lambda>A. k \<le> nesting A) (CBB_flush k) (write_to k [])"
    using flush_refines by simp
  from refines_writes [OF this assms] show ?thesis by simp
qed

lemma add_oid_components_refines:
  "arcs \<noteq> [] \<Longrightarrow>
   refines (\<lambda>A. k \<le> nesting A) (add_oid_components k (dotted arcs)) (write_to k (components_der arcs))"
proof (induction arcs)
  case (Cons a arcs)
  have e: "add_oid_components k (dotted (a # arcs)) = wand (add_base128_integer k a) (add_oid_components k (dotted arcs))"
    by (rule ext, subst add_oid_components.simps) (simp del: dotted.simps)
  show ?case
  proof (cases "arcs = []")
    case True
    have "wand (add_base128_integer k a) (add_oid_components k []) = add_base128_integer k a"
      by (rule ext) (simp add: wand_def add_oid_components.simps split: prod.splits bool.splits)
    with e True add_base128_refines [of k a] show ?thesis by simp
  next
    case False
    from refines_writes [OF add_base128_refines [of k a] Cons.IH [OF False]]
    show ?thesis by (simp only: e components_der_simps)
  qed
qed simp

lemma oid_from_text_refines:
  assumes "valid_arcs arcs"
  shows "refines (\<lambda>A. k \<le> nesting A) (CBB_add_asn1_oid_from_text k (dotted arcs)) (write_to k (oid_der arcs))"
proof -
  obtain a b rest where arcs: "arcs = a # b # rest" and v: "\<not> (a > 2 \<or> (a < 2 \<and> b > 39) \<or> b > UINT64_MAX - 80)"
    using assms by (cases arcs rule: valid_arcs.cases) auto
  have e: "CBB_add_asn1_oid_from_text k (dotted arcs) =
      wand (CBB_flush k) (wand (add_base128_integer k (40 * a + b)) (add_oid_components k (dotted rest)))"
    unfolding CBB_add_asn1_oid_from_text_def arcs parse_dotted prod.case option.case if_not_P [OF v] by (rule refl)
  have "refines (\<lambda>A. k \<le> nesting A) (wand (add_base128_integer k (40 * a + b)) (add_oid_components k (dotted rest)))
      (write_to k (oid_der arcs))"
  proof (cases "rest = []")
    case True
    have "wand w (add_oid_components k []) = w" for w
      by (rule ext) (simp add: wand_def add_oid_components.simps split: prod.splits bool.splits)
    with add_base128_refines [of k "40 * a + b"] show ?thesis by (simp add: True arcs)
  next
    case False
    from refines_writes [OF add_base128_refines [of k "40 * a + b"] add_oid_components_refines [OF False]]
    show ?thesis by (simp add: arcs)
  qed
  from refines_flushed [OF this] show ?thesis by (simp only: e)
qed

lemma add_oid_components_sound:
  "add_oid_components k cbs s = (True, s') \<Longrightarrow> \<exists>arcs. cbs = dotted arcs"
proof (induction "length cbs" arbitrary: cbs s rule: less_induct)
  case less
  show ?case
  proof (cases "cbs = []")
    case True
    then show ?thesis by (intro exI [of _ "[]"]) simp
  next
    case False
    with less.prems obtain a rest s1 where p: "parse_dotted_decimal cbs = (Some a, rest)"
      and r: "add_oid_components k rest s1 = (True, s')"
      by (auto simp: add_oid_components.simps [of k cbs] wand_def split: prod.splits option.splits bool.splits)
    from less.hyps [OF parse_dotted_decimal_shorter [OF p] r] obtain arcs where "rest = dotted arcs" by blast
    with p show ?thesis by (intro exI [of _ "a # arcs"]) (auto simp: parse_dotted_decimal_iff)
  qed
qed

lemma oid_from_text_sound:
  assumes "CBB_add_asn1_oid_from_text k text s = (True, s')"
  shows "\<exists>arcs. valid_arcs arcs \<and> text = dotted arcs"
proof -
  obtain a b r1 r2 s1 where p: "parse_dotted_decimal text = (Some a, r1)" "parse_dotted_decimal r1 = (Some b, r2)"
    "\<not> (a > 2 \<or> (a < 2 \<and> b > 39) \<or> b > UINT64_MAX - 80)" "add_oid_components k r2 s1 = (True, s')"
    using assms unfolding CBB_add_asn1_oid_from_text_def wand_def
    by (auto split: prod.splits option.splits bool.splits if_splits)
  obtain arcs where "r2 = dotted arcs" using add_oid_components_sound [OF p(4)] by blast
  then have "text = dotted (a # b # arcs)" using p(1,2) by (auto simp: parse_dotted_decimal_iff)
  with p(3) show ?thesis by (intro exI [of _ "a # b # arcs"]) simp
qed

subsection \<open>To text\<close>

lemma length_decimal_text: "n < 10 ^ Suc k \<Longrightarrow> length (decimal_text n) \<le> Suc k"
proof (induction k arbitrary: n)
  case 0
  then show ?case by (simp add: decimal_text_digit)
next
  case (Suc k)
  show ?case
  proof (cases "n < 10")
    case False
    have "n div 10 < 10 ^ Suc k" using Suc.prems by (simp add: less_mult_imp_div_less)
    with Suc.IH [of "n div 10"] False show ?thesis by (simp add: decimal_text.simps [of n])
  qed (simp add: decimal_text_digit)
qed

lemma length_decimal_u64: "length (decimal_text (unat (v :: u64))) \<le> 20"
  using length_decimal_text [of "unat v" 19] unat_bound [of v] by simp

lemma length_dotted: "length (dotted arcs) \<le> 21 * length arcs"
proof (induction arcs)
  case (Cons a arcs)
  with length_decimal_u64 [of a] show ?case by simp
qed simp

lemma add_decimal_refines:
  "refines (\<lambda>A. k \<le> nesting A) (add_decimal k v) (write_to k (decimal_text (unat v)))"
  unfolding add_decimal_def using length_decimal_u64 [of v] by (intro CBB_add_bytes_refines) simp

definition dot_all :: "u64 list \<Rightarrow> byte list" where
  "dot_all arcs = concat (map (\<lambda>a. 0x2e # decimal_text (unat a)) arcs)"

lemma dotted_dot_all: "dotted (a # arcs) = decimal_text (unat a) @ dot_all arcs"
  by (induction arcs arbitrary: a) (simp_all add: dot_all_def)

lemma oid_text_loop_refines:
  "arcs \<noteq> [] \<Longrightarrow>
   refines (\<lambda>A. 0 \<le> nesting A) (oid_text_loop (components_der arcs)) (write_to 0 (dot_all arcs))"
proof (induction arcs)
  case (Cons a arcs)
  let ?w = "wand (CBB_add_u8 0 0x2e) (add_decimal 0 a)"
  have e: "oid_text_loop (components_der (a # arcs)) = wand ?w (oid_text_loop (components_der arcs))"
    by (rule ext, subst oid_text_loop.simps) simp
  have w: "refines (\<lambda>A. 0 \<le> nesting A) ?w (write_to 0 (0x2e # decimal_text (unat a)))"
    using refines_writes [OF CBB_add_u8_refines [of 0 "0x2e"] add_decimal_refines [of 0 a]] by simp
  show ?case
  proof (cases "arcs = []")
    case True
    have "wand ?w (oid_text_loop []) = ?w"
      by (rule ext) (simp add: wand_def [of ?w] oid_text_loop.simps split: prod.splits bool.splits)
    with e True w show ?thesis by (simp add: dot_all_def)
  next
    case False
    from refines_writes [OF w Cons.IH [OF False]] show ?thesis by (simp only: e) (simp add: dot_all_def)
  qed
qed simp

lemma oid_text_loop_sound:
  "oid_text_loop copy s = (True, s') \<Longrightarrow> \<exists>arcs. copy = components_der arcs"
proof (induction "length copy" arbitrary: copy s rule: less_induct)
  case less
  show ?case
  proof (cases "copy = []")
    case True
    then show ?thesis by (intro exI [of _ "[]"]) simp
  next
    case False
    with less.prems obtain a rest s1 where p: "parse_base128_integer copy = (Some a, rest)"
      and r: "oid_text_loop rest s1 = (True, s')"
      unfolding oid_text_loop.simps [of copy] by (auto simp: wand_def split: prod.splits option.splits bool.splits)
    from less.hyps [OF parse_base128_shorter [OF p] r] obtain arcs where "rest = components_der arcs" by blast
    with p show ?thesis by (intro exI [of _ "a # arcs"]) (auto simp: parse_base128_integer_iff)
  qed
qed

lemma first_text_refines:
  assumes v: "\<not> (a > 2 \<or> (a < 2 \<and> b > 39) \<or> b > UINT64_MAX - 80)"
  defines "x \<equiv> 40 * a + b"
  shows "refines (\<lambda>A. 0 \<le> nesting A)
    (if x \<ge> 80 then wand (CBB_add_bytes 0 [0x32, 0x2e]) (add_decimal 0 (x - 80))
     else wand (wand (add_decimal 0 (x div 40)) (CBB_add_u8 0 0x2e)) (add_decimal 0 (x mod 40)))
    (write_to 0 (decimal_text (unat a) @ 0x2e # decimal_text (unat b)))"
proof (cases "a = 2")
  case True
  have "refines (\<lambda>A. 0 \<le> nesting A) (CBB_add_bytes 0 [0x32, 0x2e]) (write_to 0 [0x32, 0x2e])"
    by (rule CBB_add_bytes_refines) simp
  from refines_writes [OF this add_decimal_refines [of 0 b]] True first_component(2,3) [OF v]
  show ?thesis by (simp add: x_def decimal_text_digit)
next
  case False
  from refines_writes [OF refines_writes [OF add_decimal_refines [of 0 a] CBB_add_u8_refines [of 0 "0x2e"]]
      add_decimal_refines [of 0 b]] False first_component(2,4,5) [OF v]
  show ?thesis by (simp add: x_def)
qed

lemma length_components: "length arcs \<le> length (components_der arcs)"
proof (induction arcs)
  case (Cons a arcs)
  have "0 < length (base128 (unat a))" by simp
  with Cons show ?case unfolding components_der_simps length_append list.size by linarith
qed simp

lemma oid_to_text_complete:
  assumes "valid_arcs arcs" and len: "length (oid_der arcs) < 2 ^ 58"
  shows "CBS_asn1_oid_to_text (\<lambda>_. True) (oid_der arcs) = Some (dotted arcs @ [0])"
proof -
  obtain a b rest where arcs: "arcs = a # b # rest" and v: "\<not> (a > 2 \<or> (a < 2 \<and> b > 39) \<or> b > UINT64_MAX - 80)"
    using assms(1) by (cases arcs rule: valid_arcs.cases) auto
  define x where "x = 40 * a + b"
  let ?first = "if x \<ge> 80 then wand (CBB_add_bytes 0 [0x32, 0x2e]) (add_decimal 0 (x - 80))
     else wand (wand (add_decimal 0 (x div 40)) (CBB_add_u8 0 0x2e)) (add_decimal 0 (x mod 40))"
  let ?w = "wand (wand ?first (oid_text_loop (components_der rest))) (CBB_add_u8 0 0)"
  note first = first_text_refines [OF v, folded x_def]
  have "refines (\<lambda>A. 0 \<le> nesting A) (wand ?first (oid_text_loop (components_der rest))) (write_to 0 (dotted arcs))"
  proof (cases "rest = []")
    case True
    have "wand w (oid_text_loop []) = w" for w
      by (rule ext) (simp add: wand_def oid_text_loop.simps split: prod.splits bool.splits)
    with first show ?thesis by (simp add: True arcs)
  next
    case False
    have "dotted arcs = (decimal_text (unat a) @ 0x2e # decimal_text (unat b)) @ dot_all rest"
      unfolding arcs dotted_dot_all by (simp add: dot_all_def)
    then show ?thesis using refines_writes [OF first oid_text_loop_refines [OF False]] by simp
  qed
  from refines_writes [OF this CBB_add_u8_refines [of 0 0]]
  have w: "refines (\<lambda>A. 0 \<le> nesting A) ?w (write_to 0 (dotted arcs @ [0]))" .
  have "length (oid_der arcs) = length (base128 (unat x)) + length (components_der rest)" by (simp add: arcs x_def)
  then have "length arcs < 2 ^ 58 + 2" using len length_components [of rest] by (simp add: arcs)
  then have l: "length (dotted arcs @ [0 :: byte]) < 2 ^ 64" using length_dotted [of arcs] by simp
  let ?s = "cbb_init (\<lambda>_. True) 32 True"
  have f: "fst (?w ?s)" "fst (CBB_finish 0 True (snd (?w ?s))) = Some (dotted arcs @ [0])"
    by (rule write_finish [OF w _ l, of 32], simp)+
  have p: "parse_base128_integer (oid_der arcs) = (Some x, components_der rest)" by (simp add: arcs x_def)
  obtain cbb where c: "?w ?s = (True, cbb)" using f(1) by (cases "?w ?s") auto
  have i: "CBB_init (\<lambda>_. True) 32 = Some ?s" by (simp add: CBB_init_def)
  show ?thesis
    unfolding CBS_asn1_oid_to_text_def i p prod.case option.case Let_def c bool.case
    using f(2) unfolding c snd_conv .
qed

lemma oid_to_text_sound:
  assumes "CBS_asn1_oid_to_text alloc cbs = Some txt"
  shows "\<exists>arcs. valid_arcs arcs \<and> cbs = oid_der arcs"
proof -
  obtain s where s: "CBB_init alloc 32 = Some s"
    using assms by (auto simp: CBS_asn1_oid_to_text_def split: option.splits)
  obtain v copy where p: "parse_base128_integer cbs = (Some v, copy)"
    using assms by (auto simp: CBS_asn1_oid_to_text_def s split: option.splits prod.splits)
  have "\<exists>s1 s2. oid_text_loop copy s1 = (True, s2)"
    using assms unfolding CBS_asn1_oid_to_text_def s p option.case prod.case Let_def
    by (auto simp: wand_def split: prod.splits bool.splits)
  then obtain arcs where "copy = components_der arcs" using oid_text_loop_sound by blast
  moreover obtain a b where "v = 40 * a + b" "\<not> (a > 2 \<or> (a < 2 \<and> b > 39) \<or> b > UINT64_MAX - 80)"
    using first_component_ex by blast
  ultimately show ?thesis using p by (intro exI [of _ "a # b # arcs"]) (simp add: parse_base128_integer_iff)
qed

lemma oid_to_text_iff:
  assumes "length cbs < 2 ^ 58"
  shows "CBS_asn1_oid_to_text (\<lambda>_. True) cbs = Some txt \<longleftrightarrow>
    (\<exists>arcs. valid_arcs arcs \<and> cbs = oid_der arcs \<and> txt = dotted arcs @ [0])"
  using oid_to_text_sound oid_to_text_complete assms by (metis option.inject)

end
