(* ===== verification/Bio_Pair.thy ===== *)
theory Bio_Pair
  imports Prelude
begin

text \<open>
  BIO pairs, \<open>crypto/bio/pair.c\<close>, and the entry points of \<open>crypto/bio/bio.c\<close> that reach them: two
  endpoints, each with a ring buffer for what is written to it and the peer reads. The ring buffer
  is shown to be a bounded queue, through the contract \<open>bounded_fifo\<close>, and every run of calls on the
  two ends to deliver the bytes of each direction in order, once.
\<close>

section \<open>The state\<close>

text \<open>
  Addresses of BIOs are numbers, and the store maps the ones in use to their object. A buffer is
  None for NULL. \<open>size_t\<close> sums of positions stay below twice the size of an allocation and do not
  wrap; the flags are kept as the word they are.
\<close>

record bio_bio_st =
  bb_peer :: "nat option"
  bb_closed :: bool
  bb_len :: nat
  bb_offset :: nat
  bb_size :: nat
  bb_buf :: "byte list option"
  bb_request :: nat

record BIO =
  bio_init :: bool
  bio_shutdown :: int
  bio_flags :: u32
  bio_retry_reason :: int
  num_read :: u64
  num_write :: u64
  bio_ptr :: bio_bio_st

type_synonym bios = "nat \<Rightarrow> BIO"

abbreviation BIO_FLAGS_READ :: u32 where "BIO_FLAGS_READ \<equiv> 0x01"
abbreviation BIO_FLAGS_WRITE :: u32 where "BIO_FLAGS_WRITE \<equiv> 0x02"
abbreviation BIO_FLAGS_IO_SPECIAL :: u32 where "BIO_FLAGS_IO_SPECIAL \<equiv> 0x04"
abbreviation BIO_FLAGS_SHOULD_RETRY :: u32 where "BIO_FLAGS_SHOULD_RETRY \<equiv> 0x08"

definition kRetryFlags :: u32 where
  "kRetryFlags = BIO_FLAGS_READ OR BIO_FLAGS_WRITE OR BIO_FLAGS_IO_SPECIAL OR BIO_FLAGS_SHOULD_RETRY"

definition BIO_test_flags :: "BIO \<Rightarrow> u32 \<Rightarrow> u32" where
  "BIO_test_flags bio flags = bio_flags bio AND flags"

definition BIO_should_read :: "BIO \<Rightarrow> u32" where
  "BIO_should_read bio = BIO_test_flags bio BIO_FLAGS_READ"

definition BIO_should_write :: "BIO \<Rightarrow> u32" where
  "BIO_should_write bio = BIO_test_flags bio BIO_FLAGS_WRITE"

definition BIO_should_retry :: "BIO \<Rightarrow> u32" where
  "BIO_should_retry bio = BIO_test_flags bio BIO_FLAGS_SHOULD_RETRY"

definition BIO_set_retry_read :: "BIO \<Rightarrow> BIO" where
  "BIO_set_retry_read bio =
     bio\<lparr>bio_flags := bio_flags bio OR (BIO_FLAGS_READ OR BIO_FLAGS_SHOULD_RETRY)\<rparr>"

definition BIO_set_retry_write :: "BIO \<Rightarrow> BIO" where
  "BIO_set_retry_write bio =
     bio\<lparr>bio_flags := bio_flags bio OR (BIO_FLAGS_WRITE OR BIO_FLAGS_SHOULD_RETRY)\<rparr>"

definition BIO_clear_retry_flags :: "BIO \<Rightarrow> BIO" where
  "BIO_clear_retry_flags bio =
     bio\<lparr>bio_flags := bio_flags bio AND NOT kRetryFlags, bio_retry_reason := 0\<rparr>"

definition set_ptr :: "nat \<Rightarrow> bio_bio_st \<Rightarrow> bios \<Rightarrow> bios" where
  "set_ptr x b h = h(x := (h x)\<lparr>bio_ptr := b\<rparr>)"

text \<open>The conversion of a \<open>size_t\<close> to \<open>int\<close>.\<close>

definition int_of_size :: "nat \<Rightarrow> int" where
  "int_of_size n = sint (of_nat n :: u32)"

section \<open>The ring buffer\<close>

definition buffer :: "bio_bio_st \<Rightarrow> byte list" where
  "buffer b = (case bb_buf b of None \<Rightarrow> [] | Some xs \<Rightarrow> xs)"

text \<open>The bytes of \<open>xs\<close> from \<open>at\<close> on replaced by \<open>ys\<close>.\<close>

definition put_bytes :: "nat \<Rightarrow> 'a list \<Rightarrow> 'a list \<Rightarrow> 'a list" where
  "put_bytes at ys xs = take at xs @ ys @ drop (at + length ys) xs"

text \<open>
  The two copy loops. Whether they end depends on the state of the buffer, so not returning is the
  value None.
\<close>

partial_function (option) read_chunks :: "nat \<Rightarrow> bio_bio_st \<Rightarrow> (byte list \<times> bio_bio_st) option" where
  "read_chunks rest b =
     (let chunk = (if bb_offset b + rest \<le> bb_size b then rest else bb_size b - bb_offset b);
          out = take chunk (drop (bb_offset b) (buffer b));
          b = b\<lparr>bb_len := bb_len b - chunk\<rparr>;
          b = (if bb_len b \<noteq> 0
               then let b = b\<lparr>bb_offset := bb_offset b + chunk\<rparr>
                    in if bb_offset b = bb_size b then b\<lparr>bb_offset := 0\<rparr> else b
               else b\<lparr>bb_offset := 0\<rparr>);
          rest = rest - chunk
      in if rest = 0 then Some (out, b)
         else Option.bind (read_chunks rest b) (\<lambda>(more, b). Some (out @ more, b)))"

partial_function (option) write_chunks :: "nat \<Rightarrow> byte list \<Rightarrow> bio_bio_st \<Rightarrow> bio_bio_st option" where
  "write_chunks rest data b =
     (let write_offset = bb_offset b + bb_len b;
          write_offset = (if write_offset \<ge> bb_size b then write_offset - bb_size b else write_offset);
          chunk = (if write_offset + rest \<le> bb_size b then rest else bb_size b - write_offset);
          b = b\<lparr>bb_buf := map_option (put_bytes write_offset (take chunk data)) (bb_buf b)\<rparr>;
          b = b\<lparr>bb_len := bb_len b + chunk\<rparr>;
          rest = rest - chunk
      in if rest = 0 then Some b else write_chunks rest (drop chunk data) b)"

text \<open>What \<open>bio_read\<close> and \<open>bio_write\<close> do once they know that they can read or write.\<close>

definition ring_read :: "nat \<Rightarrow> bio_bio_st \<Rightarrow> (nat \<times> byte list \<times> bio_bio_st) option" where
  "ring_read n b =
     (let n = (if bb_len b < n then bb_len b else n)
      in Option.bind (read_chunks n b) (\<lambda>(out, b). Some (n, out, b)))"

definition ring_write :: "byte list \<Rightarrow> bio_bio_st \<Rightarrow> (nat \<times> bio_bio_st) option" where
  "ring_write data b =
     (let num = length data;
          num = (if num > bb_size b - bb_len b then bb_size b - bb_len b else num)
      in Option.bind (write_chunks num data b) (\<lambda>b. Some (num, b)))"

section \<open>The methods of a pair\<close>

definition bio_new :: "BIO \<Rightarrow> BIO" where
  "bio_new bio =
     bio\<lparr>bio_ptr := \<lparr>bb_peer = None, bb_closed = False, bb_len = 0, bb_offset = 0, bb_size = 17 * 1024,
                     bb_buf = None, bb_request = 0\<rparr>\<rparr>"

definition BIO_new :: BIO where
  "BIO_new = bio_new \<lparr>bio_init = False, bio_shutdown = 1, bio_flags = 0, bio_retry_reason = 0,
     num_read = 0, num_write = 0,
     bio_ptr = \<lparr>bb_peer = None, bb_closed = False, bb_len = 0, bb_offset = 0, bb_size = 0,
                bb_buf = None, bb_request = 0\<rparr>\<rparr>"

definition bio_destroy_pair :: "nat \<Rightarrow> bios \<Rightarrow> bios" where
  "bio_destroy_pair x h =
     (case bb_peer (bio_ptr (h x)) of
        None \<Rightarrow> h
      | Some y \<Rightarrow>
          let h = h(y := (h y)\<lparr>bio_init := False,
                bio_ptr := (bio_ptr (h y))\<lparr>bb_peer := None, bb_len := 0, bb_offset := 0\<rparr>\<rparr>)
          in h(x := (h x)\<lparr>bio_init := False,
                bio_ptr := (bio_ptr (h x))\<lparr>bb_peer := None, bb_len := 0, bb_offset := 0\<rparr>\<rparr>))"

text \<open>
  The result is the return value, the bytes stored in \<open>buf\<close>, and the store. \<open>size'\<close> is the C
  argument, converted to \<open>size_t\<close>; \<open>have_buf\<close> says that \<open>buf\<close> is not NULL.
\<close>

definition bio_read :: "nat \<Rightarrow> bool \<Rightarrow> int \<Rightarrow> bios \<Rightarrow> (int \<times> byte list \<times> bios) option" where
  "bio_read x have_buf size' h =
     (let size = nat (size' mod 2 ^ 64);
          h = h(x := BIO_clear_retry_flags (h x))
      in if \<not> bio_init (h x) then Some (0, [], h)
         else let y = the (bb_peer (bio_ptr (h x)));
                  peer_b = (bio_ptr (h y))\<lparr>bb_request := 0\<rparr>;
                  h = set_ptr y peer_b h
         in if \<not> have_buf \<or> size = 0 then Some (0, [], h)
         else if bb_len peer_b = 0
         then if bb_closed peer_b then Some (0, [], h)
              else let h = h(x := BIO_set_retry_read (h x));
                       peer_b = peer_b\<lparr>bb_request := (if size \<le> bb_size peer_b then size else bb_size peer_b)\<rparr>
                   in Some (- 1, [], set_ptr y peer_b h)
         else Option.bind (ring_read size peer_b) (\<lambda>(n, out, peer_b).
                Some (int_of_size n, out, set_ptr y peer_b h)))"

text \<open>\<open>data\<close> holds the \<open>num_\<close> bytes at \<open>buf\<close>; None when \<open>buf\<close> is NULL.\<close>

definition bio_write :: "nat \<Rightarrow> byte list option \<Rightarrow> bios \<Rightarrow> (int \<times> bios) option" where
  "bio_write x data h =
     (let h = h(x := BIO_clear_retry_flags (h x))
      in case data of None \<Rightarrow> Some (0, h) | Some data \<Rightarrow>
         if \<not> bio_init (h x) \<or> length data = 0 then Some (0, h)
         else let b = (bio_ptr (h x))\<lparr>bb_request := 0\<rparr>;
                  h = set_ptr x b h
         in if bb_closed b then Some (- 1, h)
         else if bb_len b = bb_size b then Some (- 1, h(x := BIO_set_retry_write (h x)))
         else Option.bind (ring_write data b) (\<lambda>(num, b). Some (int_of_size num, set_ptr x b h)))"

text \<open>
  \<open>block n\<close> is what the allocator returns for \<open>n\<close> bytes, with whatever they hold. The store is
  returned with the return value, because a failure leaves what was done before it.
\<close>

definition make_buffer :: "(nat \<Rightarrow> byte list option) \<Rightarrow> nat \<Rightarrow> bio_bio_st \<Rightarrow> bool \<times> bio_bio_st" where
  "make_buffer block writebuf_len b =
     (case bb_buf b of
        Some _ \<Rightarrow> (True, b)
      | None \<Rightarrow>
          let b = (if writebuf_len \<noteq> 0 then b\<lparr>bb_size := writebuf_len\<rparr> else b)
          in (case block (bb_size b) of
                None \<Rightarrow> (False, b)
              | Some xs \<Rightarrow> (True, b\<lparr>bb_buf := Some xs, bb_len := 0, bb_offset := 0\<rparr>)))"

definition bio_make_pair ::
  "(nat \<Rightarrow> byte list option) \<Rightarrow> nat \<Rightarrow> nat \<Rightarrow> nat \<Rightarrow> nat \<Rightarrow> bios \<Rightarrow> bool \<times> bios" where
  "bio_make_pair block x y writebuf1_len writebuf2_len h =
     (if bb_peer (bio_ptr (h x)) \<noteq> None \<or> bb_peer (bio_ptr (h y)) \<noteq> None then (False, h)
      else case make_buffer block writebuf1_len (bio_ptr (h x)) of
        (False, b1) \<Rightarrow> (False, set_ptr x b1 h)
      | (True, b1) \<Rightarrow>
          let h = set_ptr x b1 h
          in (case make_buffer block writebuf2_len (bio_ptr (h y)) of
                (False, b2) \<Rightarrow> (False, set_ptr y b2 h)
              | (True, b2) \<Rightarrow>
                  let h = set_ptr y b2 h;
                      h = set_ptr x ((bio_ptr (h x))\<lparr>bb_peer := Some y, bb_closed := False, bb_request := 0\<rparr>) h;
                      h = set_ptr y ((bio_ptr (h y))\<lparr>bb_peer := Some x, bb_closed := False, bb_request := 0\<rparr>) h;
                      h = h(x := (h x)\<lparr>bio_init := True\<rparr>)
                  in (True, h(y := (h y)\<lparr>bio_init := True\<rparr>))))"

text \<open>Two new objects at the addresses \<open>x\<close> and \<open>y\<close>; None when either cannot be paired.\<close>

definition BIO_new_bio_pair ::
  "(nat \<Rightarrow> byte list option) \<Rightarrow> nat \<Rightarrow> nat \<Rightarrow> nat \<Rightarrow> nat \<Rightarrow> bios \<Rightarrow> bios option" where
  "BIO_new_bio_pair block x writebuf1_len y writebuf2_len h =
     (case bio_make_pair block x y writebuf1_len writebuf2_len (h(x := BIO_new, y := BIO_new)) of
        (False, _) \<Rightarrow> None
      | (True, h) \<Rightarrow> Some h)"

datatype bio_cmd =
  BIO_C_GET_WRITE_BUF_SIZE | BIO_C_GET_WRITE_GUARANTEE | BIO_C_GET_READ_REQUEST
| BIO_C_RESET_READ_REQUEST | BIO_C_SHUTDOWN_WR | BIO_CTRL_GET_CLOSE | BIO_CTRL_SET_CLOSE
| BIO_CTRL_PENDING | BIO_CTRL_WPENDING | BIO_CTRL_FLUSH | BIO_CTRL_EOF | BIO_other

definition bio_ctrl :: "nat \<Rightarrow> bio_cmd \<Rightarrow> int \<Rightarrow> nat option \<Rightarrow> bios \<Rightarrow> int \<times> bios" where
  "bio_ctrl x cmd num ptr h =
     (let b = bio_ptr (h x) in
      case cmd of
        BIO_C_GET_WRITE_BUF_SIZE \<Rightarrow> (int (bb_size b), h)
      | BIO_C_GET_WRITE_GUARANTEE \<Rightarrow>
          (if bb_peer b = None \<or> bb_closed b then 0 else int (bb_size b) - int (bb_len b), h)
      | BIO_C_GET_READ_REQUEST \<Rightarrow> (int (bb_request b), h)
      | BIO_C_RESET_READ_REQUEST \<Rightarrow> (1, set_ptr x (b\<lparr>bb_request := 0\<rparr>) h)
      | BIO_C_SHUTDOWN_WR \<Rightarrow> (1, set_ptr x (b\<lparr>bb_closed := True\<rparr>) h)
      | BIO_CTRL_GET_CLOSE \<Rightarrow> (bio_shutdown (h x), h)
      | BIO_CTRL_SET_CLOSE \<Rightarrow> (1, h(x := (h x)\<lparr>bio_shutdown := sint (word_of_int num :: u32)\<rparr>))
      | BIO_CTRL_PENDING \<Rightarrow>
          (case bb_peer b of Some y \<Rightarrow> int (bb_len (bio_ptr (h y))) | None \<Rightarrow> 0, h)
      | BIO_CTRL_WPENDING \<Rightarrow> (if bb_buf b \<noteq> None then int (bb_len b) else 0, h)
      | BIO_CTRL_FLUSH \<Rightarrow> (1, h)
      | BIO_CTRL_EOF \<Rightarrow>
          (case ptr of
             Some z \<Rightarrow> if bb_len (bio_ptr (h z)) = 0 \<and> bb_closed (bio_ptr (h z)) then 1 else 0
           | None \<Rightarrow> 1, h)
      | BIO_other \<Rightarrow> (0, h))"

definition BIO_ctrl_get_read_request :: "nat \<Rightarrow> bios \<Rightarrow> int" where
  "BIO_ctrl_get_read_request x h = fst (bio_ctrl x BIO_C_GET_READ_REQUEST 0 None h)"

definition BIO_ctrl_get_write_guarantee :: "nat \<Rightarrow> bios \<Rightarrow> int" where
  "BIO_ctrl_get_write_guarantee x h = fst (bio_ctrl x BIO_C_GET_WRITE_GUARANTEE 0 None h)"

definition BIO_shutdown_wr :: "nat \<Rightarrow> bios \<Rightarrow> int \<times> bios" where
  "BIO_shutdown_wr x h = bio_ctrl x BIO_C_SHUTDOWN_WR 0 None h"

definition BIO_pending :: "nat \<Rightarrow> bios \<Rightarrow> nat" where
  "BIO_pending x h = (let r = fst (bio_ctrl x BIO_CTRL_PENDING 0 None h) in if r < 0 then 0 else nat r)"

definition BIO_wpending :: "nat \<Rightarrow> bios \<Rightarrow> nat" where
  "BIO_wpending x h = (let r = fst (bio_ctrl x BIO_CTRL_WPENDING 0 None h) in if r < 0 then 0 else nat r)"

section \<open>The entry points\<close>

definition BIO_read :: "nat \<Rightarrow> bool \<Rightarrow> int \<Rightarrow> bios \<Rightarrow> (int \<times> byte list \<times> bios) option" where
  "BIO_read x have_buf len h =
     (if \<not> bio_init (h x) then Some (- 2, [], h)
      else if len \<le> 0 then Some (0, [], h)
      else Option.bind (bio_read x have_buf len h) (\<lambda>(ret, out, h).
        if ret > 0 then Some (ret, out, h(x := (h x)\<lparr>num_read := num_read (h x) + of_int ret\<rparr>))
        else Some (ret, out, h)))"

definition BIO_write :: "nat \<Rightarrow> byte list option \<Rightarrow> int \<Rightarrow> bios \<Rightarrow> (int \<times> bios) option" where
  "BIO_write x data inl h =
     (if \<not> bio_init (h x) then Some (- 2, h)
      else if inl \<le> 0 then Some (0, h)
      else Option.bind (bio_write x (map_option (take (nat inl)) data) h) (\<lambda>(ret, h).
        if ret > 0 then Some (ret, h(x := (h x)\<lparr>num_write := num_write (h x) + of_int ret\<rparr>))
        else Some (ret, h)))"

function BIO_write_all :: "nat \<Rightarrow> byte list \<Rightarrow> bios \<Rightarrow> (bool \<times> bios) option" where
  "BIO_write_all x data h =
     (if length data = 0 then Some (True, h)
      else case BIO_write x (Some data) (if length data > 0x7fffffff then 0x7fffffff else int (length data)) h of
        None \<Rightarrow> None
      | Some (ret, h) \<Rightarrow> if ret \<le> 0 then Some (False, h) else BIO_write_all x (drop (nat ret) data) h)"
  by pat_completeness auto
termination
  by (relation "measure (\<lambda>(x, data, h). length data)") auto

declare BIO_write_all.simps [simp del]

section \<open>The ring buffer is a queue\<close>

definition ring :: "bio_bio_st \<Rightarrow> bool" where
  "ring b \<longleftrightarrow> bb_buf b \<noteq> None \<and> length (buffer b) = bb_size b \<and> bb_len b \<le> bb_size b \<and>
     bb_offset b < bb_size b \<and> (bb_len b = 0 \<longrightarrow> bb_offset b = 0)"

text \<open>The bytes in the buffer, oldest first.\<close>

definition queued :: "bio_bio_st \<Rightarrow> byte list" where
  "queued b = map (\<lambda>i. buffer b ! ((bb_offset b + i) mod bb_size b)) [0..<bb_len b]"

text \<open>What the copy loops leave alone.\<close>

definition same_setup :: "bio_bio_st \<Rightarrow> bio_bio_st \<Rightarrow> bool" where
  "same_setup b b' \<longleftrightarrow> bb_size b' = bb_size b \<and> bb_peer b' = bb_peer b \<and> bb_closed b' = bb_closed b \<and>
     bb_request b' = bb_request b"

lemma same_setup_refl [simp]: "same_setup b b"
  by (simp add: same_setup_def)

lemma same_setup_trans: "same_setup a b \<Longrightarrow> same_setup b c \<Longrightarrow> same_setup a c"
  by (simp add: same_setup_def)

lemma length_queued [simp]: "length (queued b) = bb_len b"
  by (simp add: queued_def)

lemma queued_nth: "i < bb_len b \<Longrightarrow> queued b ! i = buffer b ! ((bb_offset b + i) mod bb_size b)"
  by (simp add: queued_def)

lemma length_put_bytes [simp]: "pos + length ys \<le> length xs \<Longrightarrow> length (put_bytes pos ys xs) = length xs"
  by (simp add: put_bytes_def)

lemma nth_put_bytes:
  "pos + length ys \<le> length xs \<Longrightarrow> p < length xs \<Longrightarrow>
   put_bytes pos ys xs ! p = (if pos \<le> p \<and> p < pos + length ys then ys ! (p - pos) else xs ! p)"
  by (auto simp: put_bytes_def nth_append min_def)

lemma mod_wrap: "(a :: nat) < n \<Longrightarrow> b \<le> n \<Longrightarrow> (if n \<le> a + b then a + b - n else a + b) = (a + b) mod n"
proof (cases "n \<le> a + b")
  case True
  assume "a < n" "b \<le> n"
  with True have "a + b = n + (a + b - n)" "a + b - n < n" by linarith+
  then have "(a + b) mod n = a + b - n" by (metis mod_add_self1 mod_less)
  with True show ?thesis by simp
qed simp

lemma mod_window: "i < j \<Longrightarrow> j < i + n \<Longrightarrow> (a + i) mod n \<noteq> (a + j) mod (n :: nat)"
proof
  assume ij: "i < j" "j < i + n" and "(a + i) mod n = (a + j) mod n"
  then have "n dvd (a + j) - (a + i)" by (intro mod_eq_dvd_iff_nat [THEN iffD1]) simp_all
  then have "n dvd j - i" by simp
  with ij show False using dvd_imp_le [of n "j - i"] by linarith
qed

text \<open>One turn of each loop.\<close>

lemma read_turn:
  assumes b: "ring b" and n: "0 < n" "n \<le> bb_len b"
  defines "chunk \<equiv> (if bb_offset b + n \<le> bb_size b then n else bb_size b - bb_offset b)"
  obtains b' where "ring b'" "same_setup b b'" "queued b' = drop chunk (queued b)" "0 < chunk" "chunk \<le> n"
    "read_chunks n b = (if n - chunk = 0 then Some (take chunk (queued b), b')
       else Option.bind (read_chunks (n - chunk) b') (\<lambda>(more, b2). Some (take chunk (queued b) @ more, b2)))"
proof -
  have sz: "bb_len b \<le> bb_size b" "bb_offset b < bb_size b" "length (buffer b) = bb_size b" and buf: "bb_buf b \<noteq> None"
    using b by (auto simp: ring_def)
  have chunk: "0 < chunk" "chunk \<le> n" "bb_offset b + chunk \<le> bb_size b" using n sz by (auto simp: chunk_def)
  define pos where "pos = (if bb_len b - chunk = 0 then 0 else (bb_offset b + chunk) mod bb_size b)"
  define b' where "b' = b\<lparr>bb_len := bb_len b - chunk, bb_offset := pos\<rparr>"
  have out: "take chunk (drop (bb_offset b) (buffer b)) = take chunk (queued b)"
    using chunk n sz by (intro nth_equalityI) (simp_all add: queued_nth)
  have fields: "buffer b' = buffer b" "bb_offset b' = pos" "bb_size b' = bb_size b" "bb_len b' = bb_len b - chunk"
    by (simp_all add: b'_def buffer_def)
  show ?thesis
  proof (rule that [of b'])
    have "bb_len b - chunk \<le> bb_size b" using sz by linarith
    then show "ring b'" using sz buf by (simp add: ring_def fields pos_def) (simp add: b'_def)
    show "same_setup b b'" by (simp add: same_setup_def b'_def)
    show "queued b' = drop chunk (queued b)"
    proof (rule nth_equalityI)
      show "length (queued b') = length (drop chunk (queued b))" by (simp add: fields)
      fix i assume "i < length (queued b')"
      then have i: "chunk + i < bb_len b" "bb_len b - chunk \<noteq> 0" "i < bb_len b'" by (simp_all add: fields)
      have "(pos + i) mod bb_size b = (bb_offset b + (chunk + i)) mod bb_size b"
        using i(2) by (simp add: pos_def mod_add_left_eq add.assoc)
      then show "queued b' ! i = drop chunk (queued b) ! i"
        using i(1) unfolding queued_nth [OF i(3)] by (simp add: queued_nth fields)
    qed
    have "(if bb_offset b + chunk = bb_size b then 0 else bb_offset b + chunk) = (bb_offset b + chunk) mod bb_size b"
      using chunk(3) by simp
    then have e: "(if bb_len b - chunk \<noteq> 0 then if bb_offset b + chunk = bb_size b then 0 else bb_offset b + chunk else 0) = pos"
      by (simp add: pos_def)
    show "read_chunks n b = (if n - chunk = 0 then Some (take chunk (queued b), b')
       else Option.bind (read_chunks (n - chunk) b') (\<lambda>(more, b2). Some (take chunk (queued b) @ more, b2)))"
    proof -
      have "(let b = b\<lparr>bb_len := bb_len b - chunk\<rparr>
          in if bb_len b \<noteq> 0
             then let b = b\<lparr>bb_offset := bb_offset b + chunk\<rparr>
                  in if bb_offset b = bb_size b then b\<lparr>bb_offset := 0\<rparr> else b
             else b\<lparr>bb_offset := 0\<rparr>) = b'"
        unfolding b'_def e [symmetric] by (simp add: Let_def)
      then show ?thesis
        by (subst read_chunks.simps) (simp only: Let_def out flip: chunk_def)
    qed
  qed (rule chunk)+
qed

lemma write_turn:
  assumes b: "ring b" and n: "0 < n" "bb_len b + n \<le> bb_size b" "n \<le> length data"
  defines "w \<equiv> (bb_offset b + bb_len b) mod bb_size b"
  defines "chunk \<equiv> (if w + n \<le> bb_size b then n else bb_size b - w)"
  defines "b' \<equiv> b\<lparr>bb_buf := map_option (put_bytes w (take chunk data)) (bb_buf b), bb_len := bb_len b + chunk\<rparr>"
  shows "ring b'" "same_setup b b'" "queued b' = queued b @ take chunk data" "0 < chunk" "chunk \<le> n"
    "write_chunks n data b = (if n - chunk = 0 then Some b' else write_chunks (n - chunk) (drop chunk data) b')"
proof -
  have sz: "bb_len b \<le> bb_size b" "bb_offset b < bb_size b" "length (buffer b) = bb_size b" and buf: "bb_buf b = Some (buffer b)"
    using b by (auto simp: ring_def buffer_def)
  have w: "w < bb_size b" using sz by (simp add: w_def)
  show chunk: "0 < chunk" "chunk \<le> n" using n w by (auto simp: chunk_def)
  have wc: "w + length (take chunk data) \<le> length (buffer b)" and lt: "length (take chunk data) = chunk"
    using n w chunk sz by (auto simp: chunk_def)
  have buf': "buffer b' = put_bytes w (take chunk data) (buffer b)"
    by (simp add: b'_def buf buffer_def [of "b\<lparr>bb_buf := _, bb_len := _\<rparr>"])
  show "ring b'" using sz wc n chunk buf by (auto simp: ring_def buf') (simp_all add: b'_def)
  show "same_setup b b'" by (simp add: same_setup_def b'_def)
  have fields: "bb_offset b' = bb_offset b" "bb_size b' = bb_size b" "bb_len b' = bb_len b + chunk"
    by (simp_all add: b'_def)
  show "queued b' = queued b @ take chunk data"
  proof (rule nth_equalityI)
    show "length (queued b') = length (queued b @ take chunk data)" by (simp only: length_append length_queued fields lt)
    fix i assume "i < length (queued b')"
    then have i: "i < bb_len b + chunk" by (simp add: fields)
    let ?p = "(bb_offset b + i) mod bb_size b"
    have p: "?p < length (buffer b)" using sz by simp
    have c: "queued b' ! i = put_bytes w (take chunk data) (buffer b) ! ?p"
      using i by (simp add: queued_nth fields buf')
    show "queued b' ! i = (queued b @ take chunk data) ! i"
    proof (cases "i < bb_len b")
      case True
      have out: "\<not> (w \<le> ?p \<and> ?p < w + chunk)"
      proof
        assume r: "w \<le> ?p \<and> ?p < w + chunk"
        define j where "j = ?p - w"
        have j: "j < chunk" "?p = w + j" using r by (auto simp: j_def)
        have "w + j < bb_size b" using j p sz by simp
        then have "(bb_offset b + (bb_len b + j)) mod bb_size b = w + j"
          unfolding w_def by (metis add.assoc mod_add_left_eq mod_less)
        moreover have "i < bb_len b + j" "bb_len b + j < i + bb_size b" using True j n chunk by linarith+
        ultimately show False using mod_window [of i "bb_len b + j" "bb_size b" "bb_offset b"] j by simp
      qed
      show ?thesis unfolding c nth_put_bytes [OF wc p] lt if_not_P [OF out] using True by (simp add: nth_append queued_nth)
    next
      case False
      define j where "j = i - bb_len b"
      have j: "j < chunk" "i = bb_len b + j" using i False by (auto simp: j_def)
      have "w + j < bb_size b" using j(1) wc lt sz by simp
      then have "?p = w + j" unfolding w_def j(2) by (metis add.assoc mod_add_left_eq mod_less)
      with False j show ?thesis unfolding c nth_put_bytes [OF wc p] lt by (simp add: nth_append)
    qed
  qed
  have "(if bb_offset b + bb_len b \<ge> bb_size b then bb_offset b + bb_len b - bb_size b else bb_offset b + bb_len b) = w"
    unfolding w_def using sz by (intro mod_wrap)
  moreover have "(if w + n \<le> bb_size b then n else bb_size b - w) = chunk" by (simp only: chunk_def)
  ultimately show "write_chunks n data b = (if n - chunk = 0 then Some b' else write_chunks (n - chunk) (drop chunk data) b')"
    by (subst write_chunks.simps) (simp only: Let_def, simp add: b'_def)
qed

lemma read_chunks_correct:
  assumes "ring b" "0 < n" "n \<le> bb_len b"
  shows "\<exists>b'. read_chunks n b = Some (take n (queued b), b') \<and> ring b' \<and> same_setup b b' \<and>
    queued b' = drop n (queued b)"
  using assms
proof (induction n arbitrary: b rule: less_induct)
  case (less n)
  define c where "c = (if bb_offset b + n \<le> bb_size b then n else bb_size b - bb_offset b)"
  obtain b' where t: "ring b'" "same_setup b b'" "queued b' = drop c (queued b)" "0 < c" "c \<le> n"
    "read_chunks n b = (if n - c = 0 then Some (take c (queued b), b')
       else Option.bind (read_chunks (n - c) b') (\<lambda>(more, b2). Some (take c (queued b) @ more, b2)))"
    by (rule read_turn [OF less.prems, folded c_def]) blast
  show ?case
  proof (cases "n - c = 0")
    case True
    with t show ?thesis by auto
  next
    case False
    have "bb_len b' = bb_len b - c" using arg_cong [OF t(3), of length] by simp
    then have "n - c \<le> bb_len b'" using less.prems(3) by linarith
    then obtain b2 where i: "read_chunks (n - c) b' = Some (take (n - c) (queued b'), b2)" "ring b2" "same_setup b' b2"
      "queued b2 = drop (n - c) (queued b')"
      using less.IH [of "n - c" b'] t(1,4) False by auto
    have "take c (queued b) @ take (n - c) (drop c (queued b)) = take n (queued b)"
      using t(5) by (metis le_add_diff_inverse take_add)
    moreover have "drop (n - c) (drop c (queued b)) = drop n (queued b)" using t(5) by simp
    ultimately show ?thesis using t(2,3,6) i False by (auto intro: same_setup_trans)
  qed
qed

lemma write_chunks_correct:
  assumes "ring b" "0 < n" "bb_len b + n \<le> bb_size b" "n \<le> length data"
  shows "\<exists>b'. write_chunks n data b = Some b' \<and> ring b' \<and> same_setup b b' \<and>
    queued b' = queued b @ take n data"
  using assms
proof (induction n arbitrary: b data rule: less_induct)
  case (less n)
  define w where "w = (bb_offset b + bb_len b) mod bb_size b"
  define c where "c = (if w + n \<le> bb_size b then n else bb_size b - w)"
  define b' where "b' = b\<lparr>bb_buf := map_option (put_bytes w (take c data)) (bb_buf b), bb_len := bb_len b + c\<rparr>"
  note t = write_turn [OF less.prems, folded w_def, folded c_def, folded b'_def]
  show ?case
  proof (cases "n - c = 0")
    case True
    with t show ?thesis by auto
  next
    case False
    have "bb_len b' + (n - c) \<le> bb_size b'" using less.prems(3) t(5) by (simp add: b'_def)
    moreover have "n - c \<le> length (drop c data)" using less.prems(4) by (simp add: diff_le_mono)
    ultimately obtain b2 where i: "write_chunks (n - c) (drop c data) b' = Some b2" "ring b2" "same_setup b' b2"
      "queued b2 = queued b' @ take (n - c) (drop c data)"
      using less.IH [of "n - c" b' "drop c data"] t(1,4) False by auto
    have "take c data @ take (n - c) (drop c data) = take n data"
      using t(5) by (metis le_add_diff_inverse take_add)
    with i t False show ?thesis by (auto intro: same_setup_trans)
  qed
qed

text \<open>
  The contract of a bounded queue: \<open>put\<close> takes as much as there is room for and \<open>get\<close> as much as
  there is, both say how much, and neither fails on a well-formed state.
\<close>

locale bounded_fifo =
  fixes wf :: "'s \<Rightarrow> bool" and items :: "'s \<Rightarrow> 'a list" and capacity :: "'s \<Rightarrow> nat"
    and put :: "'a list \<Rightarrow> 's \<Rightarrow> (nat \<times> 's) option"
    and get :: "nat \<Rightarrow> 's \<Rightarrow> (nat \<times> 'a list \<times> 's) option"
  assumes put_law: "wf s \<Longrightarrow> \<exists>s'. put xs s = Some (min (length xs) (capacity s - length (items s)), s') \<and>
      wf s' \<and> capacity s' = capacity s \<and> items s' = items s @ take (capacity s - length (items s)) xs"
    and get_law: "wf s \<Longrightarrow> \<exists>s'. get n s = Some (min n (length (items s)), take n (items s), s') \<and>
      wf s' \<and> capacity s' = capacity s \<and> items s' = drop n (items s)"

text \<open>A run of calls, with the bytes that were accepted and the ones that were delivered.\<close>

datatype 'a queue_call = Put "'a list" | Get nat

fun run_queue ::
  "('a list \<Rightarrow> 's \<Rightarrow> (nat \<times> 's) option) \<Rightarrow> (nat \<Rightarrow> 's \<Rightarrow> (nat \<times> 'a list \<times> 's) option) \<Rightarrow>
   'a queue_call list \<Rightarrow> 's \<Rightarrow> ('a list \<times> 'a list \<times> 's) option"
where
  "run_queue put get [] s = Some ([], [], s)"
| "run_queue put get (Put xs # calls) s =
     Option.bind (put xs s) (\<lambda>(n, s). Option.bind (run_queue put get calls s) (\<lambda>(sent, received, s).
       Some (take n xs @ sent, received, s)))"
| "run_queue put get (Get n # calls) s =
     Option.bind (get n s) (\<lambda>(n, xs, s). Option.bind (run_queue put get calls s) (\<lambda>(sent, received, s).
       Some (sent, xs @ received, s)))"

context bounded_fifo begin

lemma run_in_order:
  "wf s \<Longrightarrow> \<exists>sent received s'. run_queue put get calls s = Some (sent, received, s') \<and> wf s' \<and>
     capacity s' = capacity s \<and> items s @ sent = received @ items s'"
proof (induction calls arbitrary: s)
  case (Cons c calls)
  show ?case
  proof (cases c)
    case (Put xs)
    obtain s1 where p: "put xs s = Some (min (length xs) (capacity s - length (items s)), s1)" "wf s1"
      "capacity s1 = capacity s" "items s1 = items s @ take (capacity s - length (items s)) xs"
      using put_law [OF Cons.prems] by blast
    have "take (min (length xs) (capacity s - length (items s))) xs = take (capacity s - length (items s)) xs"
      by (simp add: min_def)
    with Cons.IH [OF p(2)] p show ?thesis by (auto simp: Put)
  next
    case (Get n)
    obtain s1 where g: "get n s = Some (min n (length (items s)), take n (items s), s1)" "wf s1"
      "capacity s1 = capacity s" "items s1 = drop n (items s)"
      using get_law [OF Cons.prems] by blast
    obtain sent received s' where r: "run_queue put get calls s1 = Some (sent, received, s')" "wf s'"
      "capacity s' = capacity s1" "items s1 @ sent = received @ items s'"
      using Cons.IH [OF g(2)] by blast
    have "items s @ sent = take n (items s) @ received @ items s'"
      using r(4) g(4) by (metis append.assoc append_take_drop_id)
    with g(1,3) r(1-3) show ?thesis by (auto simp: Get)
  qed
qed simp

end

text \<open>The calls of the methods, with the guards under which they make them.\<close>

definition ring_put :: "byte list \<Rightarrow> bio_bio_st \<Rightarrow> (nat \<times> bio_bio_st) option" where
  "ring_put data b = (if length data = 0 \<or> bb_len b = bb_size b then Some (0, b) else ring_write data b)"

definition ring_get :: "nat \<Rightarrow> bio_bio_st \<Rightarrow> (nat \<times> byte list \<times> bio_bio_st) option" where
  "ring_get n b = (if n = 0 \<or> bb_len b = 0 then Some (0, [], b) else ring_read n b)"

lemma ring_put_correct:
  assumes "ring b"
  shows "\<exists>b'. ring_put data b = Some (min (length data) (bb_size b - bb_len b), b') \<and> ring b' \<and> same_setup b b' \<and>
    queued b' = queued b @ take (bb_size b - bb_len b) data"
proof (cases "length data = 0 \<or> bb_len b = bb_size b")
  case True
  with assms show ?thesis by (auto simp: ring_put_def)
next
  case False
  define n where "n = min (length data) (bb_size b - bb_len b)"
  have "bb_len b \<le> bb_size b" using assms by (simp add: ring_def)
  then have n: "0 < n" "bb_len b + n \<le> bb_size b" "n \<le> length data"
    using False by (auto simp: n_def)
  have c: "(if length data > bb_size b - bb_len b then bb_size b - bb_len b else length data) = n" by (simp add: n_def)
  have t: "take n data = take (bb_size b - bb_len b) data" by (simp add: n_def min_def)
  show ?thesis
    using write_chunks_correct [OF assms n] False unfolding n_def [symmetric]
    by (auto simp: ring_put_def ring_write_def Let_def c t)
qed

lemma ring_get_correct:
  assumes "ring b"
  shows "\<exists>b'. ring_get n b = Some (min n (bb_len b), take n (queued b), b') \<and> ring b' \<and> same_setup b b' \<and>
    queued b' = drop n (queued b)"
proof (cases "n = 0 \<or> bb_len b = 0")
  case True
  then have "queued b = [] \<or> n = 0" by (auto simp: queued_def)
  with True assms show ?thesis by (auto simp: ring_get_def)
next
  case False
  define m where "m = min n (bb_len b)"
  have m: "0 < m" "m \<le> bb_len b" using False by (auto simp: m_def)
  have c: "(if bb_len b < n then bb_len b else n) = m" by (simp add: m_def min_def)
  have t: "take m (queued b) = take n (queued b)" "drop m (queued b) = drop n (queued b)"
    by (simp_all add: m_def min_def)
  show ?thesis
    using read_chunks_correct [OF assms m] False unfolding m_def [symmetric]
    by (auto simp: ring_get_def ring_read_def c t)
qed

interpretation ring_queue: bounded_fifo ring queued bb_size ring_put ring_get
proof
  fix b :: bio_bio_st and xs :: "byte list"
  assume "ring b"
  then show "\<exists>s'. ring_put xs b = Some (min (length xs) (bb_size b - length (queued b)), s') \<and> ring s' \<and>
      bb_size s' = bb_size b \<and> queued s' = queued b @ take (bb_size b - length (queued b)) xs"
    using ring_put_correct [of b xs] by (auto simp: same_setup_def)
next
  fix b :: bio_bio_st and n :: nat
  assume "ring b"
  then show "\<exists>s'. ring_get n b = Some (min n (length (queued b)), take n (queued b), s') \<and> ring s' \<and>
      bb_size s' = bb_size b \<and> queued s' = drop n (queued b)"
    using ring_get_correct [of b n] by (auto simp: same_setup_def)
qed

section \<open>Two ends\<close>

definition paired :: "nat \<Rightarrow> nat \<Rightarrow> bios \<Rightarrow> bool" where
  "paired x y h \<longleftrightarrow> x \<noteq> y \<and> bio_init (h x) \<and> bio_init (h y) \<and>
     bb_peer (bio_ptr (h x)) = Some y \<and> bb_peer (bio_ptr (h y)) = Some x \<and>
     ring (bio_ptr (h x)) \<and> ring (bio_ptr (h y)) \<and>
     bb_size (bio_ptr (h x)) < 2 ^ 31 \<and> bb_size (bio_ptr (h y)) < 2 ^ 31"

text \<open>The bytes written to \<open>x\<close> that its peer has not read.\<close>

definition queue :: "nat \<Rightarrow> bios \<Rightarrow> byte list" where
  "queue x h = queued (bio_ptr (h x))"

lemma paired_sym: "paired x y h \<longleftrightarrow> paired y x h"
  by (auto simp: paired_def)

lemma int_of_size: "n < 2 ^ 31 \<Longrightarrow> int_of_size n = int n"
  unfolding int_of_size_def by (simp add: signed_of_nat signed_take_bit_int_eq_self)

lemma ring_request [simp]:
  "ring (b\<lparr>bb_request := r\<rparr>) = ring b" "queued (b\<lparr>bb_request := r\<rparr>) = queued b"
  "ring (b\<lparr>bb_closed := c\<rparr>) = ring b" "queued (b\<lparr>bb_closed := c\<rparr>) = queued b"
  by (simp_all add: ring_def queued_def buffer_def)

lemma flag_fields [simp]:
  "bio_ptr (BIO_clear_retry_flags z) = bio_ptr z" "bio_init (BIO_clear_retry_flags z) = bio_init z"
  "bio_ptr (BIO_set_retry_read z) = bio_ptr z" "bio_init (BIO_set_retry_read z) = bio_init z"
  "bio_ptr (BIO_set_retry_write z) = bio_ptr z" "bio_init (BIO_set_retry_write z) = bio_init z"
  by (simp_all add: BIO_clear_retry_flags_def BIO_set_retry_read_def BIO_set_retry_write_def)

lemma set_ptr_fields [simp]:
  "bio_ptr (set_ptr x b h z) = (if z = x then b else bio_ptr (h z))" "bio_init (set_ptr x b h z) = bio_init (h z)"
  "bio_flags (set_ptr x b h z) = bio_flags (h z)"
  by (simp_all add: set_ptr_def)

lemma or_and_ne: "m AND c = m \<Longrightarrow> m \<noteq> 0 \<Longrightarrow> (f OR c) AND m \<noteq> (0 :: u32)"
proof -
  assume m: "m AND c = m" "m \<noteq> 0"
  have "(f OR c) AND m = m"
  proof (rule bit_eqI)
    fix n
    have "bit m n \<longleftrightarrow> bit m n \<and> bit c n" using m(1) by (metis bit_and_iff)
    then show "bit ((f OR c) AND m) n \<longleftrightarrow> bit m n" by (auto simp: bit_and_iff bit_or_iff)
  qed
  with m(2) show ?thesis by simp
qed

lemma retry_write_flags:
  "BIO_should_write (BIO_set_retry_write z) \<noteq> 0" "BIO_should_retry (BIO_set_retry_write z) \<noteq> 0"
  unfolding BIO_should_write_def BIO_should_retry_def BIO_test_flags_def BIO_set_retry_write_def
  by (simp_all add: or_and_ne)

lemma retry_read_flags:
  "BIO_should_read (BIO_set_retry_read z) \<noteq> 0" "BIO_should_retry (BIO_set_retry_read z) \<noteq> 0"
  unfolding BIO_should_read_def BIO_should_retry_def BIO_test_flags_def BIO_set_retry_read_def
  by (simp_all add: or_and_ne)

text \<open>A write, in all its cases.\<close>

lemma bio_write_cases:
  assumes p: "paired x y h" and d: "data \<noteq> []"
  obtains (closed) h' where "bb_closed (bio_ptr (h x))" "bio_write x (Some data) h = Some (- 1, h')"
      "paired x y h'" "queue x h' = queue x h" "queue y h' = queue y h"
    | (full) h' where "\<not> bb_closed (bio_ptr (h x))" "length (queue x h) = bb_size (bio_ptr (h x))"
      "bio_write x (Some data) h = Some (- 1, h')" "paired x y h'" "queue x h' = queue x h" "queue y h' = queue y h"
      "BIO_should_write (h' x) \<noteq> 0" "BIO_should_retry (h' x) \<noteq> 0"
    | (written) h' n where "\<not> bb_closed (bio_ptr (h x))" "length (queue x h) < bb_size (bio_ptr (h x))"
      "n = min (length data) (bb_size (bio_ptr (h x)) - length (queue x h))" "0 < n"
      "bio_write x (Some data) h = Some (int n, h')" "paired x y h'"
      "queue x h' = queue x h @ take n data" "queue y h' = queue y h"
proof -
  define b where "b = (bio_ptr (h x))\<lparr>bb_request := 0\<rparr>"
  define h2 where "h2 = set_ptr x b (h(x := BIO_clear_retry_flags (h x)))"
  have init: "bio_init (h x)" and xy: "x \<noteq> y" using p by (simp_all add: paired_def)
  have b: "ring b" "queued b = queue x h" "bb_closed b = bb_closed (bio_ptr (h x))" "bb_size b = bb_size (bio_ptr (h x))"
    "bb_len b = length (queue x h)"
    using p by (simp_all add: b_def paired_def queue_def)
  have h2: "bio_ptr (h2 x) = b" "bio_ptr (h2 y) = bio_ptr (h y)" using xy by (simp_all add: h2_def)
  have e: "bio_write x (Some data) h =
      (if bb_closed b then Some (- 1, h2)
       else if bb_len b = bb_size b then Some (- 1, h2(x := BIO_set_retry_write (h2 x)))
       else Option.bind (ring_write data b) (\<lambda>(num, b). Some (int_of_size num, set_ptr x b h2)))"
    using init d by (simp add: bio_write_def Let_def b_def h2_def)
  have pair2: "paired x y h2" "queue x h2 = queue x h" "queue y h2 = queue y h"
    using p xy b by (auto simp: paired_def h2_def queue_def b_def)
  show ?thesis
  proof (cases "bb_closed b")
    case True
    then show ?thesis using e b pair2 by (intro closed [of h2]) simp_all
  next
    case False
    show ?thesis
    proof (cases "bb_len b = bb_size b")
      case True
      then show ?thesis using False e b pair2 xy
        by (intro full [of "h2(x := BIO_set_retry_write (h2 x))"])
          (auto simp: paired_def queue_def retry_write_flags)
    next
      case room: False
      define n where "n = min (length data) (bb_size b - bb_len b)"
      obtain b' where b': "ring_put data b = Some (n, b')" "ring b'" "same_setup b b'"
        "queued b' = queued b @ take (bb_size b - bb_len b) data"
        using ring_put_correct [OF b(1), of data] by (auto simp: n_def)
      have "bb_len b < bb_size b" using b(1) room by (simp add: ring_def)
      then have n: "0 < n" "n < 2 ^ 31" "take n data = take (bb_size b - bb_len b) data"
        using d p b(4) by (auto simp: n_def min_def paired_def)
      have w: "bio_write x (Some data) h = Some (int n, set_ptr x b' h2)"
        using e False room b'(1) d by (simp add: ring_put_def int_of_size [OF n(2)])
      show ?thesis
      proof (rule written [OF _ _ _ n(1) w])
        show "paired x y (set_ptr x b' h2)"
          using pair2(1) b'(2,3) h2 xy by (simp add: paired_def same_setup_def)
      qed (use False \<open>bb_len b < bb_size b\<close> b b'(4) n(3) h2 xy in \<open>simp_all add: n_def queue_def\<close>)
    qed
  qed
qed

text \<open>The queues after a write, whatever its arguments.\<close>

lemma bio_write_paired:
  assumes "paired x y h"
  shows "\<exists>n h'. bio_write x data h = Some (n, h') \<and> paired x y h' \<and> queue y h' = queue y h \<and>
    queue x h' = queue x h @ take (nat n) (case data of None \<Rightarrow> [] | Some d \<Rightarrow> d)"
proof (cases "\<exists>d. data = Some d \<and> d \<noteq> []")
  case True
  then obtain d where d: "data = Some d" "d \<noteq> []" by blast
  show ?thesis by (rule bio_write_cases [OF assms d(2)]) (simp_all add: d(1))
next
  case False
  have "paired x y (h(x := BIO_clear_retry_flags (h x)))" "queue z (h(x := BIO_clear_retry_flags (h x))) = queue z h" for z
    using assms by (auto simp: paired_def queue_def)
  with False show ?thesis by (cases data) (simp_all add: bio_write_def)
qed

text \<open>A read, in all its cases.\<close>

lemma bio_read_cases:
  assumes p: "paired x y h" and n: "0 < n" "n < 2 ^ 31"
  obtains (eof) h' where "queue y h = []" "bb_closed (bio_ptr (h y))" "bio_read x True n h = Some (0, [], h')"
      "paired x y h'" "queue x h' = queue x h" "queue y h' = []"
    | (empty) h' where "queue y h = []" "\<not> bb_closed (bio_ptr (h y))" "bio_read x True n h = Some (- 1, [], h')"
      "paired x y h'" "queue x h' = queue x h" "queue y h' = []"
      "BIO_should_read (h' x) \<noteq> 0" "BIO_should_retry (h' x) \<noteq> 0"
      "bb_request (bio_ptr (h' y)) = min (nat n) (bb_size (bio_ptr (h y)))"
    | (delivered) h' m where "queue y h \<noteq> []" "m = min (nat n) (length (queue y h))" "0 < m"
      "bio_read x True n h = Some (int m, take m (queue y h), h')"
      "paired x y h'" "queue x h' = queue x h" "queue y h' = drop m (queue y h)"
proof -
  define b where "b = (bio_ptr (h y))\<lparr>bb_request := 0\<rparr>"
  define h2 where "h2 = set_ptr y b (h(x := BIO_clear_retry_flags (h x)))"
  have init: "bio_init (h x)" "bb_peer (bio_ptr (h x)) = Some y" and xy: "x \<noteq> y" using p by (simp_all add: paired_def)
  have b: "ring b" "queued b = queue y h" "bb_closed b = bb_closed (bio_ptr (h y))" "bb_size b = bb_size (bio_ptr (h y))"
    "bb_len b = length (queue y h)"
    using p by (simp_all add: b_def paired_def queue_def)
  have h2: "bio_ptr (h2 y) = b" "bio_ptr (h2 x) = bio_ptr (h x)" using xy by (simp_all add: h2_def)
  have "n mod 2 ^ 64 = n" using n by simp
  then have e: "bio_read x True n h =
      (if bb_len b = 0
       then if bb_closed b then Some (0, [], h2)
            else Some (- 1, [], set_ptr y (b\<lparr>bb_request := if nat n \<le> bb_size b then nat n else bb_size b\<rparr>)
                   (h2(x := BIO_set_retry_read (h2 x))))
       else Option.bind (ring_read (nat n) b) (\<lambda>(k, out, b). Some (int_of_size k, out, set_ptr y b h2)))"
    using init n xy by (simp add: bio_read_def Let_def b_def h2_def)
  have pair2: "paired x y h2" "queue x h2 = queue x h" "queue y h2 = queue y h"
    using p xy b by (auto simp: paired_def h2_def queue_def b_def)
  show ?thesis
  proof (cases "bb_len b = 0")
    case True
    then have q: "queue y h = []" using b(5) by simp
    show ?thesis
    proof (cases "bb_closed b")
      case closed: True
      then show ?thesis using e True b pair2 q by (intro eof [of h2]) simp_all
    next
      case False
      define b3 where "b3 = b\<lparr>bb_request := min (nat n) (bb_size b)\<rparr>"
      define h3 where "h3 = set_ptr y b3 (h2(x := BIO_set_retry_read (h2 x)))"
      have h3: "bio_read x True n h = Some (- 1, [], h3)" "bio_ptr (h3 y) = b3" "bio_ptr (h3 x) = bio_ptr (h x)"
        "h3 x = BIO_set_retry_read (h2 x)"
        using e True False xy h2 by (simp_all add: h3_def b3_def min_def set_ptr_def)
      have b3: "ring b3" "queued b3 = []" using b(1,2) q by (simp_all add: b3_def)
      have "paired x y h3"
        using pair2(1) h2 h3(2,3) b3(1) xy by (simp add: paired_def h3_def b3_def)
      with h3 b3 False b q show ?thesis
        by (intro empty [of h3]) (simp_all add: queue_def retry_read_flags b3_def)
    qed
  next
    case False
    define m where "m = min (nat n) (bb_len b)"
    obtain b' where b': "ring_get (nat n) b = Some (m, take (nat n) (queued b), b')" "ring b'" "same_setup b b'"
      "queued b' = drop (nat n) (queued b)"
      using ring_get_correct [OF b(1), of "nat n"] by (auto simp: m_def)
    have "bb_len b < 2 ^ 31" using b(1,4) p by (simp add: ring_def paired_def)
    then have m: "0 < m" "m < 2 ^ 31" "take m (queue y h) = take (nat n) (queued b)" "drop m (queue y h) = drop (nat n) (queued b)"
      using n False b(2,5) by (auto simp: m_def min_def)
    have ne: "queue y h \<noteq> []" using False b(5) by auto
    have r: "bio_read x True n h = Some (int m, take m (queue y h), set_ptr y b' h2)"
      using e False b'(1) n m(3) by (simp add: ring_get_def int_of_size [OF m(2)])
    show ?thesis
    proof (rule delivered [OF ne _ m(1) r])
      show "paired x y (set_ptr y b' h2)"
        using pair2(1) b'(2,3) h2 xy by (simp add: paired_def same_setup_def)
    qed (use False b b'(4) m(4) h2 xy in \<open>simp_all add: m_def queue_def\<close>)
  qed
qed

text \<open>The queues after a read, whatever its arguments.\<close>

lemma bio_read_paired:
  assumes p: "paired x y h" and n: "0 < n" "n < 2 ^ 31"
  shows "\<exists>m out h'. bio_read x have_buf n h = Some (m, out, h') \<and> paired x y h' \<and> queue x h' = queue x h \<and>
    queue y h = out @ queue y h'"
proof (cases have_buf)
  case True
  show ?thesis by (rule bio_read_cases [OF p n]) (use True in \<open>auto simp: append_take_drop_id\<close>)
next
  case False
  define h' where "h' = set_ptr y ((bio_ptr (h y))\<lparr>bb_request := 0\<rparr>) (h(x := BIO_clear_retry_flags (h x)))"
  have "bio_read x have_buf n h = Some (0, [], h')"
    using False p by (simp add: bio_read_def Let_def h'_def paired_def)
  moreover have "paired x y h'" "queue x h' = queue x h" "queue y h' = queue y h"
    using p by (auto simp: paired_def queue_def h'_def)
  ultimately show ?thesis by simp
qed

section \<open>Runs of calls on a pair\<close>

lemma count_fields [simp]:
  "paired x y (h(z := (h z)\<lparr>num_read := k\<rparr>)) = paired x y h" "paired x y (h(z := (h z)\<lparr>num_write := k\<rparr>)) = paired x y h"
  "queue w (h(z := (h z)\<lparr>num_read := k\<rparr>)) = queue w h" "queue w (h(z := (h z)\<lparr>num_write := k\<rparr>)) = queue w h"
  by (simp_all add: paired_def queue_def)

lemma BIO_read_paired:
  assumes p: "paired x y h" and n: "n < 2 ^ 31"
  shows "\<exists>m out h'. BIO_read x have_buf n h = Some (m, out, h') \<and> paired x y h' \<and> queue x h' = queue x h \<and>
    queue y h = out @ queue y h'"
proof (cases "0 < n")
  case True
  have "bio_init (h x)" using p by (simp add: paired_def)
  with bio_read_paired [OF p True n, of have_buf] True show ?thesis by (auto simp: BIO_read_def)
next
  case False
  with p show ?thesis by (simp add: BIO_read_def paired_def)
qed

lemma BIO_write_paired:
  assumes "paired x y h"
  shows "\<exists>n h'. BIO_write x data inl h = Some (n, h') \<and> paired x y h' \<and> queue y h' = queue y h \<and>
    queue x h' = queue x h @ take (nat n) (case data of None \<Rightarrow> [] | Some d \<Rightarrow> take (nat inl) d)"
proof (cases "0 < inl")
  case True
  have "bio_init (h x)" using assms by (simp add: paired_def)
  with bio_write_paired [OF assms, of "map_option (take (nat inl)) data"] True show ?thesis
    by (cases data) (auto simp: BIO_write_def)
next
  case False
  with assms show ?thesis by (cases data) (simp_all add: BIO_write_def paired_def)
qed

lemma bio_ctrl_paired:
  assumes "paired x y h" "z = x \<or> z = y"
  shows "paired x y (snd (bio_ctrl z cmd num ptr h)) \<and> queue w (snd (bio_ctrl z cmd num ptr h)) = queue w h"
  using assms by (cases cmd) (auto simp: bio_ctrl_def Let_def paired_def queue_def)

text \<open>
  A run of calls on the two ends, in any order, with the bytes that \<open>x\<close> was told are written and
  the bytes that \<open>y\<close> was given.
\<close>

inductive pair_run :: "nat \<Rightarrow> nat \<Rightarrow> bios \<Rightarrow> byte list \<Rightarrow> byte list \<Rightarrow> bios \<Rightarrow> bool" for x y h where
  start: "pair_run x y h [] [] h"
| write_x: "pair_run x y h sent got h1 \<Longrightarrow> BIO_write x (Some data) inl h1 = Some (n, h2) \<Longrightarrow> inl = int (length data) \<Longrightarrow>
    pair_run x y h (sent @ take (nat n) data) got h2"
| write_y: "pair_run x y h sent got h1 \<Longrightarrow> BIO_write y data inl h1 = Some (n, h2) \<Longrightarrow> pair_run x y h sent got h2"
| read_y: "pair_run x y h sent got h1 \<Longrightarrow> BIO_read y have_buf len h1 = Some (n, out, h2) \<Longrightarrow> len < 2 ^ 31 \<Longrightarrow>
    pair_run x y h sent (got @ out) h2"
| read_x: "pair_run x y h sent got h1 \<Longrightarrow> BIO_read x have_buf len h1 = Some (n, out, h2) \<Longrightarrow> len < 2 ^ 31 \<Longrightarrow>
    pair_run x y h sent got h2"
| ctrl: "pair_run x y h sent got h1 \<Longrightarrow> z = x \<or> z = y \<Longrightarrow>
    pair_run x y h sent got (snd (bio_ctrl z cmd num ptr h1))"

lemma pair_run_in_order:
  assumes "pair_run x y h sent got h'" "paired x y h"
  shows "paired x y h' \<and> queue x h @ sent = got @ queue x h'"
  using assms
proof (induction rule: pair_run.induct)
  case (write_x sent got h1 data inl n h2)
  then show ?case using BIO_write_paired [of x y h1 "Some data" inl] by auto
next
  case (write_y sent got h1 data inl n h2)
  then show ?case using BIO_write_paired [of y x h1 data inl] by (auto simp: paired_sym [of y x])
next
  case (read_y sent got h1 have_buf len n out h2)
  then show ?case using BIO_read_paired [of y x h1 len have_buf] by (auto simp: paired_sym [of y x])
next
  case (read_x sent got h1 have_buf len n out h2)
  then show ?case using BIO_read_paired [of x y h1 len have_buf] by auto
next
  case (ctrl sent got h1 z cmd num ptr)
  then show ?case using bio_ctrl_paired [of x y h1 z cmd num ptr x] by auto
qed simp

section \<open>The life of a pair\<close>

lemma make_buffer_ring:
  assumes "make_buffer block n b = (True, b')" "bb_buf b = None" "0 < bb_size b"
    and "\<And>n xs. block n = Some xs \<Longrightarrow> length xs = n"
  shows "ring b' \<and> queued b' = [] \<and> bb_size b' = (if n = 0 then bb_size b else n)"
  using assms by (auto simp: make_buffer_def Let_def ring_def queued_def buffer_def split: option.splits if_splits)

lemma BIO_new_fields [simp]:
  "bb_peer (bio_ptr BIO_new) = None" "bb_buf (bio_ptr BIO_new) = None" "bb_size (bio_ptr BIO_new) = 17 * 1024"
  by (simp_all add: BIO_new_def bio_new_def)

text \<open>A new pair is paired and empty, and is made unless the allocator refuses a buffer.\<close>

lemma new_pair:
  assumes xy: "x \<noteq> y" and sizes: "n1 < 2 ^ 31" "n2 < 2 ^ 31"
    and block: "\<And>n xs. block n = Some xs \<Longrightarrow> length xs = n"
    and new: "BIO_new_bio_pair block x n1 y n2 h = Some h'"
  shows "paired x y h' \<and> queue x h' = [] \<and> queue y h' = []"
proof -
  let ?h = "h(x := BIO_new, y := BIO_new)"
  obtain b1 b2 where b: "make_buffer block n1 (bio_ptr BIO_new) = (True, b1)" "make_buffer block n2 (bio_ptr BIO_new) = (True, b2)"
    and h': "bio_ptr (h' x) = b1\<lparr>bb_peer := Some y, bb_closed := False, bb_request := 0\<rparr>"
      "bio_ptr (h' y) = b2\<lparr>bb_peer := Some x, bb_closed := False, bb_request := 0\<rparr>"
      "bio_init (h' x)" "bio_init (h' y)"
    using new xy
    by (auto simp: BIO_new_bio_pair_def bio_make_pair_def Let_def split: prod.splits bool.splits option.splits)
  have peer: "ring (b\<lparr>bb_peer := p\<rparr>) = ring b" "queued (b\<lparr>bb_peer := p\<rparr>) = queued b" for b p
    by (simp_all add: ring_def queued_def buffer_def)
  from make_buffer_ring [OF b(1) _ _ block] make_buffer_ring [OF b(2) _ _ block] h' xy sizes
  show ?thesis by (simp add: paired_def queue_def peer)
qed

lemma new_pair_ex:
  assumes "x \<noteq> y"
  shows "(\<exists>h'. BIO_new_bio_pair block x n1 y n2 h = Some h') \<longleftrightarrow>
    block (if n1 = 0 then 17 * 1024 else n1) \<noteq> None \<and> block (if n2 = 0 then 17 * 1024 else n2) \<noteq> None"
  using assms
  by (auto simp: BIO_new_bio_pair_def bio_make_pair_def make_buffer_def Let_def
      split: prod.splits bool.splits option.splits)

text \<open>\<open>BIO_write_all\<close> ends, with a prefix written, and reports whether it is everything.\<close>

lemma BIO_write_nonempty:
  assumes p: "paired x y h" and d: "data \<noteq> []" and inl: "0 < inl" "inl \<le> int (length data)"
  shows "\<exists>n h'. BIO_write x (Some data) inl h = Some (n, h') \<and> paired x y h' \<and> queue y h' = queue y h \<and>
    queue x h' = queue x h @ take (nat n) data \<and> n \<le> int (length data)"
proof -
  have ne: "take (nat inl) data \<noteq> []" using inl d by auto
  have init: "bio_init (h x)" using p by (simp add: paired_def)
  show ?thesis
  proof (rule bio_write_cases [OF p ne])
    fix h' n
    assume w: "n = min (length (take (nat inl) data)) (bb_size (bio_ptr (h x)) - length (queue x h))" "0 < n"
      "bio_write x (Some (take (nat inl) data)) h = Some (int n, h')" "paired x y h'"
      "queue x h' = queue x h @ take n (take (nat inl) data)" "queue y h' = queue y h"
    have n: "n \<le> nat inl" "n \<le> length data" using w(1) by auto
    then have t: "take n (take (nat inl) data) = take n data" by simp
    show ?thesis using w(2-6) n(2) init inl(1) unfolding t by (simp add: BIO_write_def)
  qed (use init inl in \<open>simp_all add: BIO_write_def\<close>)
qed

lemma BIO_write_all_correct:
  assumes "paired x y h"
  shows "\<exists>ok h' n. BIO_write_all x data h = Some (ok, h') \<and> paired x y h' \<and> queue y h' = queue y h \<and>
    n \<le> length data \<and> queue x h' = queue x h @ take n data \<and> ok = (n = length data)"
  using assms
proof (induction "length data" arbitrary: data h rule: less_induct)
  case less
  show ?case
  proof (cases "data = []")
    case True
    with less.prems show ?thesis
      by (intro exI [of _ True] exI [of _ h] exI [of _ 0]) (simp add: BIO_write_all.simps [of x "[]"])
  next
    case False
    define inl where "inl = (if length data > 0x7fffffff then 0x7fffffff else int (length data))"
    have "0 < inl" "inl \<le> int (length data)" using False by (auto simp: inl_def)
    then obtain n h1 where w: "BIO_write x (Some data) inl h = Some (n, h1)" "paired x y h1" "queue y h1 = queue y h"
      "queue x h1 = queue x h @ take (nat n) data" "n \<le> int (length data)"
      using BIO_write_nonempty [OF less.prems False] by blast
    have e: "BIO_write_all x data h = (if n \<le> 0 then Some (False, h1) else BIO_write_all x (drop (nat n) data) h1)"
      using False w(1) by (subst BIO_write_all.simps) (simp add: inl_def)
    show ?thesis
    proof (cases "n \<le> 0")
      case True
      with e w False show ?thesis by (intro exI [of _ False] exI [of _ h1] exI [of _ 0]) simp
    next
      case pos: False
      then have "length (drop (nat n) data) < length data" using False by simp
      from less.hyps [OF this w(2)] obtain ok h' m where i: "BIO_write_all x (drop (nat n) data) h1 = Some (ok, h')"
        "paired x y h'" "queue y h' = queue y h1" "m \<le> length (drop (nat n) data)"
        "queue x h' = queue x h1 @ take m (drop (nat n) data)" "ok = (m = length (drop (nat n) data))" by blast
      have "nat n \<le> length data" using w(5) by simp
      then show ?thesis
        using e pos i w(3,4)
        by (intro exI [of _ ok] exI [of _ h'] exI [of _ "nat n + m"]) (auto simp: take_add)
    qed
  qed
qed

text \<open>A destroyed pair answers every call with an error.\<close>

lemma destroyed_pair:
  assumes "paired x y h"
  shows "BIO_read x have_buf n (bio_destroy_pair x h) = Some (- 2, [], bio_destroy_pair x h)"
    and "BIO_write y data inl (bio_destroy_pair x h) = Some (- 2, bio_destroy_pair x h)"
  using assms by (simp_all add: paired_def bio_destroy_pair_def Let_def BIO_read_def BIO_write_def)

end
