(* ===== verification/Stack.thy ===== *)
theory Stack
  imports Asn1_Values
begin

text \<open>
  The array of pointers \<open>OPENSSL_STACK\<close>, \<open>crypto/stack/stack.c\<close>, with its heap sort and its search.
  The sort is shown to give a sorted permutation and the binary search to return what a linear
  search for the first match returns; the flag \<open>sorted\<close> that connects the two is an invariant of
  every operation but \<open>OPENSSL_sk_set\<close> and a deep copy of a sorted stack whose copy function does
  not keep the order.
\<close>

section \<open>The stack\<close>

text \<open>
  A pointer is None for NULL. \<open>sk_data\<close> holds the \<open>num\<close> pointers in use; the rest of the
  \<open>num_alloc\<close> that are allocated is never read. A comparison function is a value of type \<open>'c\<close>,
  called through \<open>call_cmp\<close>. A stack that is NULL is None.
\<close>

record ('a, 'c) OPENSSL_STACK =
  sk_data :: "'a option list"
  sk_sorted :: bool
  sk_num_alloc :: nat
  sk_comp :: "'c option"

type_synonym ('a, 'c) sk = "('a, 'c) OPENSSL_STACK option"

abbreviation kMinSize :: nat where "kMinSize \<equiv> 4"

abbreviation sizeof_STACK :: nat where "sizeof_STACK \<equiv> 40"

text \<open>\<open>alloc n\<close> says whether the allocator grants \<open>n\<close> bytes.\<close>

definition OPENSSL_sk_new :: "(nat \<Rightarrow> bool) \<Rightarrow> 'c option \<Rightarrow> ('a, 'c) sk" where
  "OPENSSL_sk_new alloc cmpf =
     (if \<not> alloc sizeof_STACK \<or> \<not> alloc (kMinSize * 8) then None
      else Some \<lparr>sk_data = [], sk_sorted = False, sk_num_alloc = kMinSize, sk_comp = cmpf\<rparr>)"

definition OPENSSL_sk_new_null :: "(nat \<Rightarrow> bool) \<Rightarrow> ('a, 'c) sk" where
  "OPENSSL_sk_new_null alloc = OPENSSL_sk_new alloc None"

definition OPENSSL_sk_num :: "('a, 'c) sk \<Rightarrow> nat" where
  "OPENSSL_sk_num sk = (case sk of None \<Rightarrow> 0 | Some s \<Rightarrow> length (sk_data s))"

definition OPENSSL_sk_zero :: "('a, 'c) sk \<Rightarrow> ('a, 'c) sk" where
  "OPENSSL_sk_zero sk =
     (case sk of None \<Rightarrow> None
      | Some s \<Rightarrow> if length (sk_data s) = 0 then sk else Some (s\<lparr>sk_data := [], sk_sorted := False\<rparr>))"

definition OPENSSL_sk_value :: "('a, 'c) sk \<Rightarrow> nat \<Rightarrow> 'a option" where
  "OPENSSL_sk_value sk i =
     (case sk of None \<Rightarrow> None | Some s \<Rightarrow> if i \<ge> length (sk_data s) then None else sk_data s ! i)"

definition OPENSSL_sk_set :: "('a, 'c) sk \<Rightarrow> nat \<Rightarrow> 'a option \<Rightarrow> 'a option \<times> ('a, 'c) sk" where
  "OPENSSL_sk_set sk i val =
     (case sk of None \<Rightarrow> (None, None)
      | Some s \<Rightarrow> if i \<ge> length (sk_data s) then (None, sk)
                 else (val, Some (s\<lparr>sk_data := (sk_data s)[i := val]\<rparr>)))"

text \<open>The pointers that are passed to \<open>free_func\<close>, in order.\<close>

definition OPENSSL_sk_pop_free_ex :: "('a, 'c) sk \<Rightarrow> 'a list" where
  "OPENSSL_sk_pop_free_ex sk =
     (case sk of None \<Rightarrow> [] | Some s \<Rightarrow> map the (filter (\<lambda>p. p \<noteq> None) (sk_data s)))"

definition OPENSSL_sk_insert ::
  "(nat \<Rightarrow> bool) \<Rightarrow> ('a, 'c) sk \<Rightarrow> 'a option \<Rightarrow> nat \<Rightarrow> nat \<times> ('a, 'c) sk" where
  "OPENSSL_sk_insert alloc sk p pos =
     (case sk of None \<Rightarrow> (0, None) | Some s \<Rightarrow>
      if length (sk_data s) \<ge> 0x7fffffff then (0, sk)
      else let grow = (sk_num_alloc s \<le> length (sk_data s) + 1);
               new_alloc = sk_num_alloc s * 2 mod 2 ^ 64;
               alloc_size = new_alloc * 8 mod 2 ^ 64;
               (new_alloc, alloc_size) =
                 (if new_alloc < sk_num_alloc s \<or> alloc_size div 8 \<noteq> new_alloc
                  then let new_alloc = (sk_num_alloc s + 1) mod 2 ^ 64 in (new_alloc, new_alloc * 8 mod 2 ^ 64)
                  else (new_alloc, alloc_size))
      in if grow \<and> (new_alloc < sk_num_alloc s \<or> alloc_size div 8 \<noteq> new_alloc \<or> \<not> alloc alloc_size) then (0, sk)
         else let s = (if grow then s\<lparr>sk_num_alloc := new_alloc\<rparr> else s);
                  data = (if pos \<ge> length (sk_data s) then sk_data s @ [p]
                          else take pos (sk_data s) @ p # drop pos (sk_data s))
              in (length data, Some (s\<lparr>sk_data := data, sk_sorted := False\<rparr>)))"

definition OPENSSL_sk_delete :: "('a, 'c) sk \<Rightarrow> nat \<Rightarrow> 'a option \<times> ('a, 'c) sk" where
  "OPENSSL_sk_delete sk pos =
     (case sk of None \<Rightarrow> (None, None) | Some s \<Rightarrow>
      if pos \<ge> length (sk_data s) then (None, sk)
      else (sk_data s ! pos, Some (s\<lparr>sk_data := take pos (sk_data s) @ drop (pos + 1) (sk_data s)\<rparr>)))"

text \<open>The index of the first pointer with \<open>P\<close>, from the index \<open>i\<close> on.\<close>

fun first_index :: "('a option \<Rightarrow> bool) \<Rightarrow> nat \<Rightarrow> 'a option list \<Rightarrow> nat option" where
  "first_index P i [] = None"
| "first_index P i (x # xs) = (if P x then Some i else first_index P (i + 1) xs)"

definition OPENSSL_sk_delete_ptr :: "('a, 'c) sk \<Rightarrow> 'a option \<Rightarrow> 'a option \<times> ('a, 'c) sk" where
  "OPENSSL_sk_delete_ptr sk p =
     (case sk of None \<Rightarrow> (None, None) | Some s \<Rightarrow>
      (case first_index (\<lambda>x. x = p) 0 (sk_data s) of
         Some i \<Rightarrow> OPENSSL_sk_delete sk i
       | None \<Rightarrow> (None, sk)))"

text \<open>The loop that moves the pointers to keep to the front, at the index \<open>i\<close>.\<close>

function delete_if_loop :: "('a option \<Rightarrow> bool) \<Rightarrow> nat \<Rightarrow> nat \<Rightarrow> 'a option list \<Rightarrow> 'a option list" where
  "delete_if_loop f i new_num data =
     (if i < length data
      then if \<not> f (data ! i) then delete_if_loop f (i + 1) (new_num + 1) (data[new_num := data ! i])
           else delete_if_loop f (i + 1) new_num data
      else take new_num data)"
  by pat_completeness auto
termination by (relation "measure (\<lambda>(f, i, n, data). length data - i)") auto

declare delete_if_loop.simps [simp del]

definition OPENSSL_sk_delete_if :: "('a option \<Rightarrow> bool) \<Rightarrow> ('a, 'c) sk \<Rightarrow> ('a, 'c) sk" where
  "OPENSSL_sk_delete_if f sk =
     (case sk of None \<Rightarrow> None | Some s \<Rightarrow> Some (s\<lparr>sk_data := delete_if_loop f 0 0 (sk_data s)\<rparr>))"

definition OPENSSL_sk_is_sorted :: "('a, 'c) sk \<Rightarrow> bool" where
  "OPENSSL_sk_is_sorted sk =
     (case sk of None \<Rightarrow> True | Some s \<Rightarrow> sk_sorted s \<or> (sk_comp s \<noteq> None \<and> length (sk_data s) < 2))"

function find_loop :: "('a option \<Rightarrow> 'a option \<Rightarrow> int) \<Rightarrow> 'a option \<Rightarrow> 'a option list \<Rightarrow> nat \<Rightarrow> nat \<Rightarrow> nat option" where
  "find_loop cmp p data lo hi =
     (if lo < hi
      then let mid = lo + (hi - lo - 1) div 2; r = cmp p (data ! mid)
           in if r > 0 then find_loop cmp p data (mid + 1) hi
              else if r < 0 then find_loop cmp p data lo mid
              else if hi - lo = 1 then Some mid
              else find_loop cmp p data lo (mid + 1)
      else None)"
  by pat_completeness auto
termination by (relation "measure (\<lambda>(cmp, p, data, lo, hi). hi - lo)") auto

declare find_loop.simps [simp del]

text \<open>None when there is no match, otherwise the index stored in \<open>out_index\<close>.\<close>

definition OPENSSL_sk_find ::
  "('c \<Rightarrow> 'a option \<Rightarrow> 'a option \<Rightarrow> int) \<Rightarrow> ('a, 'c) sk \<Rightarrow> 'a option \<Rightarrow> nat option" where
  "OPENSSL_sk_find call_cmp sk p =
     (case sk of None \<Rightarrow> None | Some s \<Rightarrow>
      (case sk_comp s of
         None \<Rightarrow> first_index (\<lambda>x. x = p) 0 (sk_data s)
       | Some cmpf \<Rightarrow>
           if p = None then None
           else if \<not> OPENSSL_sk_is_sorted sk then first_index (\<lambda>x. call_cmp cmpf p x = 0) 0 (sk_data s)
           else find_loop (call_cmp cmpf) p (sk_data s) 0 (length (sk_data s))))"

definition OPENSSL_sk_shift :: "('a, 'c) sk \<Rightarrow> 'a option \<times> ('a, 'c) sk" where
  "OPENSSL_sk_shift sk = (if OPENSSL_sk_num sk = 0 then (None, sk) else OPENSSL_sk_delete sk 0)"

definition OPENSSL_sk_push :: "(nat \<Rightarrow> bool) \<Rightarrow> ('a, 'c) sk \<Rightarrow> 'a option \<Rightarrow> nat \<times> ('a, 'c) sk" where
  "OPENSSL_sk_push alloc sk p = OPENSSL_sk_insert alloc sk p (OPENSSL_sk_num sk)"

definition OPENSSL_sk_pop :: "('a, 'c) sk \<Rightarrow> 'a option \<times> ('a, 'c) sk" where
  "OPENSSL_sk_pop sk =
     (if OPENSSL_sk_num sk = 0 then (None, sk) else OPENSSL_sk_delete sk (OPENSSL_sk_num sk - 1))"

definition OPENSSL_sk_dup :: "(nat \<Rightarrow> bool) \<Rightarrow> ('a, 'c) sk \<Rightarrow> ('a, 'c) sk" where
  "OPENSSL_sk_dup alloc sk =
     (case sk of None \<Rightarrow> None | Some s \<Rightarrow> if \<not> alloc sizeof_STACK \<or> \<not> alloc (8 * sk_num_alloc s) then None else Some s)"

definition OPENSSL_sk_set_cmp_func :: "('a, 'c) OPENSSL_STACK \<Rightarrow> 'c option \<Rightarrow> 'c option \<times> ('a, 'c) OPENSSL_STACK" where
  "OPENSSL_sk_set_cmp_func s cmpf =
     (sk_comp s, (if sk_comp s \<noteq> cmpf then s\<lparr>sk_sorted := False\<rparr> else s)\<lparr>sk_comp := cmpf\<rparr>)"

text \<open>The copies made so far and the pointers still to copy.\<close>

fun deep_copy_loop :: "('a option \<Rightarrow> 'a option) \<Rightarrow> 'a option list \<Rightarrow> 'a option list \<Rightarrow> 'a option list + 'a list" where
  "deep_copy_loop copy copied [] = Inl copied"
| "deep_copy_loop copy copied (None # rest) = deep_copy_loop copy (copied @ [None]) rest"
| "deep_copy_loop copy copied (Some x # rest) =
     (case copy (Some x) of
        None \<Rightarrow> Inr (map the (filter (\<lambda>p. p \<noteq> None) copied))
      | Some y \<Rightarrow> deep_copy_loop copy (copied @ [Some y]) rest)"

text \<open>The copy, or NULL, and the pointers that were freed because a copy failed.\<close>

definition OPENSSL_sk_deep_copy ::
  "(nat \<Rightarrow> bool) \<Rightarrow> ('a option \<Rightarrow> 'a option) \<Rightarrow> ('a, 'c) sk \<Rightarrow> ('a, 'c) sk \<times> 'a list" where
  "OPENSSL_sk_deep_copy alloc copy sk =
     (case OPENSSL_sk_dup alloc sk of
        None \<Rightarrow> (None, [])
      | Some ret \<Rightarrow>
          (case deep_copy_loop copy [] (sk_data ret) of
             Inl data \<Rightarrow> (Some (ret\<lparr>sk_data := data\<rparr>), [])
           | Inr freed \<Rightarrow> (None, freed)))"

section \<open>The heap sort\<close>

definition parent_idx :: "nat \<Rightarrow> nat" where
  "parent_idx idx = (idx - 1) div 2"

definition left_idx :: "nat \<Rightarrow> nat" where
  "left_idx idx = 2 * idx + 1"

text \<open>The code's \<open>tmp = data[i]; data[i] = data[j]; data[j] = tmp\<close>.\<close>

definition swap_at :: "nat \<Rightarrow> nat \<Rightarrow> 'a list \<Rightarrow> 'a list" where
  "swap_at i j data = (data[i := data ! j])[j := data ! i]"

text \<open>The largest of a node and its children, where the code compares it.\<close>

definition heap_next :: "('a \<Rightarrow> 'a \<Rightarrow> int) \<Rightarrow> nat \<Rightarrow> nat \<Rightarrow> 'a list \<Rightarrow> nat" where
  "heap_next cmp i num data =
     (let left = left_idx i; nxt = (if cmp (data ! i) (data ! left) < 0 then left else i); right = left + 1
      in if right < num \<and> cmp (data ! nxt) (data ! right) < 0 then right else nxt)"

function down_heap :: "('a \<Rightarrow> 'a \<Rightarrow> int) \<Rightarrow> nat \<Rightarrow> nat \<Rightarrow> 'a list \<Rightarrow> 'a list" where
  "down_heap cmp i num data =
     (if left_idx i \<ge> num then data
      else let nxt = heap_next cmp i num data
           in if i = nxt then data else down_heap cmp nxt num (swap_at i nxt data))"
  by pat_completeness auto
termination
  by (relation "measure (\<lambda>(cmp, i, num, data). num - i)")
    (auto simp: heap_next_def left_idx_def Let_def split: if_splits)

declare down_heap.simps [simp del]

text \<open>The loops from the last parent down to 0, and from the last index down to 1.\<close>

fun build_heap :: "('a \<Rightarrow> 'a \<Rightarrow> int) \<Rightarrow> nat \<Rightarrow> 'a list \<Rightarrow> 'a list" where
  "build_heap cmp 0 data = down_heap cmp 0 (length data) data"
| "build_heap cmp (Suc i) data = build_heap cmp i (down_heap cmp (Suc i) (length data) data)"

fun extract_heap :: "('a \<Rightarrow> 'a \<Rightarrow> int) \<Rightarrow> nat \<Rightarrow> 'a list \<Rightarrow> 'a list" where
  "extract_heap cmp 0 data = data"
| "extract_heap cmp (Suc i) data = extract_heap cmp i (down_heap cmp 0 (Suc i) (swap_at 0 (Suc i) data))"

definition OPENSSL_sk_sort :: "('c \<Rightarrow> 'a option \<Rightarrow> 'a option \<Rightarrow> int) \<Rightarrow> ('a, 'c) sk \<Rightarrow> ('a, 'c) sk" where
  "OPENSSL_sk_sort call_cmp sk =
     (case sk of None \<Rightarrow> None | Some s \<Rightarrow>
      (case sk_comp s of None \<Rightarrow> sk | Some cmpf \<Rightarrow>
       if sk_sorted s then sk
       else let data = sk_data s; num = length data;
                data = (if num \<ge> 2
                        then extract_heap (call_cmp cmpf) (num - 1) (build_heap (call_cmp cmpf) (parent_idx (num - 1)) data)
                        else data)
            in Some (s\<lparr>sk_data := data, sk_sorted := True\<rparr>)))"

section \<open>The sort\<close>

text \<open>
  A three-way comparison: the interface of \<open>qsort\<close> with results whose signs agree for both orders
  of the arguments.
\<close>

locale three_way = comparison cmp for cmp :: "'a \<Rightarrow> 'a \<Rightarrow> int" +
  assumes sign: "cmp a b < 0 \<longleftrightarrow> 0 < cmp b a"

text \<open>
  The heap property of the nodes from \<open>k\<close> on among the first \<open>n\<close>, and the same with an exception at
  the node \<open>i\<close> that the loop is fixing: there the children are below the parent of \<open>i\<close>.
\<close>

definition heap :: "('a \<Rightarrow> 'a \<Rightarrow> int) \<Rightarrow> nat \<Rightarrow> nat \<Rightarrow> 'a list \<Rightarrow> bool" where
  "heap cmp k n xs \<longleftrightarrow> (\<forall>j. 0 < j \<and> j < n \<and> k \<le> parent_idx j \<longrightarrow> cmp (xs ! j) (xs ! parent_idx j) \<le> 0)"

definition holed :: "('a \<Rightarrow> 'a \<Rightarrow> int) \<Rightarrow> nat \<Rightarrow> nat \<Rightarrow> nat \<Rightarrow> 'a list \<Rightarrow> bool" where
  "holed cmp k i n xs \<longleftrightarrow>
     (\<forall>j. 0 < j \<and> j < n \<and> k \<le> parent_idx j \<and> parent_idx j \<noteq> i \<longrightarrow> cmp (xs ! j) (xs ! parent_idx j) \<le> 0) \<and>
     (\<forall>j. 0 < j \<and> j < n \<and> parent_idx j = i \<and> 0 < i \<and> k \<le> parent_idx i \<longrightarrow> cmp (xs ! j) (xs ! parent_idx i) \<le> 0)"

lemma parent_iff: "0 < j \<Longrightarrow> parent_idx j = i \<longleftrightarrow> j = left_idx i \<or> j = left_idx i + 1"
  unfolding parent_idx_def left_idx_def by presburger

lemma parent_less: "0 < j \<Longrightarrow> parent_idx j < j"
  unfolding parent_idx_def by presburger

lemma parent_left [simp]: "parent_idx (left_idx i) = i" "parent_idx (Suc (left_idx i)) = i"
  by (simp_all add: parent_idx_def left_idx_def)

lemma left_pos [simp]: "0 < left_idx i" "i < left_idx i"
  by (simp_all add: left_idx_def)

lemma length_swap_at [simp]: "length (swap_at i j xs) = length xs"
  by (simp add: swap_at_def)

lemma nth_swap_at:
  "i < length xs \<Longrightarrow> j < length xs \<Longrightarrow> l < length xs \<Longrightarrow>
   swap_at i j xs ! l = (if l = j then xs ! i else if l = i then xs ! j else xs ! l)"
  by (simp add: swap_at_def nth_list_update)

lemma mset_swap_at: "i < length xs \<Longrightarrow> j < length xs \<Longrightarrow> mset (swap_at i j xs) = mset xs"
  unfolding swap_at_def by (simp add: mset_swap)

lemma mset_take_eq:
  assumes "mset xs = mset ys" "drop n xs = drop n ys"
  shows "mset (take n xs) = mset (take n ys)"
proof -
  have "mset (take n xs) + mset (drop n xs) = mset (take n ys) + mset (drop n ys)"
    using assms(1) by (simp flip: mset_append)
  then show ?thesis by (simp add: assms(2))
qed

context three_way begin

lemma not_less: "\<not> cmp a b < 0 \<Longrightarrow> le b a"
  using sign [of a b] by linarith

lemma heap_next_cases:
  assumes "left_idx i < n"
  obtains (same) "heap_next cmp i n xs = i" "\<And>j. 0 < j \<Longrightarrow> j < n \<Longrightarrow> parent_idx j = i \<Longrightarrow> le (xs ! j) (xs ! i)"
    | (child) c where "heap_next cmp i n xs = c" "i < c" "c < n" "parent_idx c = i" "le (xs ! i) (xs ! c)"
        "\<And>j. 0 < j \<Longrightarrow> j < n \<Longrightarrow> parent_idx j = i \<Longrightarrow> le (xs ! j) (xs ! c)"
proof -
  define l where "l = left_idx i"
  have l: "i < l" "l < n" "parent_idx l = i" "parent_idx (Suc l) = i" using assms by (simp_all add: l_def)
  have kids: "j = l \<or> j = Suc l" if "0 < j" "parent_idx j = i" for j using that by (simp add: parent_iff l_def)
  define nxt where "nxt = (if cmp (xs ! i) (xs ! l) < 0 then l else i)"
  have n: "nxt = i \<or> nxt = l" "le (xs ! i) (xs ! nxt)" "le (xs ! l) (xs ! nxt)"
    using not_less total [of "xs ! i" "xs ! i"] total [of "xs ! l" "xs ! l"] by (auto simp: nxt_def)
  have h: "heap_next cmp i n xs = (if Suc l < n \<and> cmp (xs ! nxt) (xs ! Suc l) < 0 then Suc l else nxt)"
    by (simp add: heap_next_def Let_def l_def nxt_def)
  show ?thesis
  proof (cases "Suc l < n \<and> cmp (xs ! nxt) (xs ! Suc l) < 0")
    case True
    then have "le (xs ! i) (xs ! Suc l)" "le (xs ! l) (xs ! Suc l)" "le (xs ! Suc l) (xs ! Suc l)"
      using n(2,3) trans total [of "xs ! Suc l" "xs ! Suc l"] by (meson less_imp_le)+
    with True h l kids show ?thesis by (intro child [of "Suc l"]) auto
  next
    case False
    then have r: "le (xs ! Suc l) (xs ! nxt)" if "Suc l < n" using that not_less by blast
    have le: "le (xs ! j) (xs ! nxt)" if "0 < j" "j < n" "parent_idx j = i" for j
      using kids [OF that(1,3)] n(3) r that(2) by blast
    have "heap_next cmp i n xs = nxt" using h False by auto
    with n l le show ?thesis by (cases "nxt = i") (auto intro: same child)
  qed
qed

lemma down_heap_correct:
  assumes "i < n" "n \<le> length xs" "k \<le> i" "holed cmp k i n xs"
  shows "length (down_heap cmp i n xs) = length xs \<and> mset (down_heap cmp i n xs) = mset xs \<and>
    heap cmp k n (down_heap cmp i n xs) \<and> drop n (down_heap cmp i n xs) = drop n xs"
  using assms
proof (induction "n - i" arbitrary: i xs rule: less_induct)
  case less
  show ?case
  proof (cases "left_idx i \<ge> n")
    case True
    have "heap cmp k n xs"
      unfolding heap_def
    proof (intro allI impI)
      fix j assume j: "0 < j \<and> j < n \<and> k \<le> parent_idx j"
      then have "parent_idx j \<noteq> i" using True parent_iff [of j i] by auto
      with j less.prems(4) show "le (xs ! j) (xs ! parent_idx j)" unfolding holed_def by blast
    qed
    with True show ?thesis by (simp add: down_heap.simps [of _ i])
  next
    case left: False
    then have left: "left_idx i < n" by simp
    from left show ?thesis
    proof (cases rule: heap_next_cases [where xs = xs])
      case same
      have "heap cmp k n xs"
        unfolding heap_def using same(2) less.prems(4) unfolding holed_def by metis
      with left same(1) show ?thesis by (simp add: down_heap.simps [of _ i])
    next
      case (child c)
      define ys where "ys = swap_at i c xs"
      have len: "i < length xs" "c < length xs" using less.prems(1,2) child(3) by linarith+
      have ys: "ys ! l = (if l = c then xs ! i else if l = i then xs ! c else xs ! l)" if "l < n" for l
        using nth_swap_at [OF len, of l] that less.prems(2) by (simp add: ys_def)
      have e: "down_heap cmp i n xs = down_heap cmp c n ys"
        using left child(1,2) by (simp add: down_heap.simps [of _ i] ys_def)
      have "holed cmp k c n ys"
        unfolding holed_def
      proof (intro conjI allI impI)
        fix j assume j: "0 < j \<and> j < n \<and> k \<le> parent_idx j \<and> parent_idx j \<noteq> c"
        then have pj: "parent_idx j < n" using parent_less [of j] by linarith
        show "le (ys ! j) (ys ! parent_idx j)"
        proof (cases "parent_idx j = i")
          case True
          then have "j \<noteq> i" using parent_less [of j] j by auto
          with True child(2,5,6) j ys pj show ?thesis by auto
        next
          case False
          then have "j \<noteq> c" using child(4) by auto
          show ?thesis
          proof (cases "j = i")
            case True
            have "le (xs ! c) (xs ! parent_idx i)"
              using less.prems(4) j child(2-4) True unfolding holed_def by (metis gr_implies_not_zero neq0_conv)
            with True False j ys pj \<open>j \<noteq> c\<close> show ?thesis by auto
          next
            case False
            have "le (xs ! j) (xs ! parent_idx j)"
              using less.prems(4) j \<open>parent_idx j \<noteq> i\<close> unfolding holed_def by blast
            with False \<open>parent_idx j \<noteq> i\<close> j ys pj \<open>j \<noteq> c\<close> show ?thesis by auto
          qed
        qed
      next
        fix j assume j: "0 < j \<and> j < n \<and> parent_idx j = c \<and> 0 < c \<and> k \<le> parent_idx c"
        have "c < j" using j parent_less [of j] by auto
        moreover have "le (xs ! j) (xs ! c)"
          using less.prems(3,4) j child(2) unfolding holed_def by (metis le_trans nat_less_le less_imp_le)
        ultimately show "le (ys ! j) (ys ! parent_idx c)"
          using j child(2,4) ys less.prems(1) by simp
      qed
      moreover have "c < n" "n \<le> length ys" "k \<le> c" "n - c < n - i"
        using child(2,3) less.prems by (simp_all add: ys_def)
      ultimately have r: "length (down_heap cmp c n ys) = length ys \<and> mset (down_heap cmp c n ys) = mset ys \<and>
          heap cmp k n (down_heap cmp c n ys) \<and> drop n (down_heap cmp c n ys) = drop n ys"
        using less.hyps by blast
      have "drop n ys = drop n xs"
        using child(3) less.prems(1) by (simp add: ys_def swap_at_def)
      with r len show ?thesis unfolding e by (simp add: ys_def mset_swap_at)
    qed
  qed
qed

lemma build_heap_correct:
  assumes "heap cmp (Suc i) (length xs) xs" "i < length xs"
  shows "length (build_heap cmp i xs) = length xs \<and> mset (build_heap cmp i xs) = mset xs \<and>
    heap cmp 0 (length xs) (build_heap cmp i xs)"
  using assms
proof (induction i arbitrary: xs)
  case 0
  then have "holed cmp 0 0 (length xs) xs" by (auto simp: heap_def holed_def)
  from down_heap_correct [OF 0(2) order_refl _ this] show ?case by simp
next
  case (Suc i)
  let ?ys = "down_heap cmp (Suc i) (length xs) xs"
  have "holed cmp (Suc i) (Suc i) (length xs) xs"
    using Suc.prems(1) parent_less [of "Suc i"] by (auto simp: heap_def holed_def)
  from down_heap_correct [OF Suc.prems(2) order_refl order_refl this]
  have y: "length ?ys = length xs" "mset ?ys = mset xs" "heap cmp (Suc i) (length ?ys) ?ys" by simp_all
  from Suc.IH [OF y(3)] y(1,2) Suc.prems(2) show ?case by simp
qed

lemma heap_root:
  assumes "heap cmp 0 n xs" "j < n"
  shows "le (xs ! j) (xs ! 0)"
  using assms(2)
proof (induction j rule: less_induct)
  case (less j)
  show ?case
  proof (cases "j = 0")
    case True
    then show ?thesis using total [of "xs ! 0" "xs ! 0"] by simp
  next
    case False
    then have "le (xs ! j) (xs ! parent_idx j)" "parent_idx j < j"
      using assms(1) less.prems parent_less [of j] by (simp_all add: heap_def)
    with less.IH [of "parent_idx j"] less.prems show ?thesis by (auto intro: trans)
  qed
qed

lemma extract_heap_correct:
  assumes "i < length xs" "heap cmp 0 (Suc i) xs" "sorted_wrt le (drop (Suc i) xs)"
    and "\<And>a b. a \<in> set (take (Suc i) xs) \<Longrightarrow> b \<in> set (drop (Suc i) xs) \<Longrightarrow> le a b"
  shows "sorted_wrt le (extract_heap cmp i xs) \<and> mset (extract_heap cmp i xs) = mset xs"
  using assms
proof (induction i arbitrary: xs)
  case 0
  then obtain x rest where "xs = x # rest" by (cases xs) auto
  with 0 show ?case by simp
next
  case (Suc i)
  define ys where "ys = swap_at 0 (Suc i) xs"
  define zs where "zs = down_heap cmp 0 (Suc i) ys"
  have len: "0 < length xs" "Suc i < length xs" "length ys = length xs" using Suc.prems(1) by (auto simp: ys_def)
  have ys: "ys ! l = (if l = Suc i then xs ! 0 else if l = 0 then xs ! Suc i else xs ! l)" if "l < length xs" for l
    using nth_swap_at [OF len(1,2), of l] that by (simp add: ys_def)
  have "holed cmp 0 0 (Suc i) ys"
    unfolding holed_def
  proof (intro conjI allI impI)
    fix j assume j: "0 < j \<and> j < Suc i \<and> 0 \<le> parent_idx j \<and> parent_idx j \<noteq> 0"
    then have "parent_idx j < Suc i" using parent_less [of j] by linarith
    with j Suc.prems(2) len show "le (ys ! j) (ys ! parent_idx j)"
      by (simp add: ys heap_def)
  qed simp
  from down_heap_correct [OF _ _ le0 this] len
  have zs: "length zs = length xs" "mset zs = mset ys" "heap cmp 0 (Suc i) zs" "drop (Suc i) zs = drop (Suc i) ys"
    by (simp_all add: zs_def)
  have my: "mset ys = mset xs" using len by (simp add: ys_def mset_swap_at)
  have "drop (Suc (Suc i)) ys = drop (Suc (Suc i)) xs" by (simp add: ys_def swap_at_def)
  then have dy: "drop (Suc i) ys = xs ! 0 # drop (Suc (Suc i)) xs"
    using len ys [of "Suc i"] by (simp add: Cons_nth_drop_Suc [symmetric])
  have ty: "set (take (Suc i) zs) = set (take (Suc i) ys)"
    using mset_take_eq [OF zs(2,4)] by (metis set_mset_mset)
  have sub: "a \<in> set (take (Suc (Suc i)) xs)" if "a \<in> set (take (Suc i) zs)" for a
  proof -
    obtain l where "l < Suc i" "a = ys ! l" using \<open>a \<in> _\<close> len unfolding ty by (auto simp: in_set_conv_nth)
    then show ?thesis using ys [of l] len by (auto simp: in_set_conv_nth intro: exI [of _ "Suc i"] exI [of _ l])
  qed
  have root: "le a (xs ! 0)" if "a \<in> set (take (Suc (Suc i)) xs)" for a
    using that heap_root [OF Suc.prems(2)] by (auto simp: in_set_conv_nth)
  have x0: "xs ! 0 \<in> set (take (Suc (Suc i)) xs)" using len by (auto simp: in_set_conv_nth intro: exI [of _ 0])
  have "sorted_wrt le (drop (Suc i) zs)"
    unfolding zs(4) dy using Suc.prems(3,4) x0 by simp
  moreover have "le a b" if "a \<in> set (take (Suc i) zs)" "b \<in> set (drop (Suc i) zs)" for a b
    using that(2) Suc.prems(4) [OF sub [OF that(1)]] root [OF sub [OF that(1)]] unfolding zs(4) dy by auto
  ultimately have "sorted_wrt le (extract_heap cmp i zs) \<and> mset (extract_heap cmp i zs) = mset zs"
    using Suc.IH [of zs] zs(1,3) len by simp
  then show ?case using zs(2) my by (simp add: zs_def ys_def)
qed

text \<open>The sort as a whole.\<close>

lemma heap_sort_correct:
  assumes "2 \<le> length xs"
  defines "ys \<equiv> extract_heap cmp (length xs - 1) (build_heap cmp (parent_idx (length xs - 1)) xs)"
  shows "sorted_wrt le ys \<and> mset ys = mset xs"
proof -
  let ?b = "build_heap cmp (parent_idx (length xs - 1)) xs"
  have "heap cmp (Suc (parent_idx (length xs - 1))) (length xs) xs"
    unfolding heap_def parent_idx_def by (auto dest: div_le_mono)
  moreover have "parent_idx (length xs - 1) < length xs"
    using assms(1) parent_less [of "length xs - 1"] by simp
  ultimately have b: "length ?b = length xs" "mset ?b = mset xs" "heap cmp 0 (length xs) ?b"
    using build_heap_correct by blast+
  have "Suc (length xs - 1) = length xs" using assms(1) by simp
  then have "sorted_wrt le ys \<and> mset ys = mset ?b"
    unfolding ys_def by (intro extract_heap_correct) (use assms(1) b in simp_all)
  with b(2) show ?thesis by simp
qed

end

section \<open>The search\<close>

lemma first_index_Some:
  "first_index P i xs = Some m \<longleftrightarrow>
   (\<exists>k < length xs. m = i + k \<and> P (xs ! k) \<and> (\<forall>j < k. \<not> P (xs ! j)))"
proof (induction xs arbitrary: i)
  case (Cons x xs)
  show ?case
  proof (cases "P x")
    case True
    then have "k = 0" if "\<forall>j < k. \<not> P ((x # xs) ! j)" for k using that by (cases k) auto
    then have "(\<exists>k < length (x # xs). m = i + k \<and> P ((x # xs) ! k) \<and> (\<forall>j < k. \<not> P ((x # xs) ! j))) \<longleftrightarrow> m = i"
      using True by (metis add_cancel_left_right length_greater_0_conv less_nat_zero_code list.distinct(1) nth_Cons_0)
    with True show ?thesis by auto
  next
    case False
    have "(\<exists>k < length xs. m = i + 1 + k \<and> P (xs ! k) \<and> (\<forall>j < k. \<not> P (xs ! j))) \<longleftrightarrow>
      (\<exists>k < length (x # xs). m = i + k \<and> P ((x # xs) ! k) \<and> (\<forall>j < k. \<not> P ((x # xs) ! j)))" (is "?L \<longleftrightarrow> ?R")
    proof
      assume ?L
      then obtain k where "k < length xs" "m = i + 1 + k" "P (xs ! k)" "\<forall>j < k. \<not> P (xs ! j)" by blast
      with False show ?R by (intro exI [of _ "Suc k"]) (auto simp: less_Suc_eq_0_disj)
    next
      assume ?R
      then obtain k where k: "k < length (x # xs)" "m = i + k" "P ((x # xs) ! k)" "\<forall>j < k. \<not> P ((x # xs) ! j)" by blast
      with False obtain k' where "k = Suc k'" by (cases k) auto
      with k show ?L by (intro exI [of _ k']) auto
    qed
    with False Cons.IH [of "i + 1"] show ?thesis by simp
  qed
qed simp

lemma first_index_None: "first_index P i xs = None \<longleftrightarrow> (\<forall>x \<in> set xs. \<not> P x)"
  by (induction xs arbitrary: i) auto

lemma first_index_eqI:
  assumes "k < length xs" "P (xs ! k)" "\<And>j. j < k \<Longrightarrow> \<not> P (xs ! j)"
  shows "first_index P 0 xs = Some k"
  using assms by (auto simp: first_index_Some)

locale three_way_pointers = three_way cmp for cmp :: "'a option \<Rightarrow> 'a option \<Rightarrow> int"
begin

text \<open>
  What the loop knows of the interval: everything below \<open>lo\<close> is too low, and everything from \<open>hi\<close>
  on is too high unless there is a match just below \<open>hi\<close>.
\<close>

lemma find_loop_correct:
  assumes "sorted_wrt le data" "hi \<le> length data" "\<And>j. j < lo \<Longrightarrow> j < length data \<Longrightarrow> 0 < cmp p (data ! j)"
    and "(\<forall>j. hi \<le> j \<and> j < length data \<longrightarrow> cmp p (data ! j) < 0) \<or> (lo < hi \<and> cmp p (data ! (hi - 1)) = 0)"
  shows "find_loop cmp p data lo hi = first_index (\<lambda>x. cmp p x = 0) 0 data"
  using assms
proof (induction "hi - lo" arbitrary: lo hi rule: less_induct)
  case less
  have mono: "le (data ! i) (data ! j)" if "i \<le> j" "j < length data" for i j
    using that less.prems(1) total [of "data ! j" "data ! j"]
    by (cases "i = j") (auto simp: sorted_wrt_iff_nth_less)
  show ?case
  proof (cases "lo < hi")
    case False
    have "\<forall>j < length data. cmp p (data ! j) \<noteq> 0"
    proof (intro allI impI)
      fix j assume j: "j < length data"
      show "cmp p (data ! j) \<noteq> 0"
      proof (cases "j < lo")
        case True
        with less.prems(3) [OF this j] show ?thesis by simp
      next
        case ge: False
        have "hi \<le> j" using False ge by linarith
        then show ?thesis using False less.prems(4) j by (metis less_irrefl)
      qed
    qed
    then have "first_index (\<lambda>x. cmp p x = 0) 0 data = None" by (auto simp: first_index_None in_set_conv_nth)
    with False show ?thesis by (simp add: find_loop.simps [of _ _ _ lo])
  next
    case True
    define mid where "mid = lo + (hi - lo - 1) div 2"
    have mid: "lo \<le> mid" "mid < hi" "mid < length data" using True less.prems(2) by (auto simp: mid_def)
    have e: "find_loop cmp p data lo hi =
        (if cmp p (data ! mid) > 0 then find_loop cmp p data (mid + 1) hi
         else if cmp p (data ! mid) < 0 then find_loop cmp p data lo mid
         else if hi - lo = 1 then Some mid else find_loop cmp p data lo (mid + 1))"
      by (simp only: find_loop.simps [of cmp p data lo hi] if_P [OF True] Let_def mid_def)
    consider "cmp p (data ! mid) > 0" | "cmp p (data ! mid) < 0" | "cmp p (data ! mid) = 0" by linarith
    then show ?thesis
    proof cases
      case 1
      have low: "0 < cmp p (data ! j)" if "j < mid + 1" for j
      proof (rule ccontr)
        assume "\<not> 0 < cmp p (data ! j)"
        then have "le p (data ! j)" by simp
        moreover have "le (data ! j) (data ! mid)" using mono [of j mid] that mid(3) by simp
        ultimately have "le p (data ! mid)" using trans by blast
        with 1 show False by simp
      qed
      moreover have "(\<forall>j. hi \<le> j \<and> j < length data \<longrightarrow> cmp p (data ! j) < 0) \<or> (mid + 1 < hi \<and> cmp p (data ! (hi - 1)) = 0)"
      proof (cases "mid + 1 = hi")
        case True
        then show ?thesis using less.prems(4) 1 by auto
      qed (use less.prems(4) mid in auto)
      ultimately show ?thesis
        using 1 e mid less.hyps [of hi "mid + 1"] less.prems(1,2) by simp
    next
      case 2
      have "cmp p (data ! j) < 0" if "mid \<le> j" "j < length data" for j
      proof (rule ccontr)
        assume "\<not> cmp p (data ! j) < 0"
        then have "le (data ! j) p" by (rule not_less)
        then have "le (data ! mid) p" using mono [OF that] trans by blast
        with 2 show False using sign [of p "data ! mid"] by simp
      qed
      then have "find_loop cmp p data lo mid = first_index (\<lambda>x. cmp p x = 0) 0 data"
        using mid less.hyps [of mid lo] less.prems(1,3) by simp
      moreover have "find_loop cmp p data lo hi = find_loop cmp p data lo mid" using e 2 by auto
      ultimately show ?thesis by simp
    next
      case 3
      show ?thesis
      proof (cases "hi - lo = 1")
        case True
        then have "mid = lo" by (simp add: mid_def)
        have "first_index (\<lambda>x. cmp p x = 0) 0 data = Some mid"
          by (rule first_index_eqI) (use mid 3 less.prems(3) \<open>mid = lo\<close> in force)+
        with 3 e True show ?thesis by simp
      next
        case False
        have "mid + 1 < hi" using False \<open>lo < hi\<close> unfolding mid_def by linarith
        then have "find_loop cmp p data lo (mid + 1) = first_index (\<lambda>x. cmp p x = 0) 0 data"
          using 3 mid less.hyps [of "mid + 1" lo] less.prems(1,3) by simp
        with 3 e False show ?thesis by simp
      qed
    qed
  qed
qed

lemma find_sorted:
  "sorted_wrt le data \<Longrightarrow>
   find_loop cmp p data 0 (length data) = first_index (\<lambda>x. cmp p x = 0) 0 data"
  by (rule find_loop_correct) auto

end

section \<open>The invariant\<close>

text \<open>
  The array has room for one more pointer, and a stack that is marked as sorted is sorted by its
  comparison function.
\<close>

definition sk_wf :: "('c \<Rightarrow> 'a option \<Rightarrow> 'a option \<Rightarrow> int) \<Rightarrow> ('a, 'c) OPENSSL_STACK \<Rightarrow> bool" where
  "sk_wf call_cmp s \<longleftrightarrow> length (sk_data s) < sk_num_alloc s \<and> length (sk_data s) \<le> 0x7fffffff \<and>
     sk_num_alloc s < 2 ^ 33 \<and>
     (sk_sorted s \<longrightarrow> (\<exists>c. sk_comp s = Some c \<and> sorted_wrt (\<lambda>a b. call_cmp c a b \<le> 0) (sk_data s)))"

text \<open>A pointer of a deep copy, and the copy functions that keep pointers in order.\<close>

definition copy_of :: "('a option \<Rightarrow> 'a option) \<Rightarrow> 'a option \<Rightarrow> 'a option" where
  "copy_of copy p = (case p of None \<Rightarrow> None | Some x \<Rightarrow> copy (Some x))"

definition keeps_order ::
  "('c \<Rightarrow> 'a option \<Rightarrow> 'a option \<Rightarrow> int) \<Rightarrow> ('a option \<Rightarrow> 'a option) \<Rightarrow> ('a, 'c) OPENSSL_STACK \<Rightarrow> bool" where
  "keeps_order call_cmp copy s \<longleftrightarrow>
     (\<forall>c. sk_sorted s \<and> sk_comp s = Some c \<longrightarrow> (\<forall>x \<in> set (sk_data s). \<forall>y \<in> set (sk_data s).
        call_cmp c x y \<le> 0 \<longrightarrow> call_cmp c (copy_of copy x) (copy_of copy y) \<le> 0))"

text \<open>
  The operations that change or make a stack, but for \<open>OPENSSL_sk_set\<close> and for deep copies of a sorted
  stack that put the pointers in another order. \<open>OPENSSL_sk_push\<close> is an insertion; \<open>OPENSSL_sk_pop\<close>,
  \<open>OPENSSL_sk_shift\<close> and \<open>OPENSSL_sk_delete_ptr\<close> are deletions.
\<close>

inductive sk_step :: "('c \<Rightarrow> 'a option \<Rightarrow> 'a option \<Rightarrow> int) \<Rightarrow> ('a, 'c) OPENSSL_STACK \<Rightarrow> ('a, 'c) OPENSSL_STACK \<Rightarrow> bool"
  for call_cmp where
  sk_step_insert: "OPENSSL_sk_insert alloc (Some s) p pos = (n, Some s') \<Longrightarrow> sk_step call_cmp s s'"
| sk_step_delete: "OPENSSL_sk_delete (Some s) pos = (p, Some s') \<Longrightarrow> sk_step call_cmp s s'"
| sk_step_delete_if: "OPENSSL_sk_delete_if f (Some s) = Some s' \<Longrightarrow> sk_step call_cmp s s'"
| sk_step_zero: "OPENSSL_sk_zero (Some s) = Some s' \<Longrightarrow> sk_step call_cmp s s'"
| sk_step_sort: "OPENSSL_sk_sort call_cmp (Some s) = Some s' \<Longrightarrow> sk_step call_cmp s s'"
| sk_step_set_cmp: "OPENSSL_sk_set_cmp_func s cmpf = (old, s') \<Longrightarrow> sk_step call_cmp s s'"
| sk_step_dup: "OPENSSL_sk_dup alloc (Some s) = Some s' \<Longrightarrow> sk_step call_cmp s s'"
| sk_step_deep_copy: "OPENSSL_sk_deep_copy alloc copy (Some s) = (Some s', freed) \<Longrightarrow>
    keeps_order call_cmp copy s \<Longrightarrow> sk_step call_cmp s s'"

inductive sk_reachable :: "('c \<Rightarrow> 'a option \<Rightarrow> 'a option \<Rightarrow> int) \<Rightarrow> ('a, 'c) OPENSSL_STACK \<Rightarrow> bool"
  for call_cmp where
  sk_reachable_new: "OPENSSL_sk_new alloc cmpf = Some s \<Longrightarrow> sk_reachable call_cmp s"
| sk_reachable_step: "sk_reachable call_cmp s \<Longrightarrow> sk_step call_cmp s s' \<Longrightarrow> sk_reachable call_cmp s'"

inductive_cases sk_stepE: "sk_step call_cmp s s'"
inductive_simps sk_reachable_iff: "sk_reachable call_cmp s"

lemma sorted_wrt_take_drop:
  "sorted_wrt P xs \<Longrightarrow> sorted_wrt P (take n xs @ drop (n + 1) xs)"
  by (auto simp: sorted_wrt_iff_nth_less nth_append min_def)

text \<open>The loop keeps the pointers that are not to be deleted, in order.\<close>

lemma delete_if_loop_correct:
  assumes "new_num \<le> i" "i \<le> length data" "take new_num data = filter (\<lambda>x. \<not> f x) (take i orig)"
    "drop i data = drop i orig" "length data = length orig"
  shows "delete_if_loop f i new_num data = filter (\<lambda>x. \<not> f x) orig"
  using assms
proof (induction "length data - i" arbitrary: i new_num data rule: less_induct)
  case less
  show ?case
  proof (cases "i < length data")
    case False
    with less.prems show ?thesis by (subst delete_if_loop.simps) simp
  next
    case True
    have at: "data ! i = orig ! i"
      using less.prems(4,5) True by (metis Cons_nth_drop_Suc list.inject)
    have rest: "drop (Suc i) data = drop (Suc i) orig"
      using less.prems(4,5) True by (metis Cons_nth_drop_Suc list.inject)
    have next_i: "take (Suc i) orig = take i orig @ [orig ! i]"
      using True less.prems(5) by (simp add: take_Suc_conv_app_nth)
    show ?thesis
    proof (cases "f (data ! i)")
      case f: True
      then have "delete_if_loop f i new_num data = delete_if_loop f (Suc i) new_num data"
        using True by (subst delete_if_loop.simps) simp
      moreover have "delete_if_loop f (Suc i) new_num data = filter (\<lambda>x. \<not> f x) orig"
        using less.prems True f at rest next_i by (intro less.hyps) simp_all
      ultimately show ?thesis by simp
    next
      case keep: False
      let ?data = "data[new_num := data ! i]"
      have "delete_if_loop f i new_num data = delete_if_loop f (Suc i) (Suc new_num) ?data"
        using True keep by (subst delete_if_loop.simps) simp
      moreover have "take (Suc new_num) ?data = filter (\<lambda>x. \<not> f x) (take (Suc i) orig)"
        using less.prems(1,3) True keep at next_i by (simp add: take_Suc_conv_app_nth)
      moreover have "drop (Suc i) ?data = drop (Suc i) orig"
        using rest less.prems(1) by simp
      ultimately show ?thesis
        using less.hyps [of ?data "Suc i" "Suc new_num"] less.prems True by simp
    qed
  qed
qed

lemma OPENSSL_sk_delete_if_filter:
  "OPENSSL_sk_delete_if f (Some s) = Some (s\<lparr>sk_data := filter (\<lambda>x. \<not> f x) (sk_data s)\<rparr>)"
  by (simp add: OPENSSL_sk_delete_if_def delete_if_loop_correct [of 0 0 "sk_data s" f "sk_data s"])

lemma OPENSSL_sk_insert_cases:
  assumes wf: "sk_wf call_cmp s"
  obtains (full) "OPENSSL_sk_insert alloc (Some s) p pos = (0, Some s)"
  | (inserted) num_alloc where "length (sk_data s) < 0x7fffffff"
      "length (sk_data s) + 1 < num_alloc" "num_alloc < 2 ^ 33"
      "OPENSSL_sk_insert alloc (Some s) p pos =
         (length (sk_data s) + 1,
          Some (s\<lparr>sk_num_alloc := num_alloc, sk_data := take pos (sk_data s) @ p # drop pos (sk_data s),
                  sk_sorted := False\<rparr>))"
proof (cases "length (sk_data s) \<ge> 0x7fffffff")
  case True
  then show ?thesis by (intro full) (simp add: OPENSSL_sk_insert_def)
next
  case room: False
  let ?n = "length (sk_data s)" and ?m = "sk_num_alloc s"
  have bounds: "?n < ?m" "?m < 2 ^ 33" using wf by (auto simp: sk_wf_def)
  show ?thesis
  proof (cases "?m \<le> ?n + 1")
    case False
    with room bounds show ?thesis
      by (intro inserted [of ?m]) (auto simp: OPENSSL_sk_insert_def Let_def)
  next
    case grow: True
    then have "?m < 2 ^ 32" using room by simp
    then have size: "?m * 2 mod 2 ^ 64 = ?m * 2" "?m * 2 * 8 mod 2 ^ 64 = ?m * 2 * 8" by simp_all
    show ?thesis
    proof (cases "alloc (?m * 2 * 8)")
      case False
      with room grow size show ?thesis
        by (intro full) (simp add: OPENSSL_sk_insert_def Let_def)
    next
      case True
      with room grow size bounds \<open>?m < 2 ^ 32\<close> show ?thesis
        by (intro inserted [of "?m * 2"]) (auto simp: OPENSSL_sk_insert_def Let_def)
    qed
  qed
qed

lemma OPENSSL_sk_delete_cases:
  "OPENSSL_sk_delete (Some s) pos =
     (if pos < length (sk_data s)
      then (sk_data s ! pos, Some (s\<lparr>sk_data := take pos (sk_data s) @ drop (pos + 1) (sk_data s)\<rparr>))
      else (None, Some s))"
  by (simp add: OPENSSL_sk_delete_def)

text \<open>A stack is sorted by a comparison function, or not known to be sorted.\<close>

lemma OPENSSL_sk_sort_correct:
  assumes "three_way (call_cmp cmpf)" "sk_comp s = Some cmpf" "\<not> sk_sorted s"
  shows "\<exists>data. OPENSSL_sk_sort call_cmp (Some s) = Some (s\<lparr>sk_data := data, sk_sorted := True\<rparr>) \<and>
    mset data = mset (sk_data s) \<and> sorted_wrt (\<lambda>a b. call_cmp cmpf a b \<le> 0) data"
proof (cases "length (sk_data s) \<ge> 2")
  case True
  then show ?thesis
    using three_way.heap_sort_correct [OF assms(1), of "sk_data s"] assms(2,3)
    by (auto simp: OPENSSL_sk_sort_def Let_def)
next
  case False
  then have "sorted_wrt P (sk_data s)" for P by (cases "sk_data s"; cases "tl (sk_data s)") auto
  with False assms(2,3) show ?thesis
    by (intro exI [of _ "sk_data s"]) (auto simp: OPENSSL_sk_sort_def Let_def)
qed

lemma OPENSSL_sk_sort_unchanged:
  "sk_comp s = None \<or> sk_sorted s \<Longrightarrow> OPENSSL_sk_sort call_cmp (Some s) = Some s"
  by (auto simp: OPENSSL_sk_sort_def split: option.splits)


lemma sk_wf_new: "OPENSSL_sk_new alloc cmpf = Some s \<Longrightarrow> sk_wf call_cmp s"
  by (auto simp: OPENSSL_sk_new_def sk_wf_def split: if_splits)

text \<open>A deep copy has the copies of the pointers, in their places, and everything else as it was.\<close>

lemma deep_copy_loop_copies:
  "deep_copy_loop copy copied rest = Inl data \<Longrightarrow> data = copied @ map (copy_of copy) rest"
  by (induction copy copied rest rule: deep_copy_loop.induct) (auto simp: copy_of_def split: option.splits)

lemma OPENSSL_sk_deep_copy_copies:
  "OPENSSL_sk_deep_copy alloc copy (Some s) = (Some s', freed) \<Longrightarrow>
   s' = s\<lparr>sk_data := map (copy_of copy) (sk_data s)\<rparr>"
  by (auto simp: OPENSSL_sk_deep_copy_def OPENSSL_sk_dup_def dest: deep_copy_loop_copies split: if_splits sum.splits)

lemma sk_wf_copies:
  assumes "sk_wf call_cmp s" "keeps_order call_cmp copy s"
  shows "sk_wf call_cmp (s\<lparr>sk_data := map (copy_of copy) (sk_data s)\<rparr>)"
  using assms unfolding sk_wf_def keeps_order_def
  by (auto simp: sorted_wrt_map sorted_wrt_iff_nth_less)

lemma sk_wf_step:
  assumes cmp: "\<And>c. three_way (call_cmp c)" and "sk_step call_cmp s s'" and wf: "sk_wf call_cmp s"
  shows "sk_wf call_cmp s'"
  using assms(2)
proof (cases rule: sk_stepE [consumes 1])
  case (1 alloc p pos n)
  from wf show ?thesis
    by (cases rule: OPENSSL_sk_insert_cases [where alloc = alloc and p = p and pos = pos])
      (use 1 wf in \<open>auto simp: sk_wf_def\<close>)
next
  case (2 pos p)
  with wf show ?thesis
    by (auto simp: OPENSSL_sk_delete_cases sk_wf_def sorted_wrt_take_drop [simplified] split: if_splits)
next
  case (3 f)
  have "length (filter P xs) \<le> length xs" for P and xs :: "'b option list" by (rule length_filter_le)
  with 3 wf show ?thesis
    unfolding OPENSSL_sk_delete_if_filter
    by (auto simp: sk_wf_def intro: sorted_wrt_filter le_less_trans [OF length_filter_le] order.trans [OF length_filter_le])
next
  case 4
  with wf show ?thesis by (auto simp: OPENSSL_sk_zero_def sk_wf_def split: if_splits)
next
  case 5
  show ?thesis
  proof (cases "sk_comp s = None \<or> sk_sorted s")
    case True
    with 5 wf show ?thesis by (simp add: OPENSSL_sk_sort_unchanged)
  next
    case False
    then obtain c where c: "sk_comp s = Some c" "\<not> sk_sorted s" by auto
    with OPENSSL_sk_sort_correct [where call_cmp = call_cmp, OF cmp this] 5 obtain data
      where "s' = s\<lparr>sk_data := data, sk_sorted := True\<rparr>" "mset data = mset (sk_data s)"
        "sorted_wrt (\<lambda>a b. call_cmp c a b \<le> 0) data" by auto
    with wf c show ?thesis by (auto simp: sk_wf_def dest: mset_eq_length)
  qed
next
  case (6 cmpf old)
  with wf show ?thesis by (auto simp: OPENSSL_sk_set_cmp_func_def sk_wf_def split: if_splits)
next
  case (7 alloc)
  with wf show ?thesis by (auto simp: OPENSSL_sk_dup_def split: if_splits)
next
  case (8 alloc copy freed)
  from sk_wf_copies [OF wf 8(2)] show ?thesis unfolding OPENSSL_sk_deep_copy_copies [OF 8(1)] .
qed

lemma sk_reachable_wf:
  assumes "\<And>c. three_way (call_cmp c)" "sk_reachable call_cmp s"
  shows "sk_wf call_cmp s"
  using assms(2)
proof induction
  case (sk_reachable_new alloc cmpf s)
  then show ?case by (rule sk_wf_new)
next
  case (sk_reachable_step s s')
  with assms(1) show ?case by (metis sk_wf_step)
qed

text \<open>On such a stack the search is the linear search for the first match, sorted or not.\<close>

lemma OPENSSL_sk_find_first:
  assumes "three_way_pointers (call_cmp c)" "sk_wf call_cmp s" "sk_comp s = Some c" "p \<noteq> None"
  shows "OPENSSL_sk_find call_cmp (Some s) p = first_index (\<lambda>x. call_cmp c p x = 0) 0 (sk_data s)"
proof (cases "OPENSSL_sk_is_sorted (Some s)")
  case False
  then show ?thesis using assms(3,4) by (auto simp: OPENSSL_sk_find_def)
next
  case True
  have "sorted_wrt (\<lambda>a b. call_cmp c a b \<le> 0) (sk_data s)"
  proof (cases "sk_sorted s")
    case True
    with assms(2,3) show ?thesis by (auto simp: sk_wf_def)
  next
    case False
    with True have "length (sk_data s) < 2" by (simp add: OPENSSL_sk_is_sorted_def)
    then show ?thesis by (cases "sk_data s"; cases "tl (sk_data s)") auto
  qed
  from three_way_pointers.find_sorted [OF assms(1) this] True assms(3,4) show ?thesis
    by (auto simp: OPENSSL_sk_find_def)
qed

section \<open>Copies\<close>

definition copied :: "('a option \<Rightarrow> 'a option) \<Rightarrow> 'a option \<Rightarrow> 'a option" where
  "copied copy p = (if p = None then None else copy p)"

definition copy_fails :: "('a option \<Rightarrow> 'a option) \<Rightarrow> 'a option \<Rightarrow> bool" where
  "copy_fails copy p \<longleftrightarrow> p \<noteq> None \<and> copy p = None"

lemma deep_copy_loop_correct:
  "deep_copy_loop copy made rest =
     (if \<exists>p \<in> set rest. copy_fails copy p
      then Inr (map the (filter (\<lambda>p. p \<noteq> None) (made @ map (copied copy) (takeWhile (\<lambda>p. \<not> copy_fails copy p) rest))))
      else Inl (made @ map (copied copy) rest))"
  by (induction copy made rest rule: deep_copy_loop.induct)
    (auto simp: copied_def [abs_def] copy_fails_def split: option.splits)

section \<open>A comparison of the library\<close>

text \<open>The order of SET OF elements is such a comparison.\<close>

lemma compare_set_of_element_sign:
  "compare_set_of_element a b < 0 \<longleftrightarrow> 0 < compare_set_of_element b a"
proof (induction a b rule: bytes_le.induct)
  case (3 x xs y ys)
  then show ?case by (auto simp: compare_set_of_element_Cons)
qed (auto simp: compare_set_of_element_def Let_def)

interpretation set_of_order: three_way compare_set_of_element
  by unfold_locales (rule compare_set_of_element_sign)

text \<open>The same on pointers to elements, of which a stack never compares a NULL one.\<close>

definition compare_pointers :: "CBS option \<Rightarrow> CBS option \<Rightarrow> int" where
  "compare_pointers a b = compare_set_of_element (the a) (the b)"

interpretation set_of_pointers: three_way_pointers compare_pointers
proof
  fix a b c :: "CBS option"
  show "compare_pointers a b \<le> 0 \<or> compare_pointers b a \<le> 0"
    unfolding compare_pointers_def by (rule set_of.total)
  show "compare_pointers a b \<le> 0 \<Longrightarrow> compare_pointers b c \<le> 0 \<Longrightarrow> compare_pointers a c \<le> 0"
    unfolding compare_pointers_def by (rule set_of.trans)
  show "compare_pointers a b < 0 \<longleftrightarrow> 0 < compare_pointers b a"
    unfolding compare_pointers_def by (rule compare_set_of_element_sign)
qed

end
