(* ===== verification/Asn1_String.thy ===== *)
theory Asn1_String
  imports Asn1_Values
begin

text \<open>
  The ASN.1 string object of \<open>crypto/asn1/asn1_lib.c\<close> and the two types on it with a representation
  of their own: the sign-and-magnitude INTEGER of \<open>crypto/asn1/a_int.c\<close> and the BIT STRING of
  \<open>crypto/asn1/a_bitstr.c\<close>. The lemmas relate an INTEGER object to the number it stands for: its
  DER contents in both directions, its 64-bit accessors and its order.
\<close>

section \<open>Strings\<close>

text \<open>
  \<open>str_data\<close> is the whole block the pointer refers to, None for NULL; the first \<open>str_length\<close> bytes
  are the value. \<open>alloc\<close> says which requests the allocator grants, and \<open>junk\<close> what is in bytes of a
  new block that nothing has written.
\<close>

record ASN1_STRING =
  str_length :: nat
  str_type :: int
  str_data :: "byte list option"
  str_flags :: int

abbreviation ASN1_STRING_MAX :: nat where "ASN1_STRING_MAX \<equiv> 64 * 1024 * 1024"
abbreviation ASN1_STRING_FLAG_BITS_LEFT :: int where "ASN1_STRING_FLAG_BITS_LEFT \<equiv> 0x08"
abbreviation V_ASN1_INTEGER :: int where "V_ASN1_INTEGER \<equiv> 2"
abbreviation V_ASN1_BIT_STRING :: int where "V_ASN1_BIT_STRING \<equiv> 3"
abbreviation V_ASN1_OCTET_STRING :: int where "V_ASN1_OCTET_STRING \<equiv> 4"
abbreviation V_ASN1_ENUMERATED :: int where "V_ASN1_ENUMERATED \<equiv> 10"
abbreviation V_ASN1_NEG :: int where "V_ASN1_NEG \<equiv> 0x100"
abbreviation V_ASN1_NEG_INTEGER :: int where "V_ASN1_NEG_INTEGER \<equiv> 0x102"
abbreviation V_ASN1_NEG_ENUMERATED :: int where "V_ASN1_NEG_ENUMERATED \<equiv> 0x10a"
abbreviation INT_LIMIT :: int where "INT_LIMIT \<equiv> 0x7fffffff"

definition str_block :: "ASN1_STRING \<Rightarrow> byte list" where
  "str_block s = (case str_data s of None \<Rightarrow> [] | Some d \<Rightarrow> d)"

definition str_bytes :: "ASN1_STRING \<Rightarrow> byte list" where
  "str_bytes s = take (str_length s) (str_block s)"

definition ASN1_STRING_type_new :: "(nat \<Rightarrow> bool) \<Rightarrow> int \<Rightarrow> ASN1_STRING option" where
  "ASN1_STRING_type_new alloc type =
     (if \<not> alloc 24 then None else Some \<lparr>str_length = 0, str_type = type, str_data = None, str_flags = 0\<rparr>)"

definition ASN1_STRING_new :: "(nat \<Rightarrow> bool) \<Rightarrow> ASN1_STRING option" where
  "ASN1_STRING_new alloc = ASN1_STRING_type_new alloc V_ASN1_OCTET_STRING"

text \<open>A block of \<open>n\<close> bytes that keeps what fits of the old one.\<close>

definition realloc :: "(nat \<Rightarrow> byte) \<Rightarrow> byte list \<Rightarrow> nat \<Rightarrow> byte list" where
  "realloc junk old n = map (\<lambda>i. if i < length old then old ! i else junk i) [0..<n]"

text \<open>
  \<open>data\<close> is what can be read at the pointer: a C string with its terminator when \<open>len_s\<close> is
  negative, otherwise at least \<open>len_s\<close> bytes.
\<close>

definition ASN1_STRING_set ::
  "(nat \<Rightarrow> bool) \<Rightarrow> (nat \<Rightarrow> byte) \<Rightarrow> ASN1_STRING \<Rightarrow> byte list option \<Rightarrow> int \<Rightarrow> bool \<times> ASN1_STRING"
where
  "ASN1_STRING_set alloc junk str data len_s =
     (if len_s < 0 \<and> data = None then (False, str)
      else let len = (if len_s < 0 then length (takeWhile (\<lambda>b. b \<noteq> 0) (the data)) else nat len_s)
      in if len > ASN1_STRING_MAX then (False, str)
      else let grow = (str_length str \<le> len \<or> str_data str = None)
      in if grow \<and> \<not> alloc (len + 1) then (False, str)
      else let block = (if grow then realloc junk (str_block str) (len + 1) else str_block str);
               block = (case data of None \<Rightarrow> block | Some d \<Rightarrow> take len d @ 0 # drop (len + 1) block)
           in (True, str\<lparr>str_data := Some block, str_length := len\<rparr>))"

definition ASN1_STRING_set0 :: "ASN1_STRING \<Rightarrow> byte list option \<Rightarrow> nat \<Rightarrow> ASN1_STRING" where
  "ASN1_STRING_set0 str data len = str\<lparr>str_data := data, str_length := len\<rparr>"

definition ASN1_STRING_copy ::
  "(nat \<Rightarrow> bool) \<Rightarrow> (nat \<Rightarrow> byte) \<Rightarrow> ASN1_STRING \<Rightarrow> ASN1_STRING option \<Rightarrow> bool \<times> ASN1_STRING"
where
  "ASN1_STRING_copy alloc junk dst str =
     (case str of None \<Rightarrow> (False, dst) | Some s \<Rightarrow>
      (case ASN1_STRING_set alloc junk dst (str_data s) (int (str_length s)) of
         (False, dst) \<Rightarrow> (False, dst)
       | (True, dst) \<Rightarrow> (True, dst\<lparr>str_type := str_type s, str_flags := str_flags s\<rparr>)))"

definition ASN1_STRING_dup ::
  "(nat \<Rightarrow> bool) \<Rightarrow> (nat \<Rightarrow> byte) \<Rightarrow> ASN1_STRING option \<Rightarrow> ASN1_STRING option"
where
  "ASN1_STRING_dup alloc junk str =
     (case str of None \<Rightarrow> None | Some s \<Rightarrow>
      (case ASN1_STRING_new alloc of None \<Rightarrow> None | Some ret \<Rightarrow>
       (case ASN1_STRING_copy alloc junk ret (Some s) of
          (False, _) \<Rightarrow> None
        | (True, ret) \<Rightarrow> Some ret)))"

section \<open>Bit strings\<close>

fun strip_zeros :: "byte list \<Rightarrow> nat \<Rightarrow> nat" where
  "strip_zeros data 0 = 0"
| "strip_zeros data (Suc n) = (if data ! n = 0 then strip_zeros data n else Suc n)"

function padding_loop :: "byte \<Rightarrow> nat \<Rightarrow> nat" where
  "padding_loop b p =
     (if p < 7 then if b AND push_bit p 1 \<noteq> 0 then p else padding_loop b (p + 1) else p)"
  by pat_completeness auto
termination by (relation "measure (\<lambda>(_, p). 7 - p)") auto

declare padding_loop.simps [simp del]

text \<open>The length in bytes and the padding bits.\<close>

definition asn1_bit_string_length :: "ASN1_STRING \<Rightarrow> nat \<times> nat" where
  "asn1_bit_string_length str =
     (let len = str_length str
      in if str_flags str AND ASN1_STRING_FLAG_BITS_LEFT \<noteq> 0
         then (len, if len = 0 then 0 else nat (str_flags str AND 0x07))
         else let len = strip_zeros (str_block str) len
              in (len, if len > 0 then padding_loop (str_block str ! (len - 1)) 0 else 0))"

definition ASN1_BIT_STRING_num_bytes :: "ASN1_STRING \<Rightarrow> nat option" where
  "ASN1_BIT_STRING_num_bytes str =
     (let (len, padding_bits) = asn1_bit_string_length str in if padding_bits \<noteq> 0 then None else Some len)"

text \<open>
  The return value and the bytes that are stored at \<open>*pp\<close>, which moves behind them; none when \<open>pp\<close>
  is NULL.
\<close>

definition i2c_ASN1_BIT_STRING :: "ASN1_STRING option \<Rightarrow> bool \<Rightarrow> int \<times> byte list" where
  "i2c_ASN1_BIT_STRING a have_pp =
     (case a of None \<Rightarrow> (0, []) | Some a \<Rightarrow>
      let (len, bits) = asn1_bit_string_length a
      in if int len > INT_LIMIT - 1 then (0, [])
      else let ret = 1 + int len
      in if \<not> have_pp then (ret, [])
      else let p = take len (str_block a);
               p = (if len > 0 then p[len - 1 := (p ! (len - 1)) AND push_bit bits 0xff] else p)
           in (ret, of_nat bits # p))"

text \<open>
  \<open>bytes\<close> is what is at \<open>*pp\<close>, of which \<open>len\<close> belong to the value. The result is the returned
  object, the object that was passed in \<open>*a\<close> afterwards, and the bytes that are left.
\<close>

definition c2i_ASN1_BIT_STRING ::
  "(nat \<Rightarrow> bool) \<Rightarrow> ASN1_STRING option \<Rightarrow> byte list \<Rightarrow> int \<Rightarrow>
   ASN1_STRING option \<times> ASN1_STRING option \<times> byte list"
where
  "c2i_ASN1_BIT_STRING alloc a bytes len =
     (if len < 1 \<or> len > INT_LIMIT then (None, a, bytes)
      else (case (case a of None \<Rightarrow> ASN1_STRING_type_new alloc V_ASN1_BIT_STRING | Some _ \<Rightarrow> a) of
              None \<Rightarrow> (None, a, bytes)
            | Some ret \<Rightarrow>
        let padding = bytes ! 0; p = drop 1 bytes; n = nat len - 1
        in if padding > 7 then (None, a, bytes)
        else let padding_mask = push_bit (unat padding) 1 - 1
        in if padding \<noteq> 0 \<and> (n < 1 \<or> (p ! (n - 1)) AND padding_mask \<noteq> 0) then (None, a, bytes)
        else let ret = ret\<lparr>str_flags := (str_flags ret AND NOT (ASN1_STRING_FLAG_BITS_LEFT OR 0x07))
                             OR (ASN1_STRING_FLAG_BITS_LEFT OR uint padding)\<rparr>
        in if n > 0 \<and> \<not> alloc n then (None, if a = None then None else Some ret, bytes)
        else let ret = ret\<lparr>str_length := n, str_data := (if n > 0 then Some (take n p) else None),
                             str_type := V_ASN1_BIT_STRING\<rparr>
        in (Some ret, Some ret, drop n p)))"

text \<open>The bit number is not negative. The new bytes of a grown block are set to zero.\<close>

definition ASN1_BIT_STRING_set_bit ::
  "(nat \<Rightarrow> bool) \<Rightarrow> ASN1_STRING option \<Rightarrow> nat \<Rightarrow> bool \<Rightarrow> bool \<times> ASN1_STRING option"
where
  "ASN1_BIT_STRING_set_bit alloc a n value =
     (case a of None \<Rightarrow> (False, None) | Some a \<Rightarrow>
      let w = n div 8; v = push_bit (7 - n mod 8) (1 :: byte); iv = NOT v; v = (if value then v else 0);
          a = a\<lparr>str_flags := str_flags a AND NOT (ASN1_STRING_FLAG_BITS_LEFT OR 0x07)\<rparr>;
          grow = (str_length a < w + 1 \<or> str_data a = None)
      in if grow \<and> \<not> value then (True, Some a)
      else if grow \<and> \<not> alloc (w + 1) then (False, Some a)
      else let a = (if grow then a\<lparr>str_data := Some (take (str_length a) (str_block a) @ replicate (w + 1 - str_length a) 0),
                                   str_length := w + 1\<rparr>
                    else a);
               block = (str_block a)[w := (str_block a ! w) AND iv OR v]
           in (True, Some (a\<lparr>str_data := Some block, str_length := strip_zeros block (str_length a)\<rparr>)))"

definition ASN1_BIT_STRING_get_bit :: "ASN1_STRING option \<Rightarrow> nat \<Rightarrow> bool" where
  "ASN1_BIT_STRING_get_bit a n =
     (let w = n div 8; v = push_bit (7 - n mod 8) (1 :: byte)
      in (case a of None \<Rightarrow> False | Some a \<Rightarrow>
          if str_length a < w + 1 \<or> str_data a = None then False
          else (str_block a ! w) AND v \<noteq> 0))"

text \<open>The loop at the index \<open>i\<close>.\<close>

fun bit_check_loop :: "byte list \<Rightarrow> byte list \<Rightarrow> bool" where
  "bit_check_loop [] flags = True"
| "bit_check_loop (b # data) [] = (b AND 0xff = 0 \<and> bit_check_loop data [])"
| "bit_check_loop (b # data) (f # flags) = (b AND NOT f = 0 \<and> bit_check_loop data flags)"

definition ASN1_BIT_STRING_check :: "ASN1_STRING option \<Rightarrow> byte list \<Rightarrow> bool" where
  "ASN1_BIT_STRING_check a flags =
     (case a of None \<Rightarrow> True | Some a \<Rightarrow>
      (case str_data a of None \<Rightarrow> True | Some d \<Rightarrow> bit_check_loop (take (str_length a) d) flags))"

section \<open>Comparison\<close>

text \<open>
  The first \<open>n\<close> bytes of the block. A read behind its end, which no well-formed string leads to, gives
  zeros.
\<close>

definition str_read :: "ASN1_STRING \<Rightarrow> nat \<Rightarrow> byte list" where
  "str_read s n = take n (str_block s @ replicate n 0)"

definition ASN1_STRING_cmp :: "ASN1_STRING \<Rightarrow> ASN1_STRING \<Rightarrow> int" where
  "ASN1_STRING_cmp a b =
     (let (a_length, a_padding) = (if str_type a = V_ASN1_BIT_STRING then asn1_bit_string_length a else (str_length a, 0));
          (b_length, b_padding) = (if str_type b = V_ASN1_BIT_STRING then asn1_bit_string_length b else (str_length b, 0))
      in if a_length < b_length then -1
         else if a_length > b_length then 1
         else if a_padding > b_padding then -1
         else if a_padding < b_padding then 1
         else let ret = memcmp (str_read a a_length) (str_read b a_length)
         in if ret \<noteq> 0 then ret
         else if str_type a < str_type b then -1
         else if str_type a > str_type b then 1
         else 0)"

section \<open>Integers\<close>

definition ASN1_INTEGER_cmp :: "ASN1_STRING \<Rightarrow> ASN1_STRING \<Rightarrow> int" where
  "ASN1_INTEGER_cmp x y =
     (let neg = str_type x AND V_ASN1_NEG
      in if neg \<noteq> str_type y AND V_ASN1_NEG then if neg \<noteq> 0 then -1 else 1
         else let ret = ASN1_STRING_cmp x y
         in if neg \<noteq> 0 then if ret < 0 then 1 else if ret > 0 then -1 else 0
         else ret)"

text \<open>The loop from the last byte to the first, with the borrow it has at the front.\<close>

fun negate_loop :: "byte list \<Rightarrow> byte list \<times> byte" where
  "negate_loop [] = ([], 0)"
| "negate_loop (t # bs) =
     (let (rest, borrow) = negate_loop bs
      in ((0 - borrow - t) # rest, borrow OR (if t \<noteq> 0 then 1 else 0)))"

definition negate_twos_complement :: "byte list \<Rightarrow> byte list" where
  "negate_twos_complement bs = fst (negate_loop bs)"

fun is_all_zeros :: "byte list \<Rightarrow> bool" where
  "is_all_zeros [] = True"
| "is_all_zeros (b # bs) = (if b \<noteq> 0 then False else is_all_zeros bs)"

fun skip_leading_zeros :: "byte list \<Rightarrow> byte list" where
  "skip_leading_zeros [] = []"
| "skip_leading_zeros (b # bs) = (if b = 0 then skip_leading_zeros bs else b # bs)"

text \<open>Whether a byte of padding is needed, and whether the number is negative after all.\<close>

definition integer_pad :: "bool \<Rightarrow> byte list \<Rightarrow> bool \<times> nat" where
  "integer_pad is_negative cbs =
     (case CBS_get_u8 cbs of
        (None, _) \<Rightarrow> (False, 1)
      | (Some msb, copy) \<Rightarrow>
          (is_negative,
           if (if is_negative then msb > 0x80 \<or> msb = 0x80 \<and> \<not> is_all_zeros copy else msb AND 0x80 \<noteq> 0)
           then 1 else 0))"

definition i2c_ASN1_INTEGER :: "ASN1_STRING option \<Rightarrow> bool \<Rightarrow> int \<times> byte list" where
  "i2c_ASN1_INTEGER inp have_outp =
     (case inp of None \<Rightarrow> (0, []) | Some a \<Rightarrow>
      let cbs = skip_leading_zeros (str_bytes a);
          (is_negative, pad) = integer_pad (str_type a AND V_ASN1_NEG \<noteq> 0) cbs
      in if int (length cbs) > INT_LIMIT - int pad then (0, [])
      else let len = pad + length cbs
      in if \<not> have_outp then (int len, [])
      else let out = replicate pad 0 @ cbs
           in (int len, if is_negative then negate_twos_complement out else out))"

text \<open>As \<open>c2i_ASN1_BIT_STRING\<close>.\<close>

definition c2i_ASN1_INTEGER ::
  "(nat \<Rightarrow> bool) \<Rightarrow> (nat \<Rightarrow> byte) \<Rightarrow> ASN1_STRING option \<Rightarrow> byte list \<Rightarrow> int \<Rightarrow>
   ASN1_STRING option \<times> ASN1_STRING option \<times> byte list"
where
  "c2i_ASN1_INTEGER alloc junk out inp len =
     (if len < 0 \<or> len > INT_LIMIT div 2 then (None, out, inp)
      else let cbs = take (nat len) inp
      in (case CBS_is_valid_asn1_integer cbs of
            (True, Some is_negative) \<Rightarrow>
              (case (case out of None \<Rightarrow> ASN1_STRING_type_new alloc V_ASN1_INTEGER | Some _ \<Rightarrow> out) of
                 None \<Rightarrow> (None, out, inp)
               | Some ret \<Rightarrow>
                   let cbs = (if is_negative
                              then if length cbs > 0 \<and> cbs ! 0 = 0xff \<and> \<not> is_all_zeros (drop 1 cbs) then drop 1 cbs else cbs
                              else if length cbs > 0 \<and> cbs ! 0 = 0 then drop 1 cbs else cbs)
                   in (case ASN1_STRING_set alloc junk ret (Some cbs) (int (length cbs)) of
                         (False, _) \<Rightarrow> (None, out, inp)
                       | (True, ret) \<Rightarrow>
                           let ret = (if is_negative
                                 then ret\<lparr>str_type := V_ASN1_NEG_INTEGER,
                                   str_data := Some (negate_twos_complement (str_bytes ret) @ drop (str_length ret) (str_block ret))\<rparr>
                                 else ret\<lparr>str_type := V_ASN1_INTEGER\<rparr>)
                           in (Some ret, Some ret, drop (nat len) inp)))
          | _ \<Rightarrow> (None, out, inp)))"

definition asn1_string_set_uint64 ::
  "(nat \<Rightarrow> bool) \<Rightarrow> (nat \<Rightarrow> byte) \<Rightarrow> ASN1_STRING \<Rightarrow> u64 \<Rightarrow> int \<Rightarrow> bool \<times> ASN1_STRING"
where
  "asn1_string_set_uint64 alloc junk out v type =
     (let data = skip_leading_zeros (be_bytes 8 (unat v))
      in (case ASN1_STRING_set alloc junk out (Some data) (int (length data)) of
            (False, out) \<Rightarrow> (False, out)
          | (True, out) \<Rightarrow> (True, out\<lparr>str_type := type\<rparr>)))"

definition ASN1_INTEGER_set_uint64 ::
  "(nat \<Rightarrow> bool) \<Rightarrow> (nat \<Rightarrow> byte) \<Rightarrow> ASN1_STRING \<Rightarrow> u64 \<Rightarrow> bool \<times> ASN1_STRING"
where
  "ASN1_INTEGER_set_uint64 alloc junk out v = asn1_string_set_uint64 alloc junk out v V_ASN1_INTEGER"

definition ASN1_ENUMERATED_set_uint64 ::
  "(nat \<Rightarrow> bool) \<Rightarrow> (nat \<Rightarrow> byte) \<Rightarrow> ASN1_STRING \<Rightarrow> u64 \<Rightarrow> bool \<times> ASN1_STRING"
where
  "ASN1_ENUMERATED_set_uint64 alloc junk out v = asn1_string_set_uint64 alloc junk out v V_ASN1_ENUMERATED"

text \<open>An \<open>int64_t\<close> is its 64-bit word, read by \<open>sint\<close>; \<open>long\<close> has the same width.\<close>

definition ASN1_INTEGER_set_int64 ::
  "(nat \<Rightarrow> bool) \<Rightarrow> (nat \<Rightarrow> byte) \<Rightarrow> ASN1_STRING \<Rightarrow> u64 \<Rightarrow> bool \<times> ASN1_STRING"
where
  "ASN1_INTEGER_set_int64 alloc junk a v =
     (if sint v \<ge> 0 then ASN1_INTEGER_set_uint64 alloc junk a v
      else (case ASN1_INTEGER_set_uint64 alloc junk a (0 - v) of
              (False, a) \<Rightarrow> (False, a)
            | (True, a) \<Rightarrow> (True, a\<lparr>str_type := V_ASN1_NEG_INTEGER\<rparr>)))"

definition ASN1_ENUMERATED_set_int64 ::
  "(nat \<Rightarrow> bool) \<Rightarrow> (nat \<Rightarrow> byte) \<Rightarrow> ASN1_STRING \<Rightarrow> u64 \<Rightarrow> bool \<times> ASN1_STRING"
where
  "ASN1_ENUMERATED_set_int64 alloc junk a v =
     (if sint v \<ge> 0 then ASN1_ENUMERATED_set_uint64 alloc junk a v
      else (case ASN1_ENUMERATED_set_uint64 alloc junk a (0 - v) of
              (False, a) \<Rightarrow> (False, a)
            | (True, a) \<Rightarrow> (True, a\<lparr>str_type := V_ASN1_NEG_ENUMERATED\<rparr>)))"

definition asn1_string_get_abs_uint64 :: "ASN1_STRING \<Rightarrow> int \<Rightarrow> u64 option" where
  "asn1_string_get_abs_uint64 a type =
     (if str_type a AND NOT V_ASN1_NEG \<noteq> type then None
      else if str_length a > 8 then None
      else Some (load_be 0 (replicate (8 - str_length a) 0 @ str_bytes a)))"

definition asn1_string_get_uint64 :: "ASN1_STRING \<Rightarrow> int \<Rightarrow> u64 option" where
  "asn1_string_get_uint64 a type =
     (case asn1_string_get_abs_uint64 a type of None \<Rightarrow> None | Some out \<Rightarrow>
      if str_type a AND V_ASN1_NEG \<noteq> 0 then None else Some out)"

definition ASN1_INTEGER_get_uint64 :: "ASN1_STRING \<Rightarrow> u64 option" where
  "ASN1_INTEGER_get_uint64 a = asn1_string_get_uint64 a V_ASN1_INTEGER"

definition ASN1_ENUMERATED_get_uint64 :: "ASN1_STRING \<Rightarrow> u64 option" where
  "ASN1_ENUMERATED_get_uint64 a = asn1_string_get_uint64 a V_ASN1_ENUMERATED"

definition asn1_string_get_int64 :: "ASN1_STRING \<Rightarrow> int \<Rightarrow> u64 option" where
  "asn1_string_get_int64 a type =
     (case asn1_string_get_abs_uint64 a type of None \<Rightarrow> None | Some v \<Rightarrow>
      let (i64, fits_in_i64) =
        (if str_type a AND V_ASN1_NEG \<noteq> 0 \<and> v \<noteq> 0 then (0 - v, sint (0 - v) < 0) else (v, sint v \<ge> 0))
      in if \<not> fits_in_i64 then None else Some i64)"

definition ASN1_INTEGER_get_int64 :: "ASN1_STRING \<Rightarrow> u64 option" where
  "ASN1_INTEGER_get_int64 a = asn1_string_get_int64 a V_ASN1_INTEGER"

definition ASN1_ENUMERATED_get_int64 :: "ASN1_STRING \<Rightarrow> u64 option" where
  "ASN1_ENUMERATED_get_int64 a = asn1_string_get_int64 a V_ASN1_ENUMERATED"

definition asn1_string_get_long :: "ASN1_STRING option \<Rightarrow> int \<Rightarrow> int" where
  "asn1_string_get_long a type =
     (case a of None \<Rightarrow> 0 | Some a \<Rightarrow>
      (case asn1_string_get_int64 a type of None \<Rightarrow> -1 | Some v \<Rightarrow>
       if sint v < - (2 ^ 63) \<or> sint v > 2 ^ 63 - 1 then -1 else sint v))"

definition ASN1_INTEGER_get :: "ASN1_STRING option \<Rightarrow> int" where
  "ASN1_INTEGER_get a = asn1_string_get_long a V_ASN1_INTEGER"

definition ASN1_ENUMERATED_get :: "ASN1_STRING option \<Rightarrow> int" where
  "ASN1_ENUMERATED_get a = asn1_string_get_long a V_ASN1_ENUMERATED"

section \<open>The number an INTEGER stands for\<close>

definition int_value :: "ASN1_STRING \<Rightarrow> int" where
  "int_value s = (if str_type s AND V_ASN1_NEG \<noteq> 0 then - int (be_nat (str_bytes s)) else int (be_nat (str_bytes s)))"

text \<open>No leading zero: the bytes of a minimal magnitude.\<close>

fun minimal :: "byte list \<Rightarrow> bool" where
  "minimal [] = True"
| "minimal (b # bs) = (b \<noteq> 0)"

definition canonical_integer :: "ASN1_STRING \<Rightarrow> bool" where
  "canonical_integer s \<longleftrightarrow> minimal (str_bytes s) \<and> str_length s \<le> length (str_block s) \<and>
     (str_type s = V_ASN1_INTEGER \<or> str_type s = V_ASN1_NEG_INTEGER \<and> str_bytes s \<noteq> [])"

lemma length_str_bytes: "str_length s \<le> length (str_block s) \<Longrightarrow> length (str_bytes s) = str_length s"
  by (simp add: str_bytes_def)

lemma be_nat_eq_0: "be_nat bs = 0 \<longleftrightarrow> (\<forall>b \<in> set bs. b = 0)"
  by (induction bs) (auto simp: unat_eq_zero)

lemma is_all_zeros_iff: "is_all_zeros bs \<longleftrightarrow> be_nat bs = 0"
  by (induction bs) (auto simp: unat_eq_zero)

lemma skip_leading_zeros_correct:
  "minimal (skip_leading_zeros bs)" "be_nat (skip_leading_zeros bs) = be_nat bs"
  "length (skip_leading_zeros bs) \<le> length bs"
  by (induction bs) auto

lemma minimal_lower: "minimal (b # bs) \<Longrightarrow> 256 ^ length bs \<le> be_nat (b # bs)"
  using be_nat_Cons_bounds(1) [of b bs] by (cases "unat b") (auto simp: unat_eq_zero)

lemma minimal_iff: "minimal (b # bs) \<longleftrightarrow> 256 ^ length bs \<le> be_nat (b # bs)"
  using minimal_lower [of b bs] be_nat_less [of bs] by auto

lemma unat_of_nat_eq_byte: "n < 256 \<Longrightarrow> b = (of_nat n :: byte) \<Longrightarrow> unat b = n"
  by (simp add: unat_of_nat_byte)

lemma unat_minus_byte: "unat (0 - (1 :: byte) - t) = 255 - unat t"
proof (rule unat_of_nat_eq_byte)
  have "(of_nat (255 - unat t) :: byte) = of_nat 255 - of_nat (unat t)"
    by (rule of_nat_diff) (rule byte_le)
  then show "0 - 1 - t = (of_nat (255 - unat t) :: byte)" by simp
qed simp

lemma unat_neg_byte: "unat (0 - (t :: byte)) = (if t = 0 then 0 else 256 - unat t)"
proof (cases "t = 0")
  case False
  then have "0 < unat t" by (simp add: unat_gt_0)
  have "unat (0 - t) = 256 - unat t"
  proof (rule unat_of_nat_eq_byte)
    have "(of_nat (256 - unat t) :: byte) = of_nat 256 - of_nat (unat t)"
      by (rule of_nat_diff) (use byte_le [of t] in linarith)
    then show "0 - t = (of_nat (256 - unat t) :: byte)" by simp
  qed (use \<open>0 < unat t\<close> in simp)
  with False show ?thesis by simp
qed simp

lemma negate_loop_correct:
  "negate_loop bs = (r, borrow) \<Longrightarrow> length r = length bs \<and> borrow = (if be_nat bs = 0 then 0 else 1) \<and>
     be_nat r + be_nat bs = (if be_nat bs = 0 then 0 else 256 ^ length bs)"
proof (induction bs arbitrary: r borrow)
  case (Cons t bs)
  obtain r1 b1 where e: "negate_loop bs = (r1, b1)" by fastforce
  note ih = Cons.IH [OF e]
  have r: "r = (0 - b1 - t) # r1" and borrow: "borrow = b1 OR (if t \<noteq> 0 then 1 else 0)"
    using Cons.prems e by auto
  show ?case
  proof (cases "be_nat bs = 0")
    case True
    with ih have "b1 = 0" "be_nat r1 = 0" "length r1 = length bs" by auto
    moreover from this have "be_nat r + be_nat (t # bs) = (unat (0 - t) + unat t) * 256 ^ length bs"
      using True r by (simp add: distrib_right)
    moreover have "unat (0 - t) + unat t = (if t = 0 then 0 else 256)"
      using unat_neg_byte [of t] byte_le [of t] by (cases "t = 0") auto
    ultimately show ?thesis
      using True r borrow by (cases "t = 0") (simp_all add: unat_eq_zero)
  next
    case False
    with ih have b1: "b1 = 1" "be_nat r1 + be_nat bs = 256 ^ length bs" "length r1 = length bs" by auto
    have "unat (0 - b1 - t) = 255 - unat t" using unat_minus_byte [of t] by (simp only: b1)
    then have "be_nat r = (255 - unat t) * 256 ^ length bs + be_nat r1" using r b1(3) by simp
    moreover have "(255 - unat t) * 256 ^ length bs + unat t * 256 ^ length bs = 255 * 256 ^ length bs"
      using byte_le [of t] by (simp flip: distrib_right)
    ultimately have "be_nat r + be_nat (t # bs) = 256 ^ length (t # bs)" using b1(2) by simp
    moreover have "borrow = 1" using borrow b1(1) by simp
    ultimately show ?thesis using False r b1(3) by simp
  qed
qed simp

lemma negate_twos_complement_correct:
  "length (negate_twos_complement bs) = length bs"
  "be_nat bs \<noteq> 0 \<Longrightarrow> be_nat (negate_twos_complement bs) = 256 ^ length bs - be_nat bs"
  using negate_loop_correct [of bs "fst (negate_loop bs)" "snd (negate_loop bs)"]
  by (auto simp: negate_twos_complement_def)

text \<open>A byte string is a minimal encoding when fewer bytes could not hold the number.\<close>

lemma der_integerI:
  assumes "length bs = Suc n" "\<And>m. n = Suc m \<Longrightarrow> 128 * 256 ^ m \<le> twos bs \<or> twos bs < - (128 * 256 ^ m)"
  shows "der_integer bs"
proof (cases bs rule: der_integer.cases)
  case (3 a b cs)
  then have n: "n = Suc (length cs)" using assms(1) by simp
  have r: "int (be_nat cs) < 256 ^ length cs"
    using be_nat_less [of cs] by (metis of_nat_less_iff of_nat_numeral of_nat_power)
  have "twos bs < 128 * 256 ^ length cs \<and> 0 \<le> twos bs" if "a = 0" "unat b < 128"
  proof -
    have "twos bs = int (unat b) * 256 ^ length cs + int (be_nat cs)" using that 3 by (simp add: twos_Cons)
    moreover
    have small: "int (unat b) + 1 \<le> 128" using that(2) by linarith
    have "int (unat b) * 256 ^ length cs + 256 ^ length cs \<le> 128 * 256 ^ length cs"
      using mult_right_mono [OF small, of "256 ^ length cs"] by (simp add: distrib_right)
    moreover have "0 \<le> int (unat b) * 256 ^ length cs" by simp
    ultimately show ?thesis using r by linarith
  qed
  moreover have "twos bs < 0 \<and> - (128 * 256 ^ length cs) \<le> twos bs" if "a = 0xff" "128 \<le> unat b"
  proof -
    have "unat a = 255" using that(1) by simp
    then have "twos bs = - (256 ^ Suc (length cs)) + int (unat b) * 256 ^ length cs + int (be_nat cs)"
      using 3 by (simp add: twos_Cons)
    then have t: "twos bs = (int (unat b) - 256) * 256 ^ length cs + int (be_nat cs)" by (simp add: algebra_simps)
    have range: "(- 128 :: int) \<le> int (unat b) - 256" "int (unat b) - 256 \<le> - 1"
      using that(2) byte_le [of b] by linarith+
    have "(- 128 :: int) * 256 ^ length cs \<le> (int (unat b) - 256) * 256 ^ length cs"
      by (rule mult_right_mono [OF range(1)]) simp
    moreover have "(int (unat b) - 256) * 256 ^ length cs \<le> (- 1) * 256 ^ length cs"
      by (rule mult_right_mono [OF range(2)]) simp
    ultimately show ?thesis using t r by linarith
  qed
  ultimately have "\<not> (a = 0 \<and> unat b < 128) \<and> \<not> (a = 0xff \<and> 128 \<le> unat b)"
    using assms(2) [OF n] by fastforce
  with 3 show ?thesis by simp
qed (use assms in auto)

lemma twos_top:
  assumes "128 * 256 ^ length bs \<le> be_nat (b # bs)"
  shows "twos (b # bs) = int (be_nat (b # bs)) - 256 ^ length (b # bs)"
proof -
  have "128 \<le> unat b"
  proof (rule ccontr)
    assume "\<not> 128 \<le> unat b"
    then have "(unat b + 1) * 256 ^ length bs \<le> 128 * 256 ^ length bs" by (intro mult_le_mono1) simp
    with be_nat_Cons_bounds(2) [of b bs] assms show False by linarith
  qed
  then show ?thesis by (simp add: twos_def)
qed

section \<open>DER contents\<close>

text \<open>
  \<open>i2c_ASN1_INTEGER\<close> gives the minimal two's-complement contents of the number, also for an object
  with leading zeros or a negative zero.
\<close>

lemma integer_pad_negative:
  "integer_pad True (b # bs) = (True, if 128 * 256 ^ length bs < be_nat (b # bs) then 1 else 0)"
proof -
  have "b > 0x80 \<or> b = 0x80 \<and> be_nat bs \<noteq> 0 \<longleftrightarrow> 128 * 256 ^ length bs < be_nat (b # bs)"
  proof (cases "unat b" "128 :: nat" rule: linorder_cases)
    case less
    then have "(unat b + 1) * 256 ^ length bs \<le> 128 * 256 ^ length bs" by (intro mult_le_mono1) simp
    then have "\<not> 128 * 256 ^ length bs < be_nat (b # bs)"
      using be_nat_Cons_bounds(2) [of b bs] by linarith
    moreover have "\<not> b > 0x80" "b \<noteq> 0x80" using less by (auto simp: word_less_nat_alt)
    ultimately show ?thesis by blast
  next
    case equal
    then have "b = 0x80" by (simp add: word_unat_eq_iff)
    with equal show ?thesis by auto
  next
    case greater
    then have "(128 + 1) * 256 ^ length bs \<le> unat b * 256 ^ length bs" by (intro mult_le_mono1) simp
    moreover have "(0 :: nat) < 256 ^ length bs" by simp
    ultimately have "128 * 256 ^ length bs < be_nat (b # bs)"
      using be_nat_Cons_bounds(1) [of b bs] by (simp only: distrib_right)
    with greater show ?thesis by (simp add: word_less_nat_alt)
  qed
  then show ?thesis by (simp add: integer_pad_def is_all_zeros_iff)
qed

lemma i2c_positive:
  assumes "minimal cbs" "integer_pad False cbs = (neg, pad)"
  shows "\<not> neg \<and> der_integer (replicate pad 0 @ cbs) \<and> twos (replicate pad 0 @ cbs) = int (be_nat cbs)"
  using assms
  by (cases cbs; cases "tl cbs")
    (auto simp: integer_pad_def byte_high_bit twos_def split: if_splits)

lemma i2c_negative:
  assumes "minimal (b # bs)" "integer_pad True (b # bs) = (neg, pad)" "out = replicate pad 0 @ b # bs"
  shows "neg \<and> der_integer (negate_twos_complement out) \<and>
    twos (negate_twos_complement out) = - int (be_nat (b # bs))"
proof -
  define v where "v = be_nat (b # bs)"
  have low: "256 ^ length bs \<le> v" using minimal_lower [OF assms(1)] by (simp only: v_def)
  then have "0 < v" using zero_less_power [of "256 :: nat" "length bs"] by linarith
  have high: "v < 256 ^ Suc (length bs)" using be_nat_less [of "b # bs"] by (simp only: v_def length_Cons)
  have neg: neg and pad: "pad = (if 128 * 256 ^ length bs < v then 1 else 0)"
    using assms(2) by (simp_all add: integer_pad_negative v_def)
  define n where "n = pad + length bs"
  have len: "length out = Suc n" and be: "be_nat out = v"
    using assms(3) pad by (simp_all add: n_def v_def split: if_splits)
  let ?r = "negate_twos_complement out"
  have r: "length ?r = Suc n" "be_nat ?r = 256 ^ Suc n - v"
    using negate_twos_complement_correct [of out] len be \<open>0 < v\<close> by simp_all
  have top: "v \<le> 128 * 256 ^ n" using pad high by (auto simp: n_def)
  then have "128 * 256 ^ n \<le> be_nat ?r" using r(2) by simp
  then have "twos ?r = int (be_nat ?r) - 256 ^ Suc n"
    using twos_top r(1) by (cases ?r) auto
  also have "int (be_nat ?r) = 256 ^ Suc n - int v"
    using r(2) top by (simp add: of_nat_diff)
  finally have t: "twos ?r = - int v" by simp
  have "int v > 128 * 256 ^ m" if "n = Suc m" for m
  proof -
    have "v > 128 * 256 ^ m"
    proof (cases "128 * 256 ^ length bs < v")
      case True
      with pad that have "m = length bs" by (simp add: n_def)
      with True show ?thesis by simp
    next
      case False
      with pad that have "length bs = Suc m" by (simp add: n_def)
      then have "256 * 256 ^ m \<le> v" using low by simp
      moreover have "(0 :: nat) < 256 ^ m" by simp
      ultimately show ?thesis by linarith
    qed
    then have "int (128 * 256 ^ m) < int v" by (simp only: of_nat_less_iff)
    then show ?thesis by simp
  qed
  then have "der_integer ?r" using t r(1) by (intro der_integerI [of _ n]) force+
  with neg t show ?thesis by (simp add: v_def)
qed

lemma i2c_ASN1_INTEGER_correct:
  assumes "str_length a < 0x7fffffff"
  shows "\<exists>bs. i2c_ASN1_INTEGER (Some a) True = (int (length bs), bs) \<and>
    i2c_ASN1_INTEGER (Some a) False = (int (length bs), []) \<and> der_integer bs \<and> twos bs = int_value a"
proof -
  define cbs where "cbs = skip_leading_zeros (str_bytes a)"
  have cbs: "minimal cbs" "be_nat cbs = be_nat (str_bytes a)"
    using skip_leading_zeros_correct [of "str_bytes a"] by (simp_all add: cbs_def)
  have "length cbs \<le> str_length a"
    using skip_leading_zeros_correct(3) [of "str_bytes a"] by (simp add: cbs_def str_bytes_def)
  with assms have len: "length cbs < 0x7fffffff" by linarith
  define is_neg where "is_neg \<longleftrightarrow> str_type a AND V_ASN1_NEG \<noteq> 0"
  obtain neg pad where ip: "integer_pad is_neg cbs = (neg, pad)" by fastforce
  define out where "out = (if neg then negate_twos_complement (replicate pad 0 @ cbs) else replicate pad 0 @ cbs)"
  have pad: "pad \<le> 1" using ip by (cases cbs) (auto simp: integer_pad_def split: if_splits)
  have lo: "length out = pad + length cbs" by (simp add: out_def negate_twos_complement_correct)
  have "\<not> int (length cbs) > INT_LIMIT - int pad" using len pad by linarith
  then have "i2c_ASN1_INTEGER (Some a) True = (int (length out), out)"
    "i2c_ASN1_INTEGER (Some a) False = (int (length out), [])"
    using ip lo by (simp_all add: i2c_ASN1_INTEGER_def is_neg_def out_def flip: cbs_def)
  moreover have "der_integer out \<and> twos out = int_value a"
  proof (cases "is_neg \<and> cbs \<noteq> []")
    case True
    then obtain b bs where c: "cbs = b # bs" by (cases cbs) auto
    with True ip have "integer_pad True (b # bs) = (neg, pad)" by simp
    from i2c_negative [OF cbs(1) [unfolded c] this refl, folded c] True cbs(2) show ?thesis
      by (simp add: out_def int_value_def is_neg_def)
  next
    case False
    then have "integer_pad False cbs = (neg, pad)" using ip by (cases cbs) (auto simp: integer_pad_def)
    from i2c_positive [OF cbs(1) this] False cbs(2) show ?thesis
      by (auto simp: out_def int_value_def is_neg_def)
  qed
  ultimately show ?thesis by blast
qed

text \<open>What \<open>ASN1_STRING_set\<close> does with bytes.\<close>

lemma ASN1_STRING_set_bytes:
  assumes "length d \<le> ASN1_STRING_MAX"
  shows "ASN1_STRING_set alloc junk s (Some d) (int (length d)) = (False, s) \<and> \<not> alloc (length d + 1) \<or>
    (\<exists>rest. ASN1_STRING_set alloc junk s (Some d) (int (length d)) =
       (True, s\<lparr>str_data := Some (d @ 0 # rest), str_length := length d\<rparr>))"
  using assms by (auto simp: ASN1_STRING_set_def Let_def)

lemma str_bytes_set [simp]:
  "str_bytes (s\<lparr>str_data := Some (d @ rest), str_length := length d\<rparr>) = d"
  "str_bytes (s\<lparr>str_type := type\<rparr>) = str_bytes s"
  by (simp_all add: str_bytes_def str_block_def)

lemma c2i_positive:
  assumes "der_integer bs" "unat (hd bs) < 128" "cbs = (if length bs > 0 \<and> bs ! 0 = 0 then drop 1 bs else bs)"
  shows "minimal cbs" "int (be_nat cbs) = twos bs"
proof -
  show "minimal cbs" using assms by (cases bs rule: der_integer.cases) auto
  have "be_nat cbs = be_nat bs" using assms by (cases bs) auto
  then show "int (be_nat cbs) = twos bs" using assms(2) by (simp add: twos_unsigned)
qed

lemma c2i_negative:
  assumes der: "der_integer bs" and neg: "128 \<le> unat (hd bs)"
    and cbs: "cbs = (if length bs > 0 \<and> bs ! 0 = 0xff \<and> \<not> is_all_zeros (drop 1 bs) then drop 1 bs else bs)"
  shows "minimal (negate_twos_complement cbs)" "cbs \<noteq> []" "- int (be_nat (negate_twos_complement cbs)) = twos bs"
proof -
  obtain a as where bs: "bs = a # as" using der by (cases bs) auto
  define r where "r = negate_twos_complement cbs"
  have value_eq: "twos bs = int (be_nat bs) - 256 ^ length bs" using bs neg by (simp add: twos_def)
  have *: "cbs \<noteq> [] \<and> be_nat cbs \<noteq> 0 \<and> twos bs = int (be_nat cbs) - 256 ^ length cbs \<and>
    256 ^ (length cbs - 1) \<le> 256 ^ length cbs - be_nat cbs"
  proof (cases "a = 0xff \<and> be_nat as \<noteq> 0")
    case True
    then have c: "cbs = as" "as \<noteq> []" using cbs bs by (auto simp: is_all_zeros_iff)
    then obtain b ds where as: "as = b # ds" by (cases as) auto
    have "unat b < 128" using der bs as True by simp
    then have "(unat b + 1) * 256 ^ length ds \<le> 128 * 256 ^ length ds" by (intro mult_le_mono1) simp
    then have "be_nat as < 128 * 256 ^ length ds" using be_nat_Cons_bounds(2) [of b ds] unfolding as by linarith
    then have "256 ^ length ds \<le> 256 ^ length as - be_nat as" using as by simp
    moreover have "unat a = 255" using True by simp
    then have "twos bs = int (be_nat as) - 256 ^ length as" using bs value_eq by simp
    ultimately show ?thesis using True c as by simp
  next
    case False
    then have c: "cbs = bs" using cbs bs by (auto simp: is_all_zeros_iff)
    have "be_nat bs \<le> 255 * 256 ^ length as"
    proof (cases "a = 0xff")
      case True
      with False bs show ?thesis by simp
    next
      case ne: False
      then have "unat a < 255" using byte_le [of a] by (simp add: word_unat_eq_iff)
      then have "(unat a + 1) * 256 ^ length as \<le> 255 * 256 ^ length as" by (intro mult_le_mono1) simp
      then show ?thesis using be_nat_Cons_bounds(2) [of a as] unfolding bs by linarith
    qed
    then have "256 ^ length as \<le> 256 ^ length bs - be_nat bs" using bs by simp
    moreover have "be_nat bs \<noteq> 0" using neg bs by simp
    ultimately show ?thesis using c bs value_eq by simp
  qed
  then show "cbs \<noteq> []" by blast
  have r: "length r = length cbs" "be_nat r = 256 ^ length cbs - be_nat cbs"
    using negate_twos_complement_correct [of cbs] * by (simp_all add: r_def)
  have "be_nat cbs < 256 ^ length cbs" by (rule be_nat_less)
  then have "int (be_nat r) = 256 ^ length cbs - int (be_nat cbs)"
    using r(2) by (simp add: of_nat_diff)
  then show "- int (be_nat (negate_twos_complement cbs)) = twos bs" using * by (simp add: r_def)
  show "minimal (negate_twos_complement cbs)"
  proof (cases r)
    case (Cons c cs)
    then have "length cs = length cbs - 1" using r(1) by simp
    then have "256 ^ length cs \<le> be_nat (c # cs)" using * r(2) Cons by simp
    then show ?thesis unfolding r_def [symmetric] Cons minimal_iff .
  qed (simp add: r_def)
qed

text \<open>\<open>c2i_ASN1_INTEGER\<close> accepts exactly the minimal contents and returns their number, in canonical form.\<close>

lemma c2i_ASN1_INTEGER_correct:
  assumes len: "0 \<le> len" "nat len \<le> length inp" "len \<le> int ASN1_STRING_MAX"
  shows "if der_integer (take (nat len) inp)
    then \<exists>ret. c2i_ASN1_INTEGER (\<lambda>_. True) junk out inp len = (Some ret, Some ret, drop (nat len) inp) \<and>
      canonical_integer ret \<and> int_value ret = twos (take (nat len) inp)
    else c2i_ASN1_INTEGER (\<lambda>_. True) junk out inp len = (None, out, inp)"
proof -
  define bs where "bs = take (nat len) inp"
  have bounds: "\<not> (len < 0 \<or> len > INT_LIMIT div 2)" and short: "length bs \<le> ASN1_STRING_MAX"
    using len by (auto simp: bs_def)
  define ret0 where "ret0 = (case out of None \<Rightarrow> \<lparr>str_length = 0, str_type = V_ASN1_INTEGER, str_data = None, str_flags = 0\<rparr> | Some r \<Rightarrow> r)"
  have ret0: "(case out of None \<Rightarrow> ASN1_STRING_type_new (\<lambda>_. True) V_ASN1_INTEGER | Some _ \<Rightarrow> out) = Some ret0"
    by (simp add: ret0_def ASN1_STRING_type_new_def split: option.split)
  show ?thesis
  proof (cases "der_integer bs")
    case False
    then have "CBS_is_valid_asn1_integer bs \<noteq> (True, Some b)" for b by (simp add: CBS_is_valid_asn1_integer_iff)
    then have "c2i_ASN1_INTEGER (\<lambda>_. True) junk out inp len = (None, out, inp)"
      using bounds unfolding c2i_ASN1_INTEGER_def Let_def bs_def [symmetric]
      by (auto split: prod.splits bool.splits option.splits)
    with False show ?thesis by (simp add: bs_def)
  next
    case True
    define neg where "neg \<longleftrightarrow> 128 \<le> unat (hd bs)"
    define cbs where "cbs = (if neg
        then if length bs > 0 \<and> bs ! 0 = 0xff \<and> \<not> is_all_zeros (drop 1 bs) then drop 1 bs else bs
        else if length bs > 0 \<and> bs ! 0 = 0 then drop 1 bs else bs)"
    have valid: "CBS_is_valid_asn1_integer bs = (True, Some neg)"
      using True by (simp add: CBS_is_valid_asn1_integer_iff neg_def)
    have "length cbs \<le> length bs" by (simp add: cbs_def)
    with short have "length cbs \<le> ASN1_STRING_MAX" by (rule order.trans [rotated])
    then obtain rest where set: "ASN1_STRING_set (\<lambda>_. True) junk ret0 (Some cbs) (int (length cbs)) =
        (True, ret0\<lparr>str_data := Some (cbs @ 0 # rest), str_length := length cbs\<rparr>)"
      using ASN1_STRING_set_bytes [of cbs "\<lambda>_. True" junk ret0] by auto
    let ?set = "ret0\<lparr>str_data := Some (cbs @ 0 # rest), str_length := length cbs\<rparr>"
    define ret where "ret = (if neg then ?set\<lparr>str_type := V_ASN1_NEG_INTEGER,
        str_data := Some (negate_twos_complement (str_bytes ?set) @ drop (str_length ?set) (str_block ?set))\<rparr>
      else ?set\<lparr>str_type := V_ASN1_INTEGER\<rparr>)"
    have e: "c2i_ASN1_INTEGER (\<lambda>_. True) junk out inp len = (Some ret, Some ret, drop (nat len) inp)"
      unfolding c2i_ASN1_INTEGER_def if_not_P [OF bounds] Let_def bs_def [symmetric] valid ret0 prod.case bool.case
        option.case cbs_def [symmetric] set ret_def [symmetric] ..
    have block: "str_bytes ?set = cbs" "str_block ?set = cbs @ 0 # rest" by (simp_all add: str_block_def)
    have "canonical_integer ret \<and> int_value ret = twos bs"
    proof (cases neg)
      case pos: False
      then have c: "cbs = (if length bs > 0 \<and> bs ! 0 = 0 then drop 1 bs else bs)" by (simp add: cbs_def)
      have "unat (hd bs) < 128" using pos by (simp add: neg_def)
      note p = c2i_positive [OF True this c]
      have "str_bytes ret = cbs" using pos block by (simp add: ret_def)
      with p pos show ?thesis by (simp add: canonical_integer_def int_value_def ret_def str_block_def)
    next
      case is_neg: True
      then have c: "cbs = (if length bs > 0 \<and> bs ! 0 = 0xff \<and> \<not> is_all_zeros (drop 1 bs) then drop 1 bs else bs)"
        by (simp add: cbs_def)
      have "128 \<le> unat (hd bs)" using is_neg by (simp add: neg_def)
      note n = c2i_negative [OF True this c]
      have l: "length (negate_twos_complement cbs) = length cbs" by (rule negate_twos_complement_correct)
      have "str_bytes ret = negate_twos_complement cbs" "str_type ret = V_ASN1_NEG_INTEGER"
        "str_length ret = length cbs" "length (str_block ret) = Suc (length cbs + length rest)"
        using is_neg block l by (simp_all add: ret_def str_bytes_def str_block_def)
      then show ?thesis using n l by (auto simp: canonical_integer_def int_value_def)
    qed
    with True e show ?thesis by (simp add: bs_def)
  qed
qed

section \<open>The order\<close>

lemma memcmp_number:
  "length xs = length ys \<Longrightarrow>
   (memcmp xs ys < 0 \<longleftrightarrow> be_nat xs < be_nat ys) \<and> (0 < memcmp xs ys \<longleftrightarrow> be_nat ys < be_nat xs)"
proof (induction xs ys rule: list_induct2)
  case (Cons x xs y ys)
  have smaller: "be_nat (a # as) < be_nat (b # bs)" if "a < b" "length as = length bs" for a b :: byte and as bs
  proof -
    have "(unat a + 1) * 256 ^ length bs \<le> unat b * 256 ^ length bs"
      using that(1) by (intro mult_le_mono1) (simp add: word_less_nat_alt)
    with be_nat_Cons_bounds(2) [of a as] be_nat_Cons_bounds(1) [of b bs] that(2) show ?thesis
      unfolding that(2) by linarith
  qed
  consider "x = y" | "x < y" | "y < x" by (rule linorder_cases)
  then show ?case
  proof cases
    case 1
    with Cons show ?thesis by simp
  next
    case 2
    then have "memcmp (x # xs) (y # ys) = - 1" by auto
    then show ?thesis using smaller [OF 2 Cons.hyps] by (simp only:) simp
  next
    case 3
    then have "memcmp (x # xs) (y # ys) = 1" by auto
    then show ?thesis using smaller [OF 3 Cons.hyps(1) [symmetric]] by (simp only:) simp
  qed
qed simp

lemma minimal_shorter:
  assumes "minimal ys" "length xs < length ys"
  shows "be_nat xs < be_nat ys"
proof -
  from assms(2) obtain b bs where ys: "ys = b # bs" "length xs \<le> length bs" by (cases ys) auto
  have "be_nat xs < 256 ^ length xs" by (rule be_nat_less)
  also have "(256 :: nat) ^ length xs \<le> 256 ^ length bs" using ys(2) by (simp add: power_increasing)
  also have "\<dots> \<le> be_nat ys" using minimal_lower assms(1) unfolding ys(1) by blast
  finally show ?thesis .
qed

lemma ASN1_STRING_cmp_number:
  assumes "canonical_integer x" "canonical_integer y" "str_type x = str_type y"
  shows "(ASN1_STRING_cmp x y < 0 \<longleftrightarrow> be_nat (str_bytes x) < be_nat (str_bytes y)) \<and>
    (0 < ASN1_STRING_cmp x y \<longleftrightarrow> be_nat (str_bytes y) < be_nat (str_bytes x))"
proof -
  have nb: "str_type x \<noteq> V_ASN1_BIT_STRING" "str_type y \<noteq> V_ASN1_BIT_STRING"
    using assms by (auto simp: canonical_integer_def)
  have l: "length (str_bytes x) = str_length x" "length (str_bytes y) = str_length y"
    "minimal (str_bytes x)" "minimal (str_bytes y)"
    using assms by (simp_all add: canonical_integer_def length_str_bytes)
  have e: "ASN1_STRING_cmp x y =
      (if str_length x < str_length y then -1 else if str_length x > str_length y then 1
       else memcmp (str_bytes x) (str_bytes y))"
  proof -
    have "str_read x (str_length x) = str_bytes x" "str_read y (str_length y) = str_bytes y"
      using assms by (simp_all add: str_read_def str_bytes_def canonical_integer_def)
    then show ?thesis using nb assms(3) by (auto simp: ASN1_STRING_cmp_def Let_def)
  qed
  consider "str_length x < str_length y" | "str_length x > str_length y" | "str_length x = str_length y"
    by linarith
  then show ?thesis
  proof cases
    case 1
    then have "be_nat (str_bytes x) < be_nat (str_bytes y)" using minimal_shorter l by simp
    with e 1 show ?thesis by simp
  next
    case 2
    then have "be_nat (str_bytes y) < be_nat (str_bytes x)" using minimal_shorter l by simp
    with e 2 show ?thesis by simp
  next
    case 3
    then have "ASN1_STRING_cmp x y = memcmp (str_bytes x) (str_bytes y)" using e by simp
    with memcmp_number [of "str_bytes x" "str_bytes y"] l 3 show ?thesis by simp
  qed
qed

text \<open>On canonical objects, \<open>ASN1_INTEGER_cmp\<close> has the sign of the difference of the numbers.\<close>

lemma canonical_types:
  assumes "canonical_integer x"
  shows "str_type x = V_ASN1_INTEGER \<and> str_type x AND V_ASN1_NEG = 0 \<and> 0 \<le> int_value x \<or>
    str_type x = V_ASN1_NEG_INTEGER \<and> str_type x AND V_ASN1_NEG = V_ASN1_NEG \<and> int_value x < 0"
proof -
  have "(2 :: int) AND 0x100 = 0" "(0x102 :: int) AND 0x100 = 0x100" by code_simp+
  moreover have "0 < be_nat (str_bytes x)" if "str_bytes x \<noteq> []"
    using assms that minimal_shorter [of "str_bytes x" "[]"] by (simp add: canonical_integer_def)
  ultimately show ?thesis using assms by (auto simp: canonical_integer_def int_value_def)
qed

lemma ASN1_INTEGER_cmp_number:
  assumes "canonical_integer x" "canonical_integer y"
  shows "sgn (ASN1_INTEGER_cmp x y) = sgn (int_value x - int_value y)"
proof -
  consider (same) "str_type x = str_type y" | (pos) "str_type x = V_ASN1_INTEGER" "str_type y = V_ASN1_NEG_INTEGER"
    | (neg) "str_type x = V_ASN1_NEG_INTEGER" "str_type y = V_ASN1_INTEGER"
    using assms by (auto simp: canonical_integer_def)
  then show ?thesis
  proof cases
    case same
    note c = ASN1_STRING_cmp_number [OF assms same]
    show ?thesis
    proof (cases "str_type x AND V_ASN1_NEG = 0")
      case True
      then have "ASN1_INTEGER_cmp x y = ASN1_STRING_cmp x y" "int_value x = int (be_nat (str_bytes x))"
        "int_value y = int (be_nat (str_bytes y))"
        using same by (simp_all add: ASN1_INTEGER_cmp_def int_value_def Let_def)
      with c show ?thesis by (auto simp: sgn_if)
    next
      case False
      then have "ASN1_INTEGER_cmp x y = (if ASN1_STRING_cmp x y < 0 then 1 else if ASN1_STRING_cmp x y > 0 then -1 else 0)"
        "int_value x = - int (be_nat (str_bytes x))" "int_value y = - int (be_nat (str_bytes y))"
        using same by (simp_all add: ASN1_INTEGER_cmp_def int_value_def Let_def)
      with c show ?thesis by (auto simp: sgn_if)
    qed
  next
    case pos
    with canonical_types [OF assms(1)] canonical_types [OF assms(2)] show ?thesis
      by (auto simp: ASN1_INTEGER_cmp_def sgn_if Let_def)
  next
    case neg
    with canonical_types [OF assms(1)] canonical_types [OF assms(2)] show ?thesis
      by (auto simp: ASN1_INTEGER_cmp_def sgn_if Let_def)
  qed
qed

section \<open>The 64-bit accessors\<close>

lemma str_type_bits:
  "V_ASN1_INTEGER AND NOT V_ASN1_NEG = V_ASN1_INTEGER" "V_ASN1_NEG_INTEGER AND NOT V_ASN1_NEG = V_ASN1_INTEGER"
  "V_ASN1_INTEGER AND V_ASN1_NEG = 0" "V_ASN1_NEG_INTEGER AND V_ASN1_NEG \<noteq> 0"
  by code_simp+

lemma be_nat_leading_zeros: "be_nat (replicate n 0 @ bs) = be_nat bs"
  by (induction n) simp_all

lemma get_abs_uint64:
  assumes "str_type a AND NOT V_ASN1_NEG = type" "str_length a \<le> length (str_block a)"
  shows "asn1_string_get_abs_uint64 a type =
    (if str_length a \<le> 8 then Some (of_nat (be_nat (str_bytes a))) else None)"
proof (cases "str_length a \<le> 8")
  case True
  let ?bs = "replicate (8 - str_length a) 0 @ str_bytes a"
  have "length ?bs = 8" using True assms(2) by (simp add: length_str_bytes)
  then have "be_nat ?bs < 256 ^ 8" using be_nat_less [of ?bs] by (simp only:)
  then have "unat (0 :: u64) * 256 ^ length ?bs + be_nat ?bs < 2 ^ 64" by simp
  from unat_load_be [OF this] have "unat (load_be (0 :: u64) ?bs) = be_nat ?bs" by simp
  then have "load_be (0 :: u64) ?bs = of_nat (be_nat (str_bytes a))"
    by (simp only: be_nat_leading_zeros) (rule word_eq_of_nat)
  with True assms(1) show ?thesis by (simp add: asn1_string_get_abs_uint64_def)
qed (use assms in \<open>simp add: asn1_string_get_abs_uint64_def\<close>)


lemma minimal_length_8:
  assumes "minimal bs"
  shows "length bs \<le> 8 \<longleftrightarrow> be_nat bs < 2 ^ 64"
proof
  assume "length bs \<le> 8"
  then have "(256 :: nat) ^ length bs \<le> 256 ^ 8" by (intro power_increasing) simp_all
  with be_nat_less [of bs] have "be_nat bs < 256 ^ 8" by (rule less_le_trans)
  then show "be_nat bs < 2 ^ 64" by simp
next
  assume small: "be_nat bs < 2 ^ 64"
  show "length bs \<le> 8"
  proof (rule ccontr)
    assume "\<not> length bs \<le> 8"
    then obtain b cs where bs: "bs = b # cs" "8 \<le> length cs" by (cases bs) auto
    have "(256 :: nat) ^ 8 \<le> 256 ^ length cs" using bs(2) by (intro power_increasing) simp_all
    also have "\<dots> \<le> be_nat bs" using minimal_lower assms unfolding bs(1) by blast
    finally show False using small by simp
  qed
qed

lemma sint_sign: "0 \<le> sint (v :: u64) \<longleftrightarrow> unat v < 2 ^ 63"
proof -
  have "uint v < 2 ^ 63 \<longleftrightarrow> unat v < 2 ^ 63"
    using of_nat_less_iff [of "unat v" "2 ^ 63", where 'a = int] by simp
  moreover have "0 \<le> sint v \<longleftrightarrow> uint v < 2 ^ 63"
    using sint_cases [of v] uint_less_64 [of v] by auto
  ultimately show ?thesis by simp
qed

lemma unat_of_nat_64: "n < 2 ^ 64 \<Longrightarrow> unat (of_nat n :: u64) = n"
  by (simp add: unat_of_nat)

lemma negated_64:
  assumes "0 < n" "n < 2 ^ 64"
  shows "unat (0 - of_nat n :: u64) = 2 ^ 64 - n"
proof -
  have "(of_nat (2 ^ 64 - n) :: u64) = of_nat (2 ^ 64) - of_nat n"
    using assms(2) by (intro of_nat_diff) simp
  then have "0 - of_nat n = (of_nat (2 ^ 64 - n) :: u64)" by simp
  then show ?thesis using assms(1) by (simp add: unat_of_nat_64 del: diff_0)
qed

lemma of_nat_64_eq_0:
  assumes "n < 2 ^ 64"
  shows "(of_nat n :: u64) = 0 \<longleftrightarrow> n = 0"
proof
  assume "(of_nat n :: u64) = 0"
  then have "unat (of_nat n :: u64) = 0" by simp
  then show "n = 0" unfolding unat_of_nat_64 [OF assms] .
qed simp

text \<open>Which numbers fit, with the sign that the type gives them.\<close>

definition fit_int64 :: "bool \<Rightarrow> u64 \<Rightarrow> u64 option" where
  "fit_int64 neg v =
     (if neg \<and> v \<noteq> 0 then if sint (0 - v) < 0 then Some (0 - v) else None
      else if 0 \<le> sint v then Some v else None)"

lemma fit_int64_eq:
  assumes "n < 2 ^ 64" "x = (if neg then - int n else int n)"
  shows "fit_int64 neg (of_nat n) = (if - (2 ^ 63) \<le> x \<and> x < 2 ^ 63 then Some (word_of_int x) else None)"
proof (cases "neg \<and> n \<noteq> 0")
  case True
  then have x: "x = - int n" and n: "0 < n" using assms(2) by simp_all
  have "sint (0 - of_nat n :: u64) < 0 \<longleftrightarrow> \<not> unat (0 - of_nat n :: u64) < 2 ^ 63"
    unfolding sint_sign [symmetric] by (rule not_le [symmetric])
  also have "\<dots> \<longleftrightarrow> n \<le> 2 ^ 63" unfolding negated_64 [OF n assms(1)]
    using assms(1) by auto
  also have "\<dots> \<longleftrightarrow> - (2 ^ 63) \<le> x \<and> x < 2 ^ 63"
    using of_nat_le_iff [of n "2 ^ 63", where 'a = int] x by auto
  finally have s: "sint (0 - of_nat n :: u64) < 0 \<longleftrightarrow> - (2 ^ 63) \<le> x \<and> x < 2 ^ 63" .
  have w: "0 - of_nat n = (word_of_int x :: u64)" unfolding x by simp
  have nz: "neg \<and> (of_nat n :: u64) \<noteq> 0" using True of_nat_64_eq_0 [OF assms(1)] by blast
  show ?thesis unfolding fit_int64_def if_P [OF nz] s unfolding w ..
next
  case False
  then have x: "x = int n" using assms(2) by auto
  have "0 \<le> sint (of_nat n :: u64) \<longleftrightarrow> n < 2 ^ 63" by (simp only: sint_sign unat_of_nat_64 [OF assms(1)])
  also have "\<dots> \<longleftrightarrow> - (2 ^ 63) \<le> x \<and> x < 2 ^ 63"
    using of_nat_less_iff [of n "2 ^ 63", where 'a = int] x by auto
  finally have s: "0 \<le> sint (of_nat n :: u64) \<longleftrightarrow> - (2 ^ 63) \<le> x \<and> x < 2 ^ 63" .
  have w: "(of_nat n :: u64) = word_of_int x" unfolding x by simp
  have nz: "\<not> (neg \<and> (of_nat n :: u64) \<noteq> 0)" using False of_nat_64_eq_0 [OF assms(1)] by blast
  show ?thesis unfolding fit_int64_def if_not_P [OF nz] s unfolding w ..
qed

lemma ASN1_INTEGER_get_int64_number:
  assumes c: "canonical_integer a"
  shows "ASN1_INTEGER_get_int64 a =
    (if - (2 ^ 63) \<le> int_value a \<and> int_value a < 2 ^ 63 then Some (word_of_int (int_value a)) else None)"
proof -
  define n where "n = be_nat (str_bytes a)"
  define neg where "neg \<longleftrightarrow> str_type a AND V_ASN1_NEG \<noteq> 0"
  have bits: "str_type a AND NOT V_ASN1_NEG = V_ASN1_INTEGER" and min: "minimal (str_bytes a)"
    and len: "str_length a \<le> length (str_block a)"
    using c by (auto simp: canonical_integer_def str_type_bits)
  have eight: "str_length a \<le> 8 \<longleftrightarrow> n < 2 ^ 64"
    using minimal_length_8 [OF min] unfolding length_str_bytes [OF len] n_def .
  have val: "int_value a = (if neg then - int n else int n)"
    by (simp only: int_value_def n_def neg_def)
  have get: "ASN1_INTEGER_get_int64 a =
      (case (if n < 2 ^ 64 then Some (of_nat n) else None) of None \<Rightarrow> None | Some v \<Rightarrow> fit_int64 neg v)"
    unfolding ASN1_INTEGER_get_int64_def asn1_string_get_int64_def get_abs_uint64 [OF bits len] eight
      n_def [symmetric] neg_def [symmetric] fit_int64_def
    by (rule arg_cong [where f = "\<lambda>g. case_option None g _"]) (simp add: fun_eq_iff Let_def del: diff_0)
  show ?thesis
  proof (cases "n < 2 ^ 64")
    case True
    with get have "ASN1_INTEGER_get_int64 a = fit_int64 neg (of_nat n)" by (simp only: if_True option.case)
    also have "\<dots> = (if - (2 ^ 63) \<le> int_value a \<and> int_value a < 2 ^ 63 then Some (word_of_int (int_value a)) else None)"
      by (rule fit_int64_eq [OF True val])
    finally show ?thesis .
  next
    case False
    then have "(2 :: int) ^ 64 \<le> int n" using of_nat_le_iff [of "2 ^ 64" n, where 'a = int] by simp
    then have "\<not> (- (2 ^ 63) \<le> int_value a \<and> int_value a < 2 ^ 63)" using val by auto
    moreover have "ASN1_INTEGER_get_int64 a = None" using get False by (simp only: if_False option.case)
    ultimately show ?thesis by (simp only: if_False)
  qed
qed

lemma ASN1_INTEGER_set_uint64_number:
  "\<exists>a'. ASN1_INTEGER_set_uint64 (\<lambda>_. True) junk a v = (True, a') \<and> canonical_integer a' \<and>
     str_type a' = V_ASN1_INTEGER \<and> str_bytes a' = skip_leading_zeros (be_bytes 8 (unat v)) \<and> int_value a' = uint v"
proof -
  define d where "d = skip_leading_zeros (be_bytes 8 (unat v))"
  have d: "minimal d" "be_nat d = unat v" "length d \<le> 8"
    using skip_leading_zeros_correct [of "be_bytes 8 (unat v)"] unat_bound [of v]
    by (simp_all add: d_def be_nat_be_bytes)
  then obtain rest where "ASN1_STRING_set (\<lambda>_. True) junk a (Some d) (int (length d)) =
      (True, a\<lparr>str_data := Some (d @ 0 # rest), str_length := length d\<rparr>)"
    using ASN1_STRING_set_bytes [of d "\<lambda>_. True" junk a] by auto
  then show ?thesis using d(1,2)
    by (simp add: ASN1_INTEGER_set_uint64_def asn1_string_set_uint64_def canonical_integer_def int_value_def
        str_type_bits str_block_def flip: d_def)
qed

lemma ASN1_INTEGER_set_int64_number:
  "\<exists>a'. ASN1_INTEGER_set_int64 (\<lambda>_. True) junk a v = (True, a') \<and> canonical_integer a' \<and> int_value a' = sint v"
proof (cases "sint v \<ge> 0")
  case True
  then have "sint v = uint v" using sint_cases [of v] uint_less_64 [of v] by auto
  with True ASN1_INTEGER_set_uint64_number [of junk a v] show ?thesis by (auto simp: ASN1_INTEGER_set_int64_def)
next
  case False
  obtain a' where a': "ASN1_INTEGER_set_uint64 (\<lambda>_. True) junk a (0 - v) = (True, a')" "canonical_integer a'"
    "int_value a' = uint (0 - v)" "str_type a' = V_ASN1_INTEGER"
    using ASN1_INTEGER_set_uint64_number [of junk a "0 - v"] by blast
  have v: "2 ^ 63 \<le> unat v" using False by (simp add: sint_sign)
  have "unat (0 - v) = 2 ^ 64 - unat v" using negated_64 [of "unat v"] v unat_bound [of v] by simp
  moreover have "int (be_nat (str_bytes a')) = int (unat (0 - v))"
    using a'(3,4) by (simp add: int_value_def str_type_bits del: diff_0)
  ultimately have abs: "be_nat (str_bytes a') = 2 ^ 64 - unat v" by (simp only: of_nat_eq_iff)
  then have "0 < be_nat (str_bytes a')" using unat_bound [of v] by simp
  then have ne: "str_bytes a' \<noteq> []" by auto
  have "sint v = uint v - 2 ^ 64" using False sint_cases [of v] by auto
  moreover have "int (be_nat (str_bytes a')) = 2 ^ 64 - int (unat v)"
    unfolding abs using unat_bound [of v] by (subst of_nat_diff) simp_all
  ultimately have "- int (be_nat (str_bytes a')) = sint v" by simp
  then show ?thesis using False a'(1,2) ne
    by (auto simp: ASN1_INTEGER_set_int64_def canonical_integer_def int_value_def str_type_bits str_block_def)
qed

section \<open>Bits\<close>

definition string_ok :: "ASN1_STRING \<Rightarrow> bool" where
  "string_ok a \<longleftrightarrow> str_length a \<le> length (str_block a) \<and> (str_data a = None \<longrightarrow> str_length a = 0)"

definition bit_at :: "ASN1_STRING \<Rightarrow> nat \<Rightarrow> bool" where
  "bit_at a m \<longleftrightarrow> m div 8 < str_length a \<and> bit (str_block a ! (m div 8)) (7 - m mod 8)"

lemma and_push_bit_1: "(b :: byte) AND push_bit k 1 = 0 \<longleftrightarrow> \<not> bit b k"
  by (simp add: and_exp_eq_0_iff_not_bit)

lemma get_bit_iff: "string_ok a \<Longrightarrow> ASN1_BIT_STRING_get_bit (Some a) m \<longleftrightarrow> bit_at a m"
  by (auto simp: ASN1_BIT_STRING_get_bit_def bit_at_def string_ok_def Let_def and_exp_eq_0_iff_not_bit)

lemma strip_zeros_correct:
  "strip_zeros data n \<le> n" "strip_zeros data n \<le> i \<Longrightarrow> i < n \<Longrightarrow> data ! i = 0"
  "0 < strip_zeros data n \<Longrightarrow> data ! (strip_zeros data n - 1) \<noteq> 0"
proof (induction n)
  case (Suc n)
  {
    case 1
    with Suc.IH(1) show ?case by simp
  next
    case 2
    with Suc.IH(2) show ?case by (cases "i = n") (auto split: if_splits)
  next
    case 3
    with Suc.IH(3) show ?case by (auto split: if_splits)
  }
qed simp_all

lemma update_bit:
  assumes "n < 8" "m < 8"
  shows "bit ((b :: byte) AND NOT (push_bit n 1) OR (if v then push_bit n 1 else 0)) m = (if m = n then v else bit b m)"
  using assms by (auto simp: bit_or_iff bit_and_iff bit_not_iff bit_exp_iff)

lemma set_bit_correct:
  assumes ok: "string_ok a"
  shows "\<exists>a'. ASN1_BIT_STRING_set_bit (\<lambda>_. True) (Some a) n v = (True, Some a') \<and> string_ok a' \<and>
    (\<forall>m. bit_at a' m = (if m = n then v else bit_at a m))"
proof -
  define w where "w = n div 8"
  define k where "k = 7 - n mod 8"
  define a1 where "a1 = a\<lparr>str_flags := str_flags a AND NOT (ASN1_STRING_FLAG_BITS_LEFT OR 0x07)\<rparr>"
  define grow where "grow \<longleftrightarrow> str_length a < w + 1 \<or> str_data a = None"
  have a1: "str_length a1 = str_length a" "str_block a1 = str_block a" "str_data a1 = str_data a"
    by (simp_all add: a1_def str_block_def)
  show ?thesis
  proof (cases "grow \<and> \<not> v")
    case True
    then have e: "ASN1_BIT_STRING_set_bit (\<lambda>_. True) (Some a) n v = (True, Some a1)"
      by (simp add: ASN1_BIT_STRING_set_bit_def Let_def a1_def grow_def w_def)
    have "\<not> bit_at a n" using True ok by (auto simp: bit_at_def grow_def w_def string_ok_def)
    moreover have "bit_at a1 m = bit_at a m" for m by (simp add: bit_at_def a1)
    moreover have "string_ok a1" using ok by (simp add: string_ok_def a1)
    ultimately show ?thesis using e True by auto
  next
    case False
    define block where "block = (if grow then take (str_length a) (str_block a) @ replicate (w + 1 - str_length a) 0 else str_block a)"
    define len where "len = (if grow then w + 1 else str_length a)"
    define block' where "block' = block[w := (block ! w) AND NOT (push_bit k 1) OR (if v then push_bit k 1 else 0)]"
    define a' where "a' = a1\<lparr>str_data := Some block', str_length := strip_zeros block' len\<rparr>"
    have short: "str_length a < w + 1" if grow using that ok by (auto simp: grow_def string_ok_def)
    have len: "w < len" "len \<le> length block" "str_length a \<le> len"
      using ok short by (auto simp: len_def block_def grow_def string_ok_def)
    have old: "i < len \<Longrightarrow> block ! i = (if i < str_length a then str_block a ! i else 0)" for i
      using ok short by (auto simp: len_def block_def nth_append string_ok_def simp del: replicate.simps)
    have e: "ASN1_BIT_STRING_set_bit (\<lambda>_. True) (Some a) n v = (True, Some a')"
      using False by (auto simp: ASN1_BIT_STRING_set_bit_def Let_def a'_def block'_def len_def block_def a1_def
          grow_def w_def k_def str_block_def)
    have strip: "strip_zeros block' len \<le> len" by (rule strip_zeros_correct)
    have "string_ok a'" using strip len by (simp add: string_ok_def a'_def str_block_def block'_def)
    moreover have "bit_at a' m = (if m = n then v else bit_at a m)" for m
    proof -
      have "bit_at a' m \<longleftrightarrow> m div 8 < len \<and> bit (block' ! (m div 8)) (7 - m mod 8)"
        using strip strip_zeros_correct(2) [of block' len "m div 8"]
        by (cases "m div 8 < strip_zeros block' len") (auto simp: bit_at_def a'_def str_block_def)
      moreover have "bit (block' ! (m div 8)) (7 - m mod 8) =
          (if m div 8 = w \<and> 7 - m mod 8 = k then v else bit (block ! (m div 8)) (7 - m mod 8))" if "m div 8 < len"
        using that len update_bit [of k "7 - m mod 8" "block ! w" v]
        by (cases "m div 8 = w") (auto simp: block'_def k_def)
      moreover have "m div 8 = w \<and> 7 - m mod 8 = k \<longleftrightarrow> m = n"
      proof -
        have "m mod 8 < 8" "n mod 8 < 8" by simp_all
        then have "7 - m mod 8 = 7 - n mod 8 \<longleftrightarrow> m mod 8 = n mod 8" by linarith
        then show ?thesis unfolding w_def k_def by (metis div_mod_decomp)
      qed
      moreover have "m div 8 < len \<and> bit (block ! (m div 8)) (7 - m mod 8) \<longleftrightarrow> bit_at a m"
        using old [of "m div 8"] len(3) by (auto simp: bit_at_def split: if_splits)
      ultimately show ?thesis using len(1) by (auto simp: w_def)
    qed
    ultimately show ?thesis using e by blast
  qed
qed

section \<open>Contents of a BIT STRING\<close>

text \<open>A count of at most 7 unused bits, which are zero, and the bytes.\<close>

definition bit_string_contents :: "byte list \<Rightarrow> bool" where
  "bit_string_contents bs \<longleftrightarrow> bs \<noteq> [] \<and> hd bs \<le> 7 \<and>
     (hd bs \<noteq> 0 \<longrightarrow> length bs > 1 \<and> (last bs) AND mask (unat (hd bs)) = 0)"

lemma clear_padding:
  assumes "(b :: byte) AND mask k = 0"
  shows "b AND push_bit k 0xff = b"
proof (rule bit_eqI)
  fix n assume "possible_bit TYPE(byte) n"
  then have n: "n < 8" by simp
  have "\<not> bit (b AND mask k) n" using assms by simp
  then have "bit b n \<Longrightarrow> k \<le> n" using n by (simp add: bit_and_iff bit_mask_iff)
  moreover have "bit (0xff :: byte) j" if "j < 8" for j
  proof -
    have "(0xff :: byte) = mask 8" by (simp add: mask_eq_exp_minus_1)
    then show ?thesis using that unfolding \<open>(0xff :: byte) = mask 8\<close> bit_mask_iff by simp
  qed
  ultimately show "bit (b AND push_bit k 0xff) n = bit b n"
    using n by (auto simp: bit_and_iff bit_push_bit_iff)
qed

lemma bits_left_flags:
  fixes f :: int
  assumes "p \<le> (7 :: byte)"
  defines "f' \<equiv> (f AND NOT (ASN1_STRING_FLAG_BITS_LEFT OR 0x07)) OR (ASN1_STRING_FLAG_BITS_LEFT OR uint p)"
  shows "f' AND ASN1_STRING_FLAG_BITS_LEFT \<noteq> 0" "f' AND 0x07 = uint p"
proof -
  have "unat p \<le> 7" using assms(1) by (simp add: word_le_nat_alt)
  then have "uint p \<in> {0, 1, 2, 3, 4, 5, 6, 7}" 
  proof -
    have "unat p \<in> {0, 1, 2, 3, 4, 5, 6, 7}" using \<open>unat p \<le> 7\<close> unfolding insert_iff by linarith
    then have "int (unat p) \<in> int ` {0, 1, 2, 3, 4, 5, 6, 7}" by (rule imageI)
    then show ?thesis by simp
  qed
  moreover have "(f AND - 16) AND 7 = (0 :: int)" "(f AND - 16) AND 8 = (0 :: int)"
    by (simp_all add: and.assoc)
  ultimately show "f' AND ASN1_STRING_FLAG_BITS_LEFT \<noteq> 0" "f' AND 0x07 = uint p"
    unfolding f'_def bit.conj_disj_distrib2 by auto
qed


text \<open>
  \<open>c2i_ASN1_BIT_STRING\<close> accepts exactly such contents, and \<open>i2c_ASN1_BIT_STRING\<close> gives them back.
\<close>

lemma padding_mask: "unat p < 8 \<Longrightarrow> push_bit (unat p) 1 - 1 = (mask (unat (p :: byte)) :: byte)"
  by (simp add: mask_eq_exp_minus_1)

lemma c2i_i2c_bit_string:
  assumes len: "1 \<le> len" "len \<le> INT_LIMIT" "length bs = nat len"
  shows "if bit_string_contents bs
    then \<exists>ret. c2i_ASN1_BIT_STRING (\<lambda>_. True) a (bs @ t) len = (Some ret, Some ret, t) \<and>
      string_ok ret \<and> str_type ret = V_ASN1_BIT_STRING \<and> i2c_ASN1_BIT_STRING (Some ret) True = (len, bs)
    else c2i_ASN1_BIT_STRING (\<lambda>_. True) a (bs @ t) len = (None, a, bs @ t)"
proof -
  obtain p ps where bs: "bs = p # ps" using len by (cases bs) auto
  have n: "nat len - 1 = length ps" using len bs by simp
  define ret0 where "ret0 = (case a of None \<Rightarrow> \<lparr>str_length = 0, str_type = V_ASN1_BIT_STRING, str_data = None, str_flags = 0\<rparr> | Some r \<Rightarrow> r)"
  have new: "(case a of None \<Rightarrow> ASN1_STRING_type_new (\<lambda>_. True) V_ASN1_BIT_STRING | Some _ \<Rightarrow> a) = Some ret0"
    by (simp add: ret0_def ASN1_STRING_type_new_def split: option.split)
  define bad where "bad \<longleftrightarrow> p \<noteq> 0 \<and> (length ps < 1 \<or> ((ps @ t) ! (length ps - 1)) AND (push_bit (unat p) 1 - 1) \<noteq> 0)"
  define ret where "ret = ret0\<lparr>str_flags := (str_flags ret0 AND NOT (ASN1_STRING_FLAG_BITS_LEFT OR 0x07))
        OR (ASN1_STRING_FLAG_BITS_LEFT OR uint p), str_length := length ps,
      str_data := (if length ps > 0 then Some ps else None), str_type := V_ASN1_BIT_STRING\<rparr>"
  have e: "c2i_ASN1_BIT_STRING (\<lambda>_. True) a (bs @ t) len =
      (if p > 7 \<or> bad then (None, a, bs @ t) else (Some ret, Some ret, t))"
  proof -
    have range: "\<not> (len < 1 \<or> len > INT_LIMIT)" using len by linarith
    have d: "(bs @ t) ! 0 = p" "drop 1 (bs @ t) = ps @ t" "take (length ps) (ps @ t) = ps" "drop (length ps) (ps @ t) = t"
      by (simp_all add: bs)
    show ?thesis
      unfolding c2i_ASN1_BIT_STRING_def if_not_P [OF range] new option.case Let_def n d
      by (auto simp add: bad_def ret_def)
  qed
  have "bit_string_contents bs \<longleftrightarrow> \<not> (p > 7 \<or> bad)"
  proof (cases "p \<le> 7")
    case True
    then have "unat p < 8" by (simp add: word_le_nat_alt)
    then have "(ps @ t) ! (length ps - 1) AND (push_bit (unat p) 1 - 1) = last bs AND mask (unat p)" if "ps \<noteq> []"
      using that bs by (simp only: padding_mask) (simp add: nth_append last_conv_nth)
    with True show ?thesis by (cases "ps = []") (auto simp: bit_string_contents_def bs bad_def not_less)
  qed (auto simp: bit_string_contents_def bs)
  moreover have "i2c_ASN1_BIT_STRING (Some ret) True = (len, bs) \<and> string_ok ret" if c: "bit_string_contents bs"
  proof -
    have p: "p \<le> 7" using c by (simp add: bit_string_contents_def bs)
    note flags = bits_left_flags [OF p, of "str_flags ret0"]
    have block: "str_block ret = ps" "str_length ret = length ps" by (auto simp: ret_def str_block_def)
    have pad: "ps = [] \<Longrightarrow> p = 0" using c by (auto simp: bit_string_contents_def bs)
    have "nat (uint p) = unat p" by simp
    then have bl: "asn1_bit_string_length ret = (length ps, unat p)"
      using flags pad block by (simp add: asn1_bit_string_length_def ret_def Let_def)
    have last_clear: "last ps AND push_bit (unat p) 0xff = last ps" if "ps \<noteq> []"
    proof (cases "p = 0")
      case False
      with c that show ?thesis by (intro clear_padding) (simp add: bit_string_contents_def bs)
    next
      case True
      show ?thesis by (rule clear_padding) (simp add: True)
    qed
    have out: "(if 0 < length ps then ps[length ps - 1 := ps ! (length ps - 1) AND push_bit (unat p) 0xff] else ps) = ps"
      using last_clear by (cases "ps = []") (simp_all add: last_conv_nth)
    have "1 + int (length ps) = len" using len bs by simp
    moreover have "\<not> int (length ps) > INT_LIMIT - 1" using len bs by simp
    ultimately have "i2c_ASN1_BIT_STRING (Some ret) True = (len, bs)"
      unfolding i2c_ASN1_BIT_STRING_def option.case bl prod.case Let_def block bs
      using out word_eq_of_nat [OF refl, of p, symmetric] by (auto split: if_splits)
    moreover have "string_ok ret" by (auto simp: string_ok_def ret_def str_block_def)
    ultimately show ?thesis by blast
  qed
  ultimately show ?thesis using e by (auto simp: ret_def)
qed


section \<open>Contents of an INTEGER\<close>

lemma twos_abs: "\<bar>twos bs\<bar> \<le> 256 ^ length bs"
proof -
  have "int (be_nat bs) < 256 ^ length bs"
    using be_nat_less [of bs] of_nat_less_iff [of "be_nat bs" "256 ^ length bs", where 'a = int] by simp
  then show ?thesis by (auto simp: twos_def abs_if)
qed

lemma canonical_short:
  assumes "canonical_integer a" "int_value a = twos bs"
  shows "str_length a \<le> length bs + 1"
proof (cases "str_bytes a")
  case (Cons b cs)
  have l: "str_length a = Suc (length cs)"
    using assms(1) length_str_bytes [of a] Cons by (simp add: canonical_integer_def)
  have "int (be_nat (b # cs)) = \<bar>int_value a\<bar>" unfolding int_value_def Cons by (simp only: abs_minus_cancel abs_of_nat split: if_split) blast
  also have "\<dots> \<le> 256 ^ length bs" using twos_abs [of bs] assms(2) by simp
  finally have "be_nat (b # cs) \<le> 256 ^ length bs"
    using of_nat_le_iff [of "be_nat (b # cs)" "256 ^ length bs", where 'a = int] by simp
  moreover have "256 ^ length cs \<le> be_nat (b # cs)"
    using assms(1) Cons by (intro minimal_lower) (simp add: canonical_integer_def)
  ultimately have "(256 :: nat) ^ length cs \<le> 256 ^ length bs" by linarith
  then have "length cs \<le> length bs" by (rule power_le_imp_le_exp [rotated]) simp
  with l show ?thesis by simp
qed (use assms length_str_bytes [of a] in \<open>simp add: canonical_integer_def\<close>)

text \<open>Parsing the contents of an INTEGER and printing the object gives the contents back.\<close>

lemma c2i_i2c_integer:
  assumes len: "0 \<le> len" "nat len \<le> length inp" "len \<le> int ASN1_STRING_MAX" and der: "der_integer (take (nat len) inp)"
  shows "\<exists>ret. c2i_ASN1_INTEGER (\<lambda>_. True) junk out inp len = (Some ret, Some ret, drop (nat len) inp) \<and>
      canonical_integer ret \<and> int_value ret = twos (take (nat len) inp) \<and>
      i2c_ASN1_INTEGER (Some ret) True = (len, take (nat len) inp)"
proof -
  let ?bs = "take (nat len) inp"
  obtain ret where ret: "c2i_ASN1_INTEGER (\<lambda>_. True) junk out inp len = (Some ret, Some ret, drop (nat len) inp)"
    "canonical_integer ret" "int_value ret = twos ?bs"
    using c2i_ASN1_INTEGER_correct [OF len, of junk out] der by auto
  have "str_length ret < 0x7fffffff" using canonical_short [OF ret(2,3)] len by simp
  from i2c_ASN1_INTEGER_correct [OF this] obtain bs where
    bs: "i2c_ASN1_INTEGER (Some ret) True = (int (length bs), bs)" "der_integer bs" "twos bs = int_value ret" by blast
  have "bs = ?bs" using bs(2,3) der ret(3) by (intro der_integer_unique) simp_all
  moreover have "int (length ?bs) = len" using len by simp
  ultimately show ?thesis using ret bs(1) by auto
qed

end
