(* ===== verification/Crl.thy ===== *)
theory Crl
  imports Asn1_String Stack
begin

text \<open>
  The search for a revoked serial number in \<open>crypto/x509/x_crl.c\<close>, a client of the stack and of the
  integers: the list is sorted on the first search, found in by binary search, and then scanned for
  the issuer. It is shown to find a serial number exactly when the list has it.
\<close>

section \<open>The list of a CRL\<close>

text \<open>
  A name is of any type, with \<open>canon\<close> for its canonical encoding (None when encoding it fails). The
  date, extensions and reason of an entry are not looked at here: they are a value of type \<open>'e\<close>.
\<close>

record 'e X509_REVOKED =
  serialNumber :: ASN1_STRING
  revocation :: 'e

text \<open>The comparison functions that the list's stack holds.\<close>

datatype revoked_cmp_func = X509_REVOKED_cmp_func

type_synonym 'e revoked_stack = "('e X509_REVOKED, revoked_cmp_func) OPENSSL_STACK"

record ('e, 'n) X509_CRL =
  crl_issuer :: 'n
  crl_revoked :: "'e revoked_stack option"
  crl_enc_cached :: bool

definition X509_REVOKED_cmp :: "'e X509_REVOKED option \<Rightarrow> 'e X509_REVOKED option \<Rightarrow> int" where
  "X509_REVOKED_cmp a b = ASN1_STRING_cmp (serialNumber (the a)) (serialNumber (the b))"

fun call_revoked_cmp :: "revoked_cmp_func \<Rightarrow> 'e X509_REVOKED option \<Rightarrow> 'e X509_REVOKED option \<Rightarrow> int" where
  "call_revoked_cmp X509_REVOKED_cmp_func a b = X509_REVOKED_cmp a b"

text \<open>What is done with the list of a CRL that was parsed.\<close>

definition crl_inf_cb :: "('e, 'n) X509_CRL \<Rightarrow> ('e, 'n) X509_CRL" where
  "crl_inf_cb crl =
     (case crl_revoked crl of None \<Rightarrow> crl
      | Some s \<Rightarrow> crl\<lparr>crl_revoked := Some (snd (OPENSSL_sk_set_cmp_func s (Some X509_REVOKED_cmp_func)))\<rparr>)"

definition X509_CRL_add0_revoked ::
  "(nat \<Rightarrow> bool) \<Rightarrow> ('e, 'n) X509_CRL \<Rightarrow> 'e X509_REVOKED \<Rightarrow> bool \<times> ('e, 'n) X509_CRL"
where
  "X509_CRL_add0_revoked alloc crl r =
     (let crl = (case crl_revoked crl of
                   None \<Rightarrow> crl\<lparr>crl_revoked := OPENSSL_sk_new alloc (Some X509_REVOKED_cmp_func)\<rparr>
                 | Some _ \<Rightarrow> crl)
      in if crl_revoked crl = None then (False, crl)
         else (case OPENSSL_sk_push alloc (crl_revoked crl) (Some r) of
                 (n, sk) \<Rightarrow> if n = 0 then (False, crl\<lparr>crl_revoked := sk\<rparr>)
                            else (True, crl\<lparr>crl_revoked := sk, crl_enc_cached := False\<rparr>)))"

definition X509_CRL_sort :: "('e, 'n) X509_CRL \<Rightarrow> bool \<times> ('e, 'n) X509_CRL" where
  "X509_CRL_sort c =
     (True, c\<lparr>crl_revoked := OPENSSL_sk_sort call_revoked_cmp (crl_revoked c), crl_enc_cached := False\<rparr>)"

definition X509_NAME_cmp :: "('n \<Rightarrow> byte list option) \<Rightarrow> 'n \<Rightarrow> 'n \<Rightarrow> int" where
  "X509_NAME_cmp canon a b =
     (case canon a of None \<Rightarrow> -2 | Some a_enc \<Rightarrow>
      (case canon b of None \<Rightarrow> -2 | Some b_enc \<Rightarrow>
       let ret = int (length a_enc) - int (length b_enc)
       in if ret \<noteq> 0 then ret else memcmp a_enc b_enc))"

definition crl_revoked_issuer_match :: "('n \<Rightarrow> byte list option) \<Rightarrow> ('e, 'n) X509_CRL \<Rightarrow> 'n option \<Rightarrow> bool" where
  "crl_revoked_issuer_match canon crl nm \<longleftrightarrow>
     (case nm of None \<Rightarrow> True | Some nm \<Rightarrow> X509_NAME_cmp canon nm (crl_issuer crl) = 0)"

text \<open>The loop over the entries from \<open>idx\<close> on.\<close>

function crl_lookup_loop ::
  "('n \<Rightarrow> byte list option) \<Rightarrow> ('e, 'n) X509_CRL \<Rightarrow> ASN1_STRING \<Rightarrow> 'n option \<Rightarrow> nat \<Rightarrow> 'e X509_REVOKED option"
where
  "crl_lookup_loop canon crl serial issuer idx =
     (if idx < OPENSSL_sk_num (crl_revoked crl)
      then let r = the (OPENSSL_sk_value (crl_revoked crl) idx)
           in if ASN1_INTEGER_cmp (serialNumber r) serial \<noteq> 0 then None
              else if crl_revoked_issuer_match canon crl issuer then Some r
              else crl_lookup_loop canon crl serial issuer (idx + 1)
      else None)"
  by pat_completeness auto
termination
  by (relation "measure (\<lambda>(_, crl, _, _, idx). OPENSSL_sk_num (crl_revoked crl) - idx)") auto

declare crl_lookup_loop.simps [simp del]

text \<open>
  The entry that is found, or None for a return of zero, and the CRL, whose list may have been
  sorted. \<open>other\<close> is what is in the fields of \<open>rtmp\<close> that are not set.
\<close>

definition crl_lookup ::
  "('n \<Rightarrow> byte list option) \<Rightarrow> 'e \<Rightarrow> ('e, 'n) X509_CRL \<Rightarrow> ASN1_STRING \<Rightarrow> 'n option \<Rightarrow>
   'e X509_REVOKED option \<times> ('e, 'n) X509_CRL"
where
  "crl_lookup canon other crl serial issuer =
     (let rtmp = \<lparr>serialNumber = serial, revocation = other\<rparr>;
          crl = (if \<not> OPENSSL_sk_is_sorted (crl_revoked crl)
                 then crl\<lparr>crl_revoked := OPENSSL_sk_sort call_revoked_cmp (crl_revoked crl)\<rparr> else crl)
      in (case OPENSSL_sk_find call_revoked_cmp (crl_revoked crl) (Some rtmp) of
            None \<Rightarrow> (None, crl)
          | Some idx \<Rightarrow> (crl_lookup_loop canon crl serial issuer idx, crl)))"

definition X509_CRL_get0_by_serial ::
  "('n \<Rightarrow> byte list option) \<Rightarrow> 'e \<Rightarrow> ('e, 'n) X509_CRL \<Rightarrow> ASN1_STRING \<Rightarrow> 'e X509_REVOKED option \<times> ('e, 'n) X509_CRL"
where
  "X509_CRL_get0_by_serial canon other crl serial = crl_lookup canon other crl serial None"

text \<open>The certificate's serial number and issuer.\<close>

definition X509_CRL_get0_by_cert ::
  "('n \<Rightarrow> byte list option) \<Rightarrow> 'e \<Rightarrow> ('e, 'n) X509_CRL \<Rightarrow> ASN1_STRING \<times> 'n \<Rightarrow> 'e X509_REVOKED option \<times> ('e, 'n) X509_CRL"
where
  "X509_CRL_get0_by_cert canon other crl x = crl_lookup canon other crl (fst x) (Some (snd x))"

section \<open>The order of serial numbers\<close>

lemma three_way_iff:
  "three_way c \<longleftrightarrow> (\<forall>a b. c a b < 0 \<longleftrightarrow> 0 < c b a) \<and> (\<forall>a b d. c a b \<le> 0 \<longrightarrow> c b d \<le> 0 \<longrightarrow> c a d \<le> 0)"
proof -
  have "c a b \<le> 0 \<or> c b a \<le> 0" if "\<forall>a b. c a b < 0 \<longleftrightarrow> 0 < c b a" for a b
    using that by (metis less_imp_le not_less)
  then show ?thesis unfolding three_way_def comparison_def three_way_axioms_def by blast
qed

lemma three_way_number: "three_way (\<lambda>a b. if f a < (f b :: 'b :: linorder) then -1 else if f b < f a then 1 else (0 :: int))"
  unfolding three_way_iff by (auto split: if_splits)

lemma three_way_image: "three_way c \<Longrightarrow> three_way (\<lambda>a b. c (f a) (f b))"
  unfolding three_way_iff by blast

text \<open>Comparing by one order, then by another.\<close>

lemma three_way_then:
  assumes c1: "three_way c1" and c2: "three_way c2"
  shows "three_way (\<lambda>a b. if c1 a b \<noteq> 0 then c1 a b else c2 a b)"
proof -
  note sign = three_way.sign [OF c1] three_way.sign [OF c2]
  note trans = comparison.trans [OF three_way.axioms(1) [OF c1]] comparison.trans [OF three_way.axioms(1) [OF c2]]
  have zero: "c1 b a = 0" if "c1 a b = 0" for a b using sign(1) [of a b] sign(1) [of b a] that by linarith
  have "(if c1 a d \<noteq> 0 then c1 a d else c2 a d) \<le> 0"
    if ab: "(if c1 a b \<noteq> 0 then c1 a b else c2 a b) \<le> 0" and bd: "(if c1 b d \<noteq> 0 then c1 b d else c2 b d) \<le> 0" for a b d
  proof -
    have le: "c1 a b \<le> 0" "c1 b d \<le> 0" using ab bd by (auto split: if_splits)
    show ?thesis
    proof (cases "c1 a d = 0")
      case True
      then have da: "c1 d a \<le> 0" using zero by fastforce
      have "\<not> c1 a b < 0" using trans(1) [OF le(2) da] sign(1) [of a b] by linarith
      moreover have "\<not> c1 b d < 0" using trans(1) [OF da le(1)] sign(1) [of b d] by linarith
      ultimately have "c1 a b = 0" "c1 b d = 0" using le by linarith+
      with ab bd True show ?thesis using trans(2) [of a b d] by simp
    next
      case False
      with trans(1) [OF le] show ?thesis by simp
    qed
  qed
  moreover have "(if c1 a b \<noteq> 0 then c1 a b else c2 a b) < 0 \<longleftrightarrow> 0 < (if c1 b a \<noteq> 0 then c1 b a else c2 b a)" for a b
    using sign(1) [of a b] sign(1) [of b a] sign(2) [of a b] zero [of a b] zero [of b a]
    by (cases "c1 a b = 0") auto
  ultimately show ?thesis unfolding three_way_iff by blast
qed

text \<open>The length and padding that \<open>ASN1_STRING_cmp\<close> compares, and the bytes it compares then.\<close>

definition cmp_length :: "ASN1_STRING \<Rightarrow> nat \<times> nat" where
  "cmp_length a = (if str_type a = V_ASN1_BIT_STRING then asn1_bit_string_length a else (str_length a, 0))"

definition cmp_bytes :: "ASN1_STRING \<Rightarrow> byte list" where
  "cmp_bytes a = str_read a (fst (cmp_length a))"

lemma compare_set_of_element_memcmp:
  "length xs = length ys \<Longrightarrow> compare_set_of_element xs ys = memcmp xs ys"
  by (simp add: compare_set_of_element_def Let_def)

lemma length_str_read [simp]: "length (str_read s n) = n"
  by (simp add: str_read_def)

lemma ASN1_STRING_cmp_eq:
  "ASN1_STRING_cmp a b =
    (let c1 = (if fst (cmp_length a) < fst (cmp_length b) then -1 else if fst (cmp_length b) < fst (cmp_length a) then 1 else 0);
         c2 = (if snd (cmp_length b) < snd (cmp_length a) then -1 else if snd (cmp_length a) < snd (cmp_length b) then 1 else 0);
         c3 = compare_set_of_element (cmp_bytes a) (cmp_bytes b);
         c4 = (if str_type a < str_type b then -1 else if str_type b < str_type a then 1 else 0)
     in if c1 \<noteq> 0 then c1 else if c2 \<noteq> 0 then c2 else if c3 \<noteq> 0 then c3 else c4)"
proof -
  obtain la pa lb pb where ab: "cmp_length a = (la, pa)" "cmp_length b = (lb, pb)" by fastforce
  have e: "ASN1_STRING_cmp a b =
      (if la < lb then -1 else if la > lb then 1 else if pa > pb then -1 else if pa < pb then 1
       else let ret = memcmp (str_read a la) (str_read b la)
       in if ret \<noteq> 0 then ret else if str_type a < str_type b then -1 else if str_type a > str_type b then 1 else 0)"
    unfolding ASN1_STRING_cmp_def cmp_length_def [symmetric] ab by simp
  have "la = lb \<Longrightarrow> compare_set_of_element (cmp_bytes a) (cmp_bytes b) = memcmp (str_read a la) (str_read b la)"
    by (subst compare_set_of_element_memcmp) (simp_all add: cmp_bytes_def ab)
  then show ?thesis unfolding e ab by (auto simp: Let_def)
qed

lemma three_way_opposite: "three_way c \<Longrightarrow> three_way (\<lambda>a b. c b a)"
  unfolding three_way_iff by blast

lemma three_way_ASN1_STRING_cmp: "three_way ASN1_STRING_cmp"
proof -
  note number = three_way_number [THEN three_way_image]
  have "three_way (\<lambda>a b. let c1 = (if fst (cmp_length a) < fst (cmp_length b) then -1 else if fst (cmp_length b) < fst (cmp_length a) then 1 else 0);
         c2 = (if snd (cmp_length b) < snd (cmp_length a) then -1 else if snd (cmp_length a) < snd (cmp_length b) then 1 else 0);
         c3 = compare_set_of_element (cmp_bytes a) (cmp_bytes b);
         c4 = (if str_type a < str_type b then -1 else if str_type b < str_type a then 1 else 0)
     in if c1 \<noteq> 0 then c1 else if c2 \<noteq> 0 then c2 else if c3 \<noteq> 0 then c3 else c4)"
    unfolding Let_def
    by (intro three_way_then three_way_number three_way_opposite [OF three_way_number]
        three_way_image [OF set_of_order.three_way_axioms])
  then show ?thesis unfolding ASN1_STRING_cmp_eq [abs_def] .
qed

interpretation revoked_order: three_way_pointers X509_REVOKED_cmp
proof -
  have "three_way (\<lambda>a b. ASN1_STRING_cmp (serialNumber (the a)) (serialNumber (the b)))"
    by (rule three_way_image [OF three_way_ASN1_STRING_cmp])
  then show "three_way_pointers X509_REVOKED_cmp"
    unfolding three_way_pointers_def X509_REVOKED_cmp_def [abs_def] .
qed

lemma call_revoked_cmp_eq: "call_revoked_cmp c = X509_REVOKED_cmp"
  by (cases c) (simp add: fun_eq_iff)

lemma three_way_call: "three_way_pointers (call_revoked_cmp c)"
  unfolding call_revoked_cmp_eq by (rule revoked_order.three_way_pointers_axioms)

section \<open>What a search finds\<close>

lemma ASN1_STRING_cmp_eq_0:
  assumes "canonical_integer x" "canonical_integer y"
  shows "ASN1_STRING_cmp x y = 0 \<longleftrightarrow> int_value x = int_value y"
proof (cases "str_type x = str_type y")
  case True
  have "int_value x = int_value y \<longleftrightarrow> be_nat (str_bytes x) = be_nat (str_bytes y)"
    using True by (simp add: int_value_def)
  with ASN1_STRING_cmp_number [OF assms True] show ?thesis by linarith
next
  case False
  then have "ASN1_STRING_cmp x y \<noteq> 0" unfolding ASN1_STRING_cmp_eq Let_def by (auto split: if_splits)
  moreover have "int_value x \<noteq> int_value y" using canonical_types [OF assms(1)] canonical_types [OF assms(2)] False by auto
  ultimately show ?thesis by blast
qed

lemma ASN1_INTEGER_cmp_eq_0:
  assumes "canonical_integer x" "canonical_integer y"
  shows "ASN1_INTEGER_cmp x y = 0 \<longleftrightarrow> int_value x = int_value y"
  using ASN1_INTEGER_cmp_number [OF assms] by (auto simp: sgn_0_0)

definition crl_entries :: "('e, 'n) X509_CRL \<Rightarrow> 'e X509_REVOKED list" where
  "crl_entries crl = (case crl_revoked crl of None \<Rightarrow> [] | Some s \<Rightarrow> map the (sk_data s))"

text \<open>
  A CRL whose list was made by the operations of the stack, compares serial numbers, and has entries
  with canonical serial numbers.
\<close>

definition list_ok :: "'e revoked_stack \<Rightarrow> bool" where
  "list_ok s \<longleftrightarrow> sk_reachable call_revoked_cmp s \<and> sk_comp s = Some X509_REVOKED_cmp_func \<and>
     (\<forall>p \<in> set (sk_data s). \<exists>r. p = Some r \<and> canonical_integer (serialNumber r))"

definition crl_ok :: "('e, 'n) X509_CRL \<Rightarrow> bool" where
  "crl_ok crl \<longleftrightarrow> (\<forall>s. crl_revoked crl = Some s \<longrightarrow> list_ok s)"

lemma three_way_calls: "three_way (call_revoked_cmp c)"
  using three_way_call [of c] by (rule three_way_pointers.axioms)

lemma list_ok_sort:
  assumes "list_ok s"
  shows "\<exists>s'. OPENSSL_sk_sort call_revoked_cmp (Some s) = Some s' \<and> list_ok s' \<and> mset (sk_data s') = mset (sk_data s)"
proof -
  have "\<exists>s'. OPENSSL_sk_sort call_revoked_cmp (Some s) = Some s' \<and> mset (sk_data s') = mset (sk_data s) \<and> sk_comp s' = sk_comp s"
  proof (cases "sk_sorted s")
    case True
    then show ?thesis by (simp add: OPENSSL_sk_sort_unchanged)
  next
    case False
    have "sk_comp s = Some X509_REVOKED_cmp_func" using assms by (simp add: list_ok_def)
    from OPENSSL_sk_sort_correct [where call_cmp = call_revoked_cmp, OF three_way_calls this False] show ?thesis by auto
  qed
  then obtain s' where s': "OPENSSL_sk_sort call_revoked_cmp (Some s) = Some s'" "mset (sk_data s') = mset (sk_data s)"
    "sk_comp s' = sk_comp s" by blast
  have "sk_reachable call_revoked_cmp s'"
    using assms s'(1) by (auto simp: list_ok_def intro: sk_reachable_step sk_step_sort)
  then have "list_ok s'" using assms s'(3) mset_eq_setD [OF s'(2)] by (simp add: list_ok_def)
  with s' show ?thesis by blast
qed

lemma lookup_loop_unmatched:
  "\<not> crl_revoked_issuer_match canon crl issuer \<Longrightarrow> crl_lookup_loop canon crl serial issuer idx = None"
proof (induction "OPENSSL_sk_num (crl_revoked crl) - idx" arbitrary: idx rule: less_induct)
  case less
  then show ?case by (subst crl_lookup_loop.simps) (simp add: Let_def)
qed

lemma crl_lookup_exact:
  assumes ok: "crl_ok crl" and serial: "canonical_integer serial"
  shows "\<exists>found crl'. crl_lookup canon other crl serial issuer = (found, crl') \<and>
    crl_ok crl' \<and> mset (crl_entries crl') = mset (crl_entries crl) \<and>
    (case found of
       Some r \<Rightarrow> r \<in> set (crl_entries crl) \<and> int_value (serialNumber r) = int_value serial \<and>
         crl_revoked_issuer_match canon crl issuer
     | None \<Rightarrow> \<not> crl_revoked_issuer_match canon crl issuer \<or>
         (\<forall>r \<in> set (crl_entries crl). int_value (serialNumber r) \<noteq> int_value serial))"
proof (cases "crl_revoked crl")
  case None
  then show ?thesis using ok
    by (simp add: crl_lookup_def OPENSSL_sk_is_sorted_def OPENSSL_sk_find_def Let_def crl_entries_def)
next
  case (Some s)
  then have s: "list_ok s" using ok by (simp add: crl_ok_def)
  define crl' where "crl' = (if \<not> OPENSSL_sk_is_sorted (crl_revoked crl)
      then crl\<lparr>crl_revoked := OPENSSL_sk_sort call_revoked_cmp (crl_revoked crl)\<rparr> else crl)"
  obtain s' where s': "crl_revoked crl' = Some s'" "list_ok s'" "mset (sk_data s') = mset (sk_data s)"
    using list_ok_sort [OF s] s Some by (cases "OPENSSL_sk_is_sorted (crl_revoked crl)") (auto simp: crl'_def)
  have issuer: "crl_revoked_issuer_match canon crl' issuer = crl_revoked_issuer_match canon crl issuer"
  proof -
    have "crl_issuer crl' = crl_issuer crl" by (simp add: crl'_def)
    then show ?thesis by (cases issuer) (simp_all add: crl_revoked_issuer_match_def)
  qed
  have same: "set (crl_entries crl') = set (crl_entries crl)" "mset (crl_entries crl') = mset (crl_entries crl)"
    using mset_eq_setD [OF s'(3)] s'(1,3) Some by (simp_all add: crl_entries_def)
  define rtmp where "rtmp = \<lparr>serialNumber = serial, revocation = other\<rparr>"
  have wf: "sk_wf call_revoked_cmp s'"
    using s'(2) by (intro sk_reachable_wf [OF three_way_calls]) (simp add: list_ok_def)
  have find: "OPENSSL_sk_find call_revoked_cmp (Some s') (Some rtmp) =
      first_index (\<lambda>x. call_revoked_cmp X509_REVOKED_cmp_func (Some rtmp) x = 0) 0 (sk_data s')"
    using s'(2) by (intro OPENSSL_sk_find_first [OF three_way_call wf]) (simp_all add: list_ok_def)
  have hit: "call_revoked_cmp X509_REVOKED_cmp_func (Some rtmp) x = 0 \<longleftrightarrow> int_value (serialNumber (the x)) = int_value serial"
    if "x \<in> set (sk_data s')" for x
  proof -
    from that s'(2) have "canonical_integer (serialNumber (the x))" by (auto simp: list_ok_def)
    from ASN1_STRING_cmp_eq_0 [OF serial this] show ?thesis by (auto simp: X509_REVOKED_cmp_def rtmp_def)
  qed
  have lookup: "crl_lookup canon other crl serial issuer =
      (case OPENSSL_sk_find call_revoked_cmp (Some s') (Some rtmp) of
         None \<Rightarrow> (None, crl') | Some idx \<Rightarrow> (crl_lookup_loop canon crl' serial issuer idx, crl'))"
    unfolding crl_lookup_def Let_def crl'_def [symmetric] rtmp_def [symmetric] s'(1) ..
  have ok': "crl_ok crl'" using s'(1,2) by (simp add: crl_ok_def)
  show ?thesis
  proof (cases "first_index (\<lambda>x. call_revoked_cmp X509_REVOKED_cmp_func (Some rtmp) x = 0) 0 (sk_data s')")
    case None
    then have "\<forall>r \<in> set (crl_entries crl'). int_value (serialNumber r) \<noteq> int_value serial"
      using hit s'(1) by (auto simp: first_index_None crl_entries_def)
    with None lookup find same ok' show ?thesis by simp
  next
    case (Some idx)
    then obtain k where k: "k < length (sk_data s')" "idx = k"
        "call_revoked_cmp X509_REVOKED_cmp_func (Some rtmp) (sk_data s' ! k) = 0"
      by (auto simp: first_index_Some)
    then have at: "sk_data s' ! k \<in> set (sk_data s')" by simp
    define r where "r = the (sk_data s' ! k)"
    have r: "int_value (serialNumber r) = int_value serial" "canonical_integer (serialNumber r)" "r \<in> set (crl_entries crl')"
      using hit [OF at] k(3) s'(1,2) at by (auto simp: r_def list_ok_def crl_entries_def)
    show ?thesis
    proof (cases "crl_revoked_issuer_match canon crl issuer")
      case False
      then have "crl_lookup_loop canon crl' serial issuer idx = None"
        using issuer by (intro lookup_loop_unmatched) simp
      with False Some lookup find same ok' show ?thesis by simp
    next
      case True
      have "ASN1_INTEGER_cmp (serialNumber r) serial = 0" using ASN1_INTEGER_cmp_eq_0 [OF r(2) serial] r(1) by simp
      then have "crl_lookup_loop canon crl' serial issuer idx = Some r"
        using True issuer k(1,2) s'(1)
        by (subst crl_lookup_loop.simps) (simp add: r_def OPENSSL_sk_num_def OPENSSL_sk_value_def)
      with True Some lookup find same ok' r show ?thesis by simp
    qed
  qed
qed

text \<open>Adding an entry keeps the list so, and adds it.\<close>

lemma X509_CRL_add0_revoked_correct:
  assumes ok: "crl_ok crl" and r: "canonical_integer (serialNumber r)"
    and add: "X509_CRL_add0_revoked alloc crl r = (True, crl')"
  shows "crl_ok crl' \<and> crl_entries crl' = crl_entries crl @ [r] \<and> \<not> crl_enc_cached crl'"
proof -
  obtain crl1 s where crl1: "crl1 = (case crl_revoked crl of
        None \<Rightarrow> crl\<lparr>crl_revoked := OPENSSL_sk_new alloc (Some X509_REVOKED_cmp_func)\<rparr> | Some _ \<Rightarrow> crl)"
    "crl_revoked crl1 = Some s"
    using add by (auto simp: X509_CRL_add0_revoked_def Let_def split: if_splits option.splits)
  have s: "list_ok s" "map the (sk_data s) = crl_entries crl"
    using crl1 ok
    by (auto simp: crl_ok_def list_ok_def crl_entries_def OPENSSL_sk_new_def split: option.splits if_splits
        intro!: sk_reachable_new [of alloc "Some X509_REVOKED_cmp_func"])
  obtain n sk where p: "OPENSSL_sk_push alloc (Some s) (Some r) = (n, sk)" "n \<noteq> 0"
    "crl' = crl1\<lparr>crl_revoked := sk, crl_enc_cached := False\<rparr>"
    using add crl1(2) unfolding X509_CRL_add0_revoked_def crl1(1) [symmetric] Let_def
    by (auto split: if_splits prod.splits)
  have ins: "OPENSSL_sk_insert alloc (Some s) (Some r) (length (sk_data s)) = (n, sk)"
    using p(1) by (simp add: OPENSSL_sk_push_def OPENSSL_sk_num_def)
  have wf: "sk_wf call_revoked_cmp s"
    using s(1) by (intro sk_reachable_wf [OF three_way_calls]) (simp add: list_ok_def)
  obtain s2 where s2: "sk = Some s2" "sk_data s2 = sk_data s @ [Some r]" "sk_comp s2 = sk_comp s"
    using wf by (cases rule: OPENSSL_sk_insert_cases [where alloc = alloc and p = "Some r" and pos = "length (sk_data s)"])
      (use ins p(2) in auto)
  have "sk_reachable call_revoked_cmp s2"
    using s(1) ins s2(1) by (auto simp: list_ok_def intro: sk_reachable_step sk_step_insert)
  then have "list_ok s2" using s(1) s2 r by (auto simp: list_ok_def)
  with s(2) s2 p(3) show ?thesis by (simp add: crl_ok_def crl_entries_def)
qed

end
