(* ===== verification/Lhash.thy ===== *)
theory Lhash
  imports Asn1_Values
begin

text \<open>
  The chained hash table of \<open>crypto/lhash/lhash.c\<close>, with its resizing. It is shown to be a map, the
  interface \<open>dictionary\<close> of its clients, whatever the hash function does, provided that equal items
  have equal hash values.
\<close>

section \<open>The table\<close>

text \<open>
  A chain is the list of its items. \<open>num_buckets\<close> is the length of \<open>lh_buckets\<close>. The functions that
  the table holds, called through their helpers, are the parameters \<open>hash\<close> and \<open>cmp\<close>.
\<close>

record 'a LHASH_ITEM =
  item_data :: 'a
  item_hash :: u32

record 'a LHASH =
  lh_num_items :: nat
  lh_buckets :: "'a LHASH_ITEM list list"
  lh_callback_depth :: nat

abbreviation kMinNumBuckets :: nat where "kMinNumBuckets \<equiv> 16"
abbreviation kMaxAverageChainLength :: nat where "kMaxAverageChainLength \<equiv> 2"
abbreviation kMinAverageChainLength :: nat where "kMinAverageChainLength \<equiv> 1"
abbreviation UINT_MAX :: nat where "UINT_MAX \<equiv> 0xffffffff"

definition OPENSSL_lh_new :: "(nat \<Rightarrow> bool) \<Rightarrow> 'a LHASH option" where
  "OPENSSL_lh_new alloc =
     (if \<not> alloc 48 \<or> \<not> alloc (kMinNumBuckets * 8) then None
      else Some \<lparr>lh_num_items = 0, lh_buckets = replicate kMinNumBuckets [], lh_callback_depth = 0\<rparr>)"

definition OPENSSL_lh_num_items :: "'a LHASH \<Rightarrow> nat" where
  "OPENSSL_lh_num_items lh = lh_num_items lh"

text \<open>The items that are freed, in order.\<close>

definition OPENSSL_lh_free :: "'a LHASH option \<Rightarrow> 'a LHASH_ITEM list" where
  "OPENSSL_lh_free lh = (case lh of None \<Rightarrow> [] | Some lh \<Rightarrow> concat (lh_buckets lh))"

text \<open>
  The pointer to a pointer into a chain is the number of items before it; it points to NULL when that
  is the length of the chain.
\<close>

fun chain_pos :: "('a \<Rightarrow> bool) \<Rightarrow> 'a LHASH_ITEM list \<Rightarrow> nat" where
  "chain_pos is_equal [] = 0"
| "chain_pos is_equal (cur # rest) = (if is_equal (item_data cur) then 0 else Suc (chain_pos is_equal rest))"

text \<open>The hash value, the bucket and the position in it.\<close>

definition get_next_ptr_and_hash ::
  "('a \<Rightarrow> u32) \<Rightarrow> ('a \<Rightarrow> 'a \<Rightarrow> int) \<Rightarrow> 'a LHASH \<Rightarrow> 'a \<Rightarrow> u32 \<times> nat \<times> nat"
where
  "get_next_ptr_and_hash hash cmp lh data =
     (let h = hash data; bucket = unat h mod length (lh_buckets lh)
      in (h, bucket, chain_pos (\<lambda>x. cmp x data = 0) (lh_buckets lh ! bucket)))"

definition get_next_ptr_by_key ::
  "'a LHASH \<Rightarrow> 'k \<Rightarrow> u32 \<Rightarrow> ('k \<Rightarrow> 'a \<Rightarrow> int) \<Rightarrow> nat \<times> nat"
where
  "get_next_ptr_by_key lh key key_hash cmp_key =
     (let bucket = unat key_hash mod length (lh_buckets lh)
      in (bucket, chain_pos (\<lambda>x. cmp_key key x = 0) (lh_buckets lh ! bucket)))"

definition item_at :: "'a LHASH \<Rightarrow> nat \<Rightarrow> nat \<Rightarrow> 'a LHASH_ITEM option" where
  "item_at lh bucket pos =
     (if pos < length (lh_buckets lh ! bucket) then Some (lh_buckets lh ! bucket ! pos) else None)"

definition OPENSSL_lh_retrieve ::
  "('a \<Rightarrow> u32) \<Rightarrow> ('a \<Rightarrow> 'a \<Rightarrow> int) \<Rightarrow> 'a LHASH \<Rightarrow> 'a \<Rightarrow> 'a option"
where
  "OPENSSL_lh_retrieve hash cmp lh data =
     (case get_next_ptr_and_hash hash cmp lh data of
        (_, bucket, pos) \<Rightarrow> map_option item_data (item_at lh bucket pos))"

definition OPENSSL_lh_retrieve_key :: "'a LHASH \<Rightarrow> 'k \<Rightarrow> u32 \<Rightarrow> ('k \<Rightarrow> 'a \<Rightarrow> int) \<Rightarrow> 'a option" where
  "OPENSSL_lh_retrieve_key lh key key_hash cmp_key =
     (case get_next_ptr_by_key lh key key_hash cmp_key of
        (bucket, pos) \<Rightarrow> map_option item_data (item_at lh bucket pos))"

text \<open>The loops that push every item at the front of its new chain.\<close>

fun rebucket_loop :: "'a LHASH_ITEM list \<Rightarrow> 'a LHASH_ITEM list list \<Rightarrow> 'a LHASH_ITEM list list" where
  "rebucket_loop [] new_buckets = new_buckets"
| "rebucket_loop (cur # rest) new_buckets =
     (let new_bucket = unat (item_hash cur) mod length new_buckets
      in rebucket_loop rest (new_buckets[new_bucket := cur # new_buckets ! new_bucket]))"

definition lh_rebucket :: "(nat \<Rightarrow> bool) \<Rightarrow> 'a LHASH \<Rightarrow> nat \<Rightarrow> 'a LHASH" where
  "lh_rebucket alloc lh new_num_buckets =
     (let alloc_size = 8 * new_num_buckets mod 2 ^ 64
      in if alloc_size div 8 \<noteq> new_num_buckets then lh
         else if \<not> alloc alloc_size then lh
         else lh\<lparr>lh_buckets := rebucket_loop (concat (lh_buckets lh)) (replicate new_num_buckets [])\<rparr>)"

definition lh_maybe_resize :: "(nat \<Rightarrow> bool) \<Rightarrow> 'a LHASH \<Rightarrow> 'a LHASH" where
  "lh_maybe_resize alloc lh =
     (if lh_callback_depth lh > 0 then lh
      else let num_buckets = length (lh_buckets lh);
               avg_chain_length = lh_num_items lh div num_buckets
      in if avg_chain_length > kMaxAverageChainLength
         then let new_num_buckets = num_buckets * 2 mod 2 ^ 64
              in if new_num_buckets > num_buckets then lh_rebucket alloc lh new_num_buckets else lh
         else if avg_chain_length < kMinAverageChainLength \<and> num_buckets > kMinNumBuckets
         then let new_num_buckets = num_buckets div 2;
                  new_num_buckets = (if new_num_buckets < kMinNumBuckets then kMinNumBuckets else new_num_buckets)
              in lh_rebucket alloc lh new_num_buckets
         else lh)"

text \<open>The return value, \<open>*old_data\<close> and the table.\<close>

definition OPENSSL_lh_insert ::
  "(nat \<Rightarrow> bool) \<Rightarrow> ('a \<Rightarrow> u32) \<Rightarrow> ('a \<Rightarrow> 'a \<Rightarrow> int) \<Rightarrow> 'a LHASH \<Rightarrow> 'a \<Rightarrow> bool \<times> 'a option \<times> 'a LHASH"
where
  "OPENSSL_lh_insert alloc hash cmp lh data =
     (case get_next_ptr_and_hash hash cmp lh data of (h, bucket, pos) \<Rightarrow>
      (case item_at lh bucket pos of
         Some item \<Rightarrow>
           (True, Some (item_data item),
            lh\<lparr>lh_buckets := (lh_buckets lh)[bucket := (lh_buckets lh ! bucket)[pos := item\<lparr>item_data := data\<rparr>]]\<rparr>)
       | None \<Rightarrow>
           if \<not> alloc 24 then (False, None, lh)
           else let item = \<lparr>item_data = data, item_hash = h\<rparr>;
                    lh = lh\<lparr>lh_buckets := (lh_buckets lh)[bucket := lh_buckets lh ! bucket @ [item]],
                            lh_num_items := lh_num_items lh + 1\<rparr>
                in (True, None, lh_maybe_resize alloc lh)))"

definition OPENSSL_lh_delete ::
  "(nat \<Rightarrow> bool) \<Rightarrow> ('a \<Rightarrow> u32) \<Rightarrow> ('a \<Rightarrow> 'a \<Rightarrow> int) \<Rightarrow> 'a LHASH \<Rightarrow> 'a \<Rightarrow> 'a option \<times> 'a LHASH"
where
  "OPENSSL_lh_delete alloc hash cmp lh data =
     (case get_next_ptr_and_hash hash cmp lh data of (_, bucket, pos) \<Rightarrow>
      (case item_at lh bucket pos of
         None \<Rightarrow> (None, lh)
       | Some item \<Rightarrow>
           let chain = lh_buckets lh ! bucket;
               lh = lh\<lparr>lh_buckets := (lh_buckets lh)[bucket := take pos chain @ drop (pos + 1) chain],
                       lh_num_items := lh_num_items lh - 1\<rparr>
           in (Some (item_data item), lh_maybe_resize alloc lh)))"

text \<open>
  A callback that leaves the table alone and works on its argument, of type \<open>'s\<close>. The depth
  saturates, so that a decrement can follow an increment that did nothing.
\<close>

definition OPENSSL_lh_doall_arg ::
  "(nat \<Rightarrow> bool) \<Rightarrow> 'a LHASH option \<Rightarrow> ('a \<Rightarrow> 's \<Rightarrow> 's) \<Rightarrow> 's \<Rightarrow> 's \<times> 'a LHASH option"
where
  "OPENSSL_lh_doall_arg alloc lh func arg =
     (case lh of None \<Rightarrow> (arg, None) | Some lh \<Rightarrow>
      let lh = (if lh_callback_depth lh < UINT_MAX then lh\<lparr>lh_callback_depth := lh_callback_depth lh + 1\<rparr> else lh);
          arg = fold (fold (\<lambda>cur. func (item_data cur))) (lh_buckets lh) arg;
          lh = (if lh_callback_depth lh < UINT_MAX then lh\<lparr>lh_callback_depth := lh_callback_depth lh - 1\<rparr> else lh)
      in (arg, Some (lh_maybe_resize alloc lh)))"

section \<open>The invariant\<close>

text \<open>The data of the table, and the first that is equal to \<open>x\<close>.\<close>

definition lh_data :: "'a LHASH \<Rightarrow> 'a list" where
  "lh_data lh = map item_data (concat (lh_buckets lh))"

text \<open>Every item is in the bucket of its hash value, and no two are equal.\<close>

definition bucket_ok :: "('a \<Rightarrow> u32) \<Rightarrow> nat \<Rightarrow> nat \<Rightarrow> 'a LHASH_ITEM \<Rightarrow> bool" where
  "bucket_ok hash n i it \<longleftrightarrow> item_hash it = hash (item_data it) \<and> unat (item_hash it) mod n = i"

definition buckets_ok :: "('a \<Rightarrow> u32) \<Rightarrow> 'a LHASH_ITEM list list \<Rightarrow> bool" where
  "buckets_ok hash bs \<longleftrightarrow> (\<forall>i < length bs. \<forall>it \<in> set (bs ! i). bucket_ok hash (length bs) i it)"

definition no_duplicates :: "('a \<Rightarrow> 'a \<Rightarrow> int) \<Rightarrow> 'a list \<Rightarrow> bool" where
  "no_duplicates cmp xs \<longleftrightarrow> distinct xs \<and> (\<forall>x \<in> set xs. \<forall>y \<in> set xs. cmp x y = 0 \<longrightarrow> x = y)"

definition lh_wf :: "('a \<Rightarrow> u32) \<Rightarrow> ('a \<Rightarrow> 'a \<Rightarrow> int) \<Rightarrow> 'a LHASH \<Rightarrow> bool" where
  "lh_wf hash cmp lh \<longleftrightarrow> kMinNumBuckets \<le> length (lh_buckets lh) \<and> buckets_ok hash (lh_buckets lh) \<and>
     lh_num_items lh = length (lh_data lh) \<and> no_duplicates cmp (lh_data lh)"

lemma no_duplicates_mset: "mset xs = mset ys \<Longrightarrow> no_duplicates cmp xs = no_duplicates cmp ys"
  by (simp add: no_duplicates_def mset_eq_setD [of xs ys] mset_eq_imp_distinct_iff [of xs ys])

lemma chain_pos_eq: "chain_pos P chain = length (takeWhile (\<lambda>it. \<not> P (item_data it)) chain)"
  by (induction chain) auto

lemma chain_split:
  assumes "chain_pos P chain < length chain"
  shows "chain = take (chain_pos P chain) chain @ chain ! chain_pos P chain # drop (chain_pos P chain + 1) chain"
    "P (item_data (chain ! chain_pos P chain))"
  using assms id_take_nth_drop [OF assms] by (auto simp: chain_pos_eq dest: nth_length_takeWhile)

lemma chain_none: "\<not> chain_pos P chain < length chain \<longleftrightarrow> (\<forall>it \<in> set chain. \<not> P (item_data it))"
  by (induction chain) auto

lemma mset_concat_update:
  "i < length bs \<Longrightarrow> mset (concat (bs[i := c])) + mset (bs ! i) = mset (concat bs) + mset c"
proof (induction bs arbitrary: i)
  case (Cons b bs)
  then show ?case by (cases i) (auto simp: ac_simps)
qed simp

lemma mset_concat_upd:
  "i < length bs \<Longrightarrow> mset (concat (bs[i := c])) = mset (concat bs) + mset c - mset (bs ! i)"
  using mset_concat_update [of i bs c] by (metis add_diff_cancel_right')

lemma in_bucket: "i < length bs \<Longrightarrow> it \<in> set (bs ! i) \<Longrightarrow> it \<in> set (concat bs)"
  by auto

lemma buckets_ok_update:
  assumes "buckets_ok hash bs" "\<And>it. it \<in> set c \<Longrightarrow> it \<notin> set (bs ! i) \<Longrightarrow> bucket_ok hash (length bs) i it" "i < length bs"
  shows "buckets_ok hash (bs[i := c])"
  using assms unfolding buckets_ok_def by (auto simp: nth_list_update)

lemma lh_wf_bucket: "lh_wf hash cmp lh \<Longrightarrow> n mod length (lh_buckets lh) < length (lh_buckets lh)"
  by (rule mod_less_divisor) (auto simp: lh_wf_def)

section \<open>Resizing\<close>

lemma rebucket_loop_correct:
  assumes "buckets_ok hash new" "0 < length new" "\<And>it. it \<in> set items \<Longrightarrow> item_hash it = hash (item_data it)"
  shows "length (rebucket_loop items new) = length new \<and> buckets_ok hash (rebucket_loop items new) \<and>
    mset (concat (rebucket_loop items new)) = mset items + mset (concat new)"
  using assms
proof (induction items arbitrary: new)
  case (Cons cur rest)
  define i where "i = unat (item_hash cur) mod length new"
  have i: "i < length new" using Cons.prems(2) by (simp add: i_def)
  let ?new = "new[i := cur # new ! i]"
  have "buckets_ok hash ?new"
    using Cons.prems(1,3) i by (intro buckets_ok_update) (auto simp: bucket_ok_def i_def)
  then have "length (rebucket_loop rest ?new) = length ?new \<and> buckets_ok hash (rebucket_loop rest ?new) \<and>
      mset (concat (rebucket_loop rest ?new)) = mset rest + mset (concat ?new)"
    using Cons.prems(2,3) by (intro Cons.IH) auto
  moreover have "mset (concat ?new) = mset (concat new) + {#cur#}"
    using mset_concat_upd [OF i, of "cur # new ! i"] by simp
  ultimately show ?case by (simp add: Let_def flip: i_def)
qed simp

lemma item_hashes:
  "buckets_ok hash bs \<Longrightarrow> it \<in> set (concat bs) \<Longrightarrow> item_hash it = hash (item_data it)"
  by (auto simp: buckets_ok_def bucket_ok_def) (metis in_set_conv_nth)

lemma empty_buckets: "buckets_ok hash (replicate n [])"
  by (simp add: buckets_ok_def)

text \<open>A table with the same items in other buckets.\<close>

definition same_items :: "'a LHASH \<Rightarrow> 'a LHASH \<Rightarrow> bool" where
  "same_items lh lh' \<longleftrightarrow> mset (lh_data lh') = mset (lh_data lh) \<and> lh_num_items lh' = lh_num_items lh \<and>
     lh_callback_depth lh' = lh_callback_depth lh"

lemma same_items_refl [simp]: "same_items lh lh"
  by (simp add: same_items_def)

lemma lh_rebucket_correct:
  assumes wf: "lh_wf hash cmp lh" and n: "kMinNumBuckets \<le> n"
  shows "lh_wf hash cmp (lh_rebucket alloc lh n) \<and> same_items lh (lh_rebucket alloc lh n)"
proof (cases "8 * n mod 2 ^ 64 div 8 \<noteq> n \<or> \<not> alloc (8 * n mod 2 ^ 64)")
  case True
  then have "lh_rebucket alloc lh n = lh" by (auto simp: lh_rebucket_def Let_def)
  with wf show ?thesis by simp
next
  case False
  let ?bs = "rebucket_loop (concat (lh_buckets lh)) (replicate n [])"
  have e: "lh_rebucket alloc lh n = lh\<lparr>lh_buckets := ?bs\<rparr>" 
  proof -
    have "\<not> 8 * n mod 2 ^ 64 div 8 \<noteq> n" "\<not> \<not> alloc (8 * n mod 2 ^ 64)" using False by blast+
    note p = this [THEN if_not_P]
    show ?thesis unfolding lh_rebucket_def Let_def p ..
  qed
  have "length ?bs = n \<and> buckets_ok hash ?bs \<and> mset (concat ?bs) = mset (concat (lh_buckets lh))"
    using rebucket_loop_correct [OF empty_buckets, of n "concat (lh_buckets lh)" hash] item_hashes wf n
    by (auto simp: lh_wf_def)
  moreover from this have "mset (map item_data (concat ?bs)) = mset (map item_data (concat (lh_buckets lh)))"
    by (simp only: mset_map)
  ultimately show ?thesis
    using wf n no_duplicates_mset [of "map item_data (concat ?bs)" "lh_data lh" cmp]
      mset_eq_length [of "map item_data (concat ?bs)" "lh_data lh"]
    unfolding e by (simp add: lh_wf_def same_items_def lh_data_def)
qed

lemma lh_maybe_resize_cases:
  assumes "kMinNumBuckets \<le> length (lh_buckets lh)"
  obtains "lh_maybe_resize alloc lh = lh"
  | n where "kMinNumBuckets \<le> n" "lh_maybe_resize alloc lh = lh_rebucket alloc lh n"
proof -
  let ?n = "length (lh_buckets lh)"
  consider (same) "lh_maybe_resize alloc lh = lh"
    | (double) "?n * 2 mod 2 ^ 64 > ?n" "lh_maybe_resize alloc lh = lh_rebucket alloc lh (?n * 2 mod 2 ^ 64)"
    | (half) "lh_maybe_resize alloc lh =
        lh_rebucket alloc lh (if ?n div 2 < kMinNumBuckets then kMinNumBuckets else ?n div 2)"
    unfolding lh_maybe_resize_def Let_def by metis
  then show thesis
  proof cases
    case same
    then show ?thesis by (rule that(1))
  next
    case double
    from double(1) assms have "kMinNumBuckets \<le> ?n * 2 mod 2 ^ 64" by linarith
    then show ?thesis using double(2) by (rule that(2))
  next
    case half
    then show ?thesis by (rule that(2) [rotated]) simp
  qed
qed

lemma lh_maybe_resize_correct:
  assumes wf: "lh_wf hash cmp lh"
  shows "lh_wf hash cmp (lh_maybe_resize alloc lh) \<and> same_items lh (lh_maybe_resize alloc lh)"
proof -
  have "kMinNumBuckets \<le> length (lh_buckets lh)" using wf by (simp add: lh_wf_def)
  then show ?thesis
  proof (cases rule: lh_maybe_resize_cases [where alloc = alloc])
    case (2 n)
    from lh_rebucket_correct [OF wf 2(1)] show ?thesis unfolding 2(2) .
  qed (simp add: wf)
qed

section \<open>The table as a map\<close>

text \<open>
  What a client gives: an equality, as a comparison function, that the hash function respects.
\<close>

locale hashing =
  fixes hash :: "'a \<Rightarrow> u32" and cmp :: "'a \<Rightarrow> 'a \<Rightarrow> int"
  assumes cmp_refl: "cmp x x = 0"
    and cmp_sym: "cmp x y = 0 \<Longrightarrow> cmp y x = 0"
    and cmp_trans: "cmp x y = 0 \<Longrightarrow> cmp y z = 0 \<Longrightarrow> cmp x z = 0"
    and hash_cmp: "cmp x y = 0 \<Longrightarrow> hash x = hash y"

text \<open>
  What it gets: a map whose keys are the items up to that equality. \<open>put\<close> may fail, and then changes
  nothing.
\<close>

locale dictionary =
  fixes ok :: "'t \<Rightarrow> bool" and lookup :: "'t \<Rightarrow> 'a \<Rightarrow> 'a option"
    and put :: "(nat \<Rightarrow> bool) \<Rightarrow> 't \<Rightarrow> 'a \<Rightarrow> bool \<times> 'a option \<times> 't" and eq :: "'a \<Rightarrow> 'a \<Rightarrow> bool"
  assumes lookup_eq: "ok t \<Longrightarrow> lookup t x = Some y \<Longrightarrow> eq y x"
    and lookup_cong: "ok t \<Longrightarrow> eq d x \<Longrightarrow> lookup t d = lookup t x"
    and put_done: "ok t \<Longrightarrow> put alloc t d = (True, old, t') \<Longrightarrow>
      ok t' \<and> old = lookup t d \<and> (\<forall>x. lookup t' x = (if eq d x then Some d else lookup t x))"
    and put_failed: "put alloc t d = (False, old, t') \<Longrightarrow> t' = t"

text \<open>Insertions of items that are not there, the only ones some clients make.\<close>

inductive extended ::
  "('t \<Rightarrow> 'a \<Rightarrow> 'a option) \<Rightarrow> ((nat \<Rightarrow> bool) \<Rightarrow> 't \<Rightarrow> 'a \<Rightarrow> bool \<times> 'a option \<times> 't) \<Rightarrow> 't \<Rightarrow> 't \<Rightarrow> bool"
  for lookup put t where
  extended_refl: "extended lookup put t t"
| extended_put: "extended lookup put t t1 \<Longrightarrow> lookup t1 d = None \<Longrightarrow> put alloc t1 d = (made, old, t2) \<Longrightarrow>
    extended lookup put t t2"

context dictionary begin

lemma put_cases:
  assumes "ok t" "put alloc t d = (made, old, t')"
  shows "ok t' \<and> (\<forall>x. lookup t' x = (if made \<and> eq d x then Some d else lookup t x))"
  using assms put_done [of t alloc d old t'] put_failed [of alloc t d old t'] by (cases made) auto

text \<open>What such a client has found stays what it finds.\<close>

lemma extended_keeps:
  assumes "extended lookup put t t'" "ok t"
  shows "ok t' \<and> (\<forall>x y. lookup t x = Some y \<longrightarrow> lookup t' x = Some y)"
  using assms
proof (induction rule: extended.induct)
  case (extended_put t1 d alloc made old t2)
  then have t1: "ok t1" "\<forall>x y. lookup t x = Some y \<longrightarrow> lookup t1 x = Some y" by simp_all
  have t2: "ok t2 \<and> (\<forall>x. lookup t2 x = (if made \<and> eq d x then Some d else lookup t1 x))"
    using put_cases [OF t1(1) extended_put.hyps(3)] .
  have "lookup t2 x = Some y" if "lookup t x = Some y" for x y
  proof -
    have y: "lookup t1 x = Some y" using t1(2) that by blast
    then have "\<not> eq d x" using lookup_cong [OF t1(1), of d x] extended_put.hyps(2) by auto
    with t2 y show ?thesis by simp
  qed
  with t2 show ?case by blast
qed simp

end

section \<open>The operations\<close>

text \<open>A bucket taken apart at the item that is equal to \<open>x\<close>, if there is one.\<close>

lemma in_lh_data: "y \<in> set (lh_data lh) \<longleftrightarrow> (\<exists>i < length (lh_buckets lh). y \<in> item_data ` set (lh_buckets lh ! i))"
  unfolding lh_data_def set_map set_concat set_conv_nth [of "lh_buckets lh"] by auto

context hashing begin

lemma in_own_bucket:
  assumes wf: "lh_wf hash cmp lh" and y: "y \<in> set (lh_data lh)" and eq: "cmp y x = 0"
  shows "y \<in> item_data ` set (lh_buckets lh ! (unat (hash x) mod length (lh_buckets lh)))"
proof -
  obtain i it where "i < length (lh_buckets lh)" "it \<in> set (lh_buckets lh ! i)" "y = item_data it"
    using y by (auto simp: in_lh_data)
  moreover from this have "unat (hash y) mod length (lh_buckets lh) = i"
    using wf unfolding lh_wf_def buckets_ok_def bucket_ok_def by metis
  ultimately show ?thesis using hash_cmp [OF eq] by auto
qed

lemma ptr_cases:
  assumes wf: "lh_wf hash cmp lh" and p: "get_next_ptr_and_hash hash cmp lh x = (h, b, pos)"
  obtains (absent) "item_at lh b pos = None" "\<forall>y \<in> set (lh_data lh). cmp y x \<noteq> 0"
    | (present) it where "item_at lh b pos = Some it" "pos < length (lh_buckets lh ! b)"
      "it = lh_buckets lh ! b ! pos" "item_data it \<in> set (lh_data lh)" "cmp (item_data it) x = 0"
proof -
  let ?chain = "lh_buckets lh ! b"
  have pos: "pos = chain_pos (\<lambda>y. cmp y x = 0) ?chain" and b: "b = unat (hash x) mod length (lh_buckets lh)"
    using p by (auto simp: get_next_ptr_and_hash_def Let_def)
  have bl: "b < length (lh_buckets lh)" using lh_wf_bucket [OF wf] by (simp add: b)
  show ?thesis
  proof (cases "pos < length ?chain")
    case True
    with chain_split(2) [of "\<lambda>y. cmp y x = 0" ?chain] have "cmp (item_data (?chain ! pos)) x = 0" by (simp add: pos)
    with True bl show ?thesis by (intro present [of "?chain ! pos"]) (auto simp: item_at_def in_lh_data)
  next
    case False
    then have "\<forall>it \<in> set ?chain. cmp (item_data it) x \<noteq> 0" using chain_none [of "\<lambda>y. cmp y x = 0" ?chain] by (simp add: pos)
    then have "\<forall>y \<in> set (lh_data lh). cmp y x \<noteq> 0" using in_own_bucket [OF wf] b by fastforce
    with False show ?thesis by (intro absent) (simp_all add: item_at_def)
  qed
qed

lemma ptr_bucket:
  "lh_wf hash cmp lh \<Longrightarrow> get_next_ptr_and_hash hash cmp lh x = (h, b, pos) \<Longrightarrow>
   b < length (lh_buckets lh) \<and> h = hash x \<and> unat h mod length (lh_buckets lh) = b"
  by (auto simp: get_next_ptr_and_hash_def Let_def lh_wf_bucket)

lemma retrieve_iff:
  assumes wf: "lh_wf hash cmp lh"
  shows "OPENSSL_lh_retrieve hash cmp lh x = Some y \<longleftrightarrow> y \<in> set (lh_data lh) \<and> cmp y x = 0"
proof -
  obtain h b pos where p: "get_next_ptr_and_hash hash cmp lh x = (h, b, pos)" by (metis prod_cases3)
  from wf p show ?thesis
  proof (cases rule: ptr_cases)
    case absent
    then show ?thesis using p by (auto simp: OPENSSL_lh_retrieve_def)
  next
    case (present it)
    have "y = item_data it" if "y \<in> set (lh_data lh)" "cmp y x = 0"
      using wf that present(4,5) cmp_trans cmp_sym unfolding lh_wf_def no_duplicates_def by blast
    with present p show ?thesis by (auto simp: OPENSSL_lh_retrieve_def)
  qed
qed

lemma retrieve_None:
  "lh_wf hash cmp lh \<Longrightarrow> OPENSSL_lh_retrieve hash cmp lh x = None \<longleftrightarrow> (\<forall>y \<in> set (lh_data lh). cmp y x \<noteq> 0)"
  using retrieve_iff [of lh x] by (metis not_None_eq)

lemma retrieve_same_data:
  assumes "lh_wf hash cmp lh" "lh_wf hash cmp lh'" "set (lh_data lh') = set (lh_data lh)"
  shows "OPENSSL_lh_retrieve hash cmp lh' x = OPENSSL_lh_retrieve hash cmp lh x"
proof (cases "OPENSSL_lh_retrieve hash cmp lh x")
  case None
  with assms show ?thesis using retrieve_None by metis
next
  case (Some y)
  with assms show ?thesis using retrieve_iff by metis
qed

lemma same_items_data: "same_items lh lh' \<Longrightarrow> set (lh_data lh') = set (lh_data lh)"
  unfolding same_items_def by (metis mset_eq_setD)

end


text \<open>What the operations do to the data.\<close>

definition lh_update :: "'a LHASH \<Rightarrow> nat \<Rightarrow> 'a LHASH_ITEM list \<Rightarrow> nat \<Rightarrow> 'a LHASH" where
  "lh_update lh b chain n = lh\<lparr>lh_buckets := (lh_buckets lh)[b := chain], lh_num_items := n\<rparr>"

lemma lh_update_wf:
  assumes wf: "lh_wf hash cmp lh" and b: "b < length (lh_buckets lh)"
    and chain: "\<And>it. it \<in> set chain \<Longrightarrow> it \<notin> set (lh_buckets lh ! b) \<Longrightarrow> bucket_ok hash (length (lh_buckets lh)) b it"
    and data: "mset (lh_data (lh_update lh b chain n)) = D" and n: "n = size D"
    and nd: "mset xs = D" "no_duplicates cmp xs"
  shows "lh_wf hash cmp (lh_update lh b chain n)"
proof -
  have "buckets_ok hash ((lh_buckets lh)[b := chain])"
    using wf chain b by (intro buckets_ok_update) (auto simp: lh_wf_def)
  moreover have "no_duplicates cmp (lh_data (lh_update lh b chain n))"
    using no_duplicates_mset [of "lh_data (lh_update lh b chain n)" xs cmp] data nd by simp
  moreover have "n = length (lh_data (lh_update lh b chain n))"
    using data n by (metis size_mset)
  ultimately show ?thesis using wf by (simp add: lh_wf_def lh_update_def)
qed

lemma mset_lh_update:
  assumes "b < length (lh_buckets lh)"
  shows "mset (lh_data (lh_update lh b chain n)) + image_mset item_data (mset (lh_buckets lh ! b)) =
    mset (lh_data lh) + image_mset item_data (mset chain)"
  using arg_cong [OF mset_concat_update [OF assms, of chain], of "image_mset item_data"]
  by (simp add: lh_data_def lh_update_def)

context hashing begin

lemma added_no_duplicates:
  "no_duplicates cmp xs \<Longrightarrow> \<forall>x \<in> set xs. cmp x d \<noteq> 0 \<Longrightarrow> no_duplicates cmp (d # xs)"
  unfolding no_duplicates_def by (auto simp: cmp_refl dest: cmp_sym)

lemma removed_no_duplicates: "no_duplicates cmp xs \<Longrightarrow> no_duplicates cmp (remove1 y xs)"
  unfolding no_duplicates_def by (auto dest: notin_set_remove1)

lemma replaced_no_duplicates:
  assumes nd: "no_duplicates cmp xs" and y: "y \<in> set xs" "cmp y d = 0"
  shows "no_duplicates cmp (d # remove1 y xs)"
proof (rule added_no_duplicates [OF removed_no_duplicates [OF nd]], intro ballI notI)
  fix x assume x: "x \<in> set (remove1 y xs)" "cmp x d = 0"
  then have "cmp x y = 0" using y(2) cmp_sym cmp_trans by blast
  moreover have "x \<in> set xs" "x \<noteq> y" using x(1) nd by (auto simp: no_duplicates_def)
  ultimately show False using nd y(1) by (auto simp: no_duplicates_def)
qed

text \<open>An insertion that finds an equal item replaces its data.\<close>

lemma insert_present:
  assumes wf: "lh_wf hash cmp lh" and old: "OPENSSL_lh_retrieve hash cmp lh d = Some y"
  shows "\<exists>lh'. OPENSSL_lh_insert alloc hash cmp lh d = (True, Some y, lh') \<and> lh_wf hash cmp lh' \<and>
    mset (lh_data lh') = mset (lh_data lh) - {#y#} + {#d#} \<and> lh_num_items lh' = lh_num_items lh"
proof -
  obtain h b pos where p: "get_next_ptr_and_hash hash cmp lh d = (h, b, pos)" by (metis prod_cases3)
  note bucket = ptr_bucket [OF wf p]
  from wf p show ?thesis
  proof (cases rule: ptr_cases)
    case absent
    with old p show ?thesis by (simp add: OPENSSL_lh_retrieve_def)
  next
    case (present it)
    then have y: "y = item_data it" using old p by (simp add: OPENSSL_lh_retrieve_def)
    let ?chain = "lh_buckets lh ! b"
    let ?new = "?chain[pos := it\<lparr>item_data := d\<rparr>]"
    define lh' where "lh' = lh_update lh b ?new (lh_num_items lh)"
    have ins: "OPENSSL_lh_insert alloc hash cmp lh d = (True, Some y, lh')"
      using p present(1) by (simp add: OPENSSL_lh_insert_def y lh'_def lh_update_def)
    have it_hash: "item_hash it = hash (item_data it)"
      using wf bucket present(2,3) by (auto simp: lh_wf_def buckets_ok_def bucket_ok_def)
    also have "\<dots> = hash d" by (rule hash_cmp [OF present(5)])
    finally have new_ok: "bucket_ok hash (length (lh_buckets lh)) b (it\<lparr>item_data := d\<rparr>)"
      using bucket by (auto simp: bucket_ok_def)
    have "mset ?new = mset ?chain - {#it#} + {#it\<lparr>item_data := d\<rparr>#}"
      using present(2,3) by (simp add: mset_update)
    moreover have "it \<in># mset ?chain" using present(2,3) by simp
    then have split: "mset ?chain = add_mset it (mset ?chain - {#it#})" by (simp add: insert_DiffM)
    moreover have "image_mset item_data (mset ?chain) = add_mset y (image_mset item_data (mset ?chain - {#it#}))"
      using arg_cong [OF split, of "image_mset item_data"] by (simp add: y)
    ultimately have img: "image_mset item_data (mset ?new) + {#y#} = image_mset item_data (mset ?chain) + {#d#}"
      by simp
    have y_in: "y \<in># mset (lh_data lh)" using present(4) y by simp
    have "mset (lh_data lh') + image_mset item_data (mset ?chain) + {#y#} =
        mset (lh_data lh) + (image_mset item_data (mset ?new) + {#y#})"
      using mset_lh_update [of b lh ?new "lh_num_items lh"] bucket by (simp add: lh'_def)
    then have "mset (lh_data lh') + {#y#} = mset (lh_data lh) + {#d#}" unfolding img by simp
    moreover have L: "mset (lh_data lh) = mset (lh_data lh) - {#y#} + {#y#}"
      using insert_DiffM [OF y_in] by simp
    ultimately have "mset (lh_data lh') + {#y#} = (mset (lh_data lh) - {#y#} + {#d#}) + {#y#}"
      by (metis add.assoc add.commute)
    then have data: "mset (lh_data lh') = mset (lh_data lh) - {#y#} + {#d#}" by (rule add_right_imp_eq)
    have "lh_wf hash cmp lh'"
      unfolding lh'_def
    proof (rule lh_update_wf [OF wf])
      show "mset (lh_data (lh_update lh b ?new (lh_num_items lh))) = mset (lh_data lh) - {#y#} + {#d#}"
        using data by (simp only: lh'_def)
      show "lh_num_items lh = size (mset (lh_data lh) - {#y#} + {#d#})"
        using arg_cong [OF L, of size] wf by (simp add: lh_wf_def)
      show "mset (d # remove1 y (lh_data lh)) = mset (lh_data lh) - {#y#} + {#d#}" by simp
      show "no_duplicates cmp (d # remove1 y (lh_data lh))"
        using wf present(4,5) y by (intro replaced_no_duplicates) (simp_all add: lh_wf_def)
    qed (use bucket new_ok in \<open>auto dest: set_update_subset_insert [THEN subsetD]\<close>)
    with ins data show ?thesis by (auto simp: lh'_def lh_update_def)
  qed
qed

lemma insert_absent:
  assumes wf: "lh_wf hash cmp lh" and none: "OPENSSL_lh_retrieve hash cmp lh d = None"
  shows "OPENSSL_lh_insert alloc hash cmp lh d = (False, None, lh) \<and> \<not> alloc 24 \<or>
    (\<exists>lh'. OPENSSL_lh_insert alloc hash cmp lh d = (True, None, lh') \<and> lh_wf hash cmp lh' \<and>
      mset (lh_data lh') = mset (lh_data lh) + {#d#} \<and> lh_num_items lh' = lh_num_items lh + 1)"
proof -
  obtain h b pos where p: "get_next_ptr_and_hash hash cmp lh d = (h, b, pos)" by (metis prod_cases3)
  note bucket = ptr_bucket [OF wf p]
  from wf p show ?thesis
  proof (cases rule: ptr_cases)
    case (present it)
    with none p show ?thesis by (simp add: OPENSSL_lh_retrieve_def)
  next
    case absent
    show ?thesis
    proof (cases "alloc 24")
      case False
      with absent p show ?thesis by (simp add: OPENSSL_lh_insert_def)
    next
      case True
      let ?item = "\<lparr>item_data = d, item_hash = h\<rparr>" and ?chain = "lh_buckets lh ! b"
      let ?lh1 = "lh_update lh b (?chain @ [?item]) (lh_num_items lh + 1)"
      have ins: "OPENSSL_lh_insert alloc hash cmp lh d = (True, None, lh_maybe_resize alloc ?lh1)"
        using p absent(1) True by (simp add: OPENSSL_lh_insert_def lh_update_def Let_def)
      have data: "mset (lh_data ?lh1) = mset (lh_data lh) + {#d#}"
        using mset_lh_update [of b lh "?chain @ [?item]" "lh_num_items lh + 1"] bucket by simp
      have "lh_wf hash cmp ?lh1"
      proof (rule lh_update_wf [OF wf _ _ data])
        show "lh_num_items lh + 1 = size (mset (lh_data lh) + {#d#})" using wf by (simp add: lh_wf_def)
        show "mset (d # lh_data lh) = mset (lh_data lh) + {#d#}" by simp
        show "no_duplicates cmp (d # lh_data lh)"
          using wf absent(2) by (intro added_no_duplicates) (simp_all add: lh_wf_def)
      qed (use bucket in \<open>auto simp: bucket_ok_def\<close>)
      from lh_maybe_resize_correct [OF this, of alloc] data ins show ?thesis
        by (auto simp: same_items_def lh_update_def)
    qed
  qed
qed

lemma delete_cases:
  assumes wf: "lh_wf hash cmp lh"
  shows "\<exists>lh'. OPENSSL_lh_delete alloc hash cmp lh d = (OPENSSL_lh_retrieve hash cmp lh d, lh') \<and> lh_wf hash cmp lh' \<and>
    mset (lh_data lh') = mset (lh_data lh) - mset_set (set_option (OPENSSL_lh_retrieve hash cmp lh d))"
proof -
  obtain h b pos where p: "get_next_ptr_and_hash hash cmp lh d = (h, b, pos)" by (metis prod_cases3)
  note bucket = ptr_bucket [OF wf p]
  from wf p show ?thesis
  proof (cases rule: ptr_cases)
    case absent
    with p wf show ?thesis by (simp add: OPENSSL_lh_retrieve_def OPENSSL_lh_delete_def)
  next
    case (present it)
    let ?chain = "lh_buckets lh ! b"
    let ?rest = "take pos ?chain @ drop (pos + 1) ?chain"
    let ?lh1 = "lh_update lh b ?rest (lh_num_items lh - 1)"
    have ret: "OPENSSL_lh_retrieve hash cmp lh d = Some (item_data it)"
      using p present(1) by (simp add: OPENSSL_lh_retrieve_def)
    have del: "OPENSSL_lh_delete alloc hash cmp lh d = (Some (item_data it), lh_maybe_resize alloc ?lh1)"
      using p present(1) by (simp add: OPENSSL_lh_delete_def lh_update_def Let_def)
    have chain: "?chain = take pos ?chain @ it # drop (pos + 1) ?chain"
      using id_take_nth_drop [OF present(2)] present(3) by simp
    have "mset ?chain = mset (take pos ?chain @ it # drop (pos + 1) ?chain)" by (rule arg_cong [OF chain])
    then have "mset ?chain = mset ?rest + {#it#}" by simp
    from arg_cong [OF this, of "image_mset item_data"]
    have img: "image_mset item_data (mset ?chain) = image_mset item_data (mset ?rest) + {#item_data it#}"
      by (simp only: image_mset_union image_mset_single)
    have "(mset (lh_data ?lh1) + {#item_data it#}) + image_mset item_data (mset ?rest) =
        mset (lh_data lh) + image_mset item_data (mset ?rest)"
      using mset_lh_update [of b lh ?rest "lh_num_items lh - 1"] bucket unfolding img by (simp only: ac_simps)
    then have "mset (lh_data ?lh1) + {#item_data it#} = mset (lh_data lh)" by (rule add_right_imp_eq)
    then have data: "mset (lh_data ?lh1) = mset (lh_data lh) - {#item_data it#}"
      by (metis add_diff_cancel_right')
    have "lh_wf hash cmp ?lh1"
    proof (rule lh_update_wf [OF wf _ _ data])
      show "lh_num_items lh - 1 = size (mset (lh_data lh) - {#item_data it#})"
        using wf present(4) by (simp add: lh_wf_def size_Diff_singleton)
      show "mset (remove1 (item_data it) (lh_data lh)) = mset (lh_data lh) - {#item_data it#}" by simp
      show "no_duplicates cmp (remove1 (item_data it) (lh_data lh))"
        using wf by (intro removed_no_duplicates) (simp add: lh_wf_def)
    qed (use bucket in \<open>auto dest: in_set_takeD in_set_dropD\<close>)
    from lh_maybe_resize_correct [OF this, of alloc] data del ret show ?thesis
      by (auto simp: same_items_def)
  qed
qed

end


sublocale hashing \<subseteq> table: dictionary "lh_wf hash cmp" "OPENSSL_lh_retrieve hash cmp"
    "\<lambda>alloc. OPENSSL_lh_insert alloc hash cmp" "\<lambda>x y. cmp x y = 0"
proof
  fix lh :: "'a LHASH" and x y
  assume "lh_wf hash cmp lh" "OPENSSL_lh_retrieve hash cmp lh x = Some y"
  then show "cmp y x = 0" using retrieve_iff by blast
next
  fix lh :: "'a LHASH" and d x
  assume wf: "lh_wf hash cmp lh" and eq: "cmp d x = 0"
  have "cmp y d = 0 \<longleftrightarrow> cmp y x = 0" for y using eq cmp_sym cmp_trans by blast
  then have "OPENSSL_lh_retrieve hash cmp lh d = Some y \<longleftrightarrow> OPENSSL_lh_retrieve hash cmp lh x = Some y" for y
    using retrieve_iff [OF wf] by simp
  then show "OPENSSL_lh_retrieve hash cmp lh d = OPENSSL_lh_retrieve hash cmp lh x"
    by (metis option.exhaust)
next
  fix lh lh' :: "'a LHASH" and alloc d old
  assume wf: "lh_wf hash cmp lh" and ins: "OPENSSL_lh_insert alloc hash cmp lh d = (True, old, lh')"
  have "lh_wf hash cmp lh' \<and> old = OPENSSL_lh_retrieve hash cmp lh d \<and>
    mset (lh_data lh') = mset (lh_data lh) - mset_set (set_option old) + {#d#}"
  proof (cases "OPENSSL_lh_retrieve hash cmp lh d")
    case None
    with insert_absent [OF wf None, of alloc] ins show ?thesis by auto
  next
    case (Some y)
    with insert_present [OF wf Some, of alloc] ins show ?thesis by auto
  qed
  then have wf': "lh_wf hash cmp lh'" and old: "old = OPENSSL_lh_retrieve hash cmp lh d"
    and data: "mset (lh_data lh') = mset (lh_data lh) - mset_set (set_option old) + {#d#}" by blast+
  have d: "d \<in> set (lh_data lh')" using arg_cong [OF data, of set_mset] by simp
  have "OPENSSL_lh_retrieve hash cmp lh' x = (if cmp d x = 0 then Some d else OPENSSL_lh_retrieve hash cmp lh x)" for x
  proof (cases "cmp d x = 0")
    case True
    with d show ?thesis using retrieve_iff [OF wf'] by simp
  next
    case False
    have "y \<in> set (lh_data lh') \<longleftrightarrow> y \<in> set (lh_data lh)" if "cmp y x = 0" for y
    proof -
      have "y \<noteq> d" using that False by blast
      moreover have "y \<notin> set_option old"
        using old retrieve_iff [OF wf] that False cmp_sym cmp_trans by (metis elem_set)
      ultimately have "count (mset (lh_data lh')) y = count (mset (lh_data lh)) y" unfolding data by simp
      then show ?thesis by (metis count_greater_zero_iff set_mset_mset)
    qed
    then have "OPENSSL_lh_retrieve hash cmp lh' x = Some y \<longleftrightarrow> OPENSSL_lh_retrieve hash cmp lh x = Some y" for y
      using retrieve_iff [OF wf] retrieve_iff [OF wf'] by blast
    with False show ?thesis by (metis option.exhaust)
  qed
  with wf' old show "lh_wf hash cmp lh' \<and> old = OPENSSL_lh_retrieve hash cmp lh d \<and>
      (\<forall>x. OPENSSL_lh_retrieve hash cmp lh' x = (if cmp d x = 0 then Some d else OPENSSL_lh_retrieve hash cmp lh x))"
    by blast
next
  fix lh lh' :: "'a LHASH" and alloc d old
  assume "OPENSSL_lh_insert alloc hash cmp lh d = (False, old, lh')"
  then show "lh' = lh" by (auto simp: OPENSSL_lh_insert_def Let_def split: prod.splits option.splits if_splits)
qed


lemma option_eqI: "(\<And>y. a = Some y \<longleftrightarrow> b = Some y) \<Longrightarrow> a = b"
  by (cases a; cases b) auto

context hashing begin

lemma delete_lookup:
  assumes wf: "lh_wf hash cmp lh" and del: "OPENSSL_lh_delete alloc hash cmp lh d = (old, lh')"
  shows "lh_wf hash cmp lh' \<and> old = OPENSSL_lh_retrieve hash cmp lh d \<and>
    (\<forall>x. OPENSSL_lh_retrieve hash cmp lh' x = (if cmp d x = 0 then None else OPENSSL_lh_retrieve hash cmp lh x))"
proof -
  have wf': "lh_wf hash cmp lh'" and old: "old = OPENSSL_lh_retrieve hash cmp lh d"
    and data: "mset (lh_data lh') = mset (lh_data lh) - mset_set (set_option old)"
    using delete_cases [OF wf, of alloc d] unfolding del prod.inject by blast+
  have left: "y \<in> set (lh_data lh') \<longleftrightarrow> y \<in> set (lh_data lh) \<and> old \<noteq> Some y" for y
  proof (cases old)
    case None
    with data show ?thesis using mset_eq_setD [of "lh_data lh'" "lh_data lh"] by simp
  next
    case (Some z)
    then have "mset (lh_data lh') = mset (remove1 z (lh_data lh))" using data by simp
    then have "set (lh_data lh') = set (remove1 z (lh_data lh))" by (rule mset_eq_setD)
    also have "\<dots> = set (lh_data lh) - {z}"
      using wf by (intro set_remove1_eq) (simp add: lh_wf_def no_duplicates_def)
    finally show ?thesis using Some by auto
  qed
  have removed: "old = Some y \<longleftrightarrow> y \<in> set (lh_data lh) \<and> cmp y d = 0" for y
    unfolding old by (rule retrieve_iff [OF wf])
  have same: "cmp y d = 0 \<longleftrightarrow> cmp d x = 0" if "cmp y x = 0" for x y
    using that cmp_sym cmp_trans by blast
  have "OPENSSL_lh_retrieve hash cmp lh' x = (if cmp d x = 0 then None else OPENSSL_lh_retrieve hash cmp lh x)" for x
  proof (rule option_eqI)
    fix y
    show "OPENSSL_lh_retrieve hash cmp lh' x = Some y \<longleftrightarrow>
        (if cmp d x = 0 then None else OPENSSL_lh_retrieve hash cmp lh x) = Some y"
      using left [of y] removed [of y] same [of y x]
      unfolding retrieve_iff [OF wf'] by (cases "cmp d x = 0"; cases "cmp y x = 0") (simp_all add: retrieve_iff [OF wf])
  qed
  with wf' old show ?thesis by blast
qed

end

text \<open>The dictionary of any hash table.\<close>

context hashing begin

lemma is_dictionary:
  "dictionary (lh_wf hash cmp) (OPENSSL_lh_retrieve hash cmp)
     (\<lambda>alloc. OPENSSL_lh_insert alloc hash cmp) (\<lambda>x y. cmp x y = 0)"
  by unfold_locales

end

end
