(* ===== verification/String_Table.thy ===== *)
theory String_Table
  imports Lhash
begin

text \<open>
  The table of string types and bounds by NID, \<open>crypto/asn1/a_strnid.c\<close>: a constant array that is
  searched first, and a hash table that grows. It is a client of the hash table, which interprets
  \<open>hashing\<close> on its functions; several threads may add to it.
\<close>

section \<open>The table\<close>

record ASN1_STRING_TABLE =
  nid :: int
  minsize :: int
  maxsize :: int
  mask_of :: u64
  flags :: u64

abbreviation B_ASN1_PRINTABLESTRING :: u64 where "B_ASN1_PRINTABLESTRING \<equiv> 0x0002"
abbreviation B_ASN1_T61STRING :: u64 where "B_ASN1_T61STRING \<equiv> 0x0004"
abbreviation B_ASN1_IA5STRING :: u64 where "B_ASN1_IA5STRING \<equiv> 0x0010"
abbreviation B_ASN1_UNIVERSALSTRING :: u64 where "B_ASN1_UNIVERSALSTRING \<equiv> 0x0100"
abbreviation B_ASN1_BMPSTRING :: u64 where "B_ASN1_BMPSTRING \<equiv> 0x0800"
abbreviation B_ASN1_UTF8STRING :: u64 where "B_ASN1_UTF8STRING \<equiv> 0x2000"
abbreviation STABLE_NO_MASK :: u64 where "STABLE_NO_MASK \<equiv> 0x02"

definition DIRSTRING_TYPE :: u64 where
  "DIRSTRING_TYPE = B_ASN1_PRINTABLESTRING OR B_ASN1_T61STRING OR B_ASN1_BMPSTRING OR B_ASN1_UTF8STRING"

definition PKCS9STRING_TYPE :: u64 where
  "PKCS9STRING_TYPE = DIRSTRING_TYPE OR B_ASN1_IA5STRING"

abbreviation string_row :: "int \<Rightarrow> int \<Rightarrow> int \<Rightarrow> u64 \<Rightarrow> u64 \<Rightarrow> ASN1_STRING_TABLE" where
  "string_row n mn mx mk fl \<equiv> \<lparr>nid = n, minsize = mn, maxsize = mx, mask_of = mk, flags = fl\<rparr>"

abbreviation ub_name :: int where "ub_name \<equiv> 32768"
abbreviation ub_common_name :: int where "ub_common_name \<equiv> 64"
abbreviation ub_locality_name :: int where "ub_locality_name \<equiv> 128"
abbreviation ub_state_name :: int where "ub_state_name \<equiv> 128"
abbreviation ub_organization_name :: int where "ub_organization_name \<equiv> 64"
abbreviation ub_organization_unit_name :: int where "ub_organization_unit_name \<equiv> 64"
abbreviation ub_email_address :: int where "ub_email_address \<equiv> 128"
abbreviation ub_serial_number :: int where "ub_serial_number \<equiv> 64"

definition tbl_standard :: "ASN1_STRING_TABLE list" where
  "tbl_standard =
    [string_row 13 1 ub_common_name DIRSTRING_TYPE 0,
     string_row 14 2 2 B_ASN1_PRINTABLESTRING STABLE_NO_MASK,
     string_row 15 1 ub_locality_name DIRSTRING_TYPE 0,
     string_row 16 1 ub_state_name DIRSTRING_TYPE 0,
     string_row 17 1 ub_organization_name DIRSTRING_TYPE 0,
     string_row 18 1 ub_organization_unit_name DIRSTRING_TYPE 0,
     string_row 48 1 ub_email_address B_ASN1_IA5STRING STABLE_NO_MASK,
     string_row 49 1 (-1) PKCS9STRING_TYPE 0,
     string_row 54 1 (-1) PKCS9STRING_TYPE 0,
     string_row 55 1 (-1) DIRSTRING_TYPE 0,
     string_row 99 1 ub_name DIRSTRING_TYPE 0,
     string_row 100 1 ub_name DIRSTRING_TYPE 0,
     string_row 101 1 ub_name DIRSTRING_TYPE 0,
     string_row 105 1 ub_serial_number B_ASN1_PRINTABLESTRING STABLE_NO_MASK,
     string_row 156 (-1) (-1) B_ASN1_BMPSTRING STABLE_NO_MASK,
     string_row 173 1 ub_name DIRSTRING_TYPE 0,
     string_row 174 (-1) (-1) B_ASN1_PRINTABLESTRING STABLE_NO_MASK,
     string_row 391 1 (-1) B_ASN1_IA5STRING STABLE_NO_MASK,
     string_row 417 (-1) (-1) B_ASN1_BMPSTRING STABLE_NO_MASK]"

definition table_cmp :: "ASN1_STRING_TABLE \<Rightarrow> ASN1_STRING_TABLE \<Rightarrow> int" where
  "table_cmp a b = (if nid a < nid b then -1 else if nid a > nid b then 1 else 0)"

text \<open>FNV-1a, of the bytes of an \<open>int\<close> in memory order.\<close>

definition OPENSSL_hash32 :: "byte list \<Rightarrow> u32" where
  "OPENSSL_hash32 bs = fold (\<lambda>c h. (h XOR ucast c) * 16777619) bs 2166136261"

definition int_bytes :: "int \<Rightarrow> byte list" where
  "int_bytes n = map (\<lambda>i. ucast (drop_bit (8 * i) (word_of_int n :: u32))) [0, 1, 2, 3]"

definition table_hash :: "ASN1_STRING_TABLE \<Rightarrow> u32" where
  "table_hash tbl = OPENSSL_hash32 (int_bytes (nid tbl))"

text \<open>The \<open>bsearch\<close> of the C library, between two indices.\<close>

function bsearch :: "('k \<Rightarrow> 'a \<Rightarrow> int) \<Rightarrow> 'k \<Rightarrow> 'a list \<Rightarrow> nat \<Rightarrow> nat \<Rightarrow> 'a option" where
  "bsearch cmp key xs lo hi =
     (if lo \<ge> hi then None
      else let mid = (lo + hi) div 2; c = cmp key (xs ! mid)
           in if c < 0 then bsearch cmp key xs lo mid
              else if c > 0 then bsearch cmp key xs (mid + 1) hi
              else Some (xs ! mid))"
  by auto
termination by (relation "measure (\<lambda>(_, _, _, lo, hi). hi - lo)") auto

declare bsearch.simps [simp del]

text \<open>Only \<open>nid\<close> of the key is set in the code, and only \<open>nid\<close> of it is read.\<close>

abbreviation table_key :: "int \<Rightarrow> ASN1_STRING_TABLE" where
  "table_key n \<equiv> string_row n 0 0 0 0"

type_synonym string_tables = "ASN1_STRING_TABLE LHASH option"

definition asn1_string_table_get :: "string_tables \<Rightarrow> int \<Rightarrow> ASN1_STRING_TABLE option" where
  "asn1_string_table_get tables n =
     (case bsearch table_cmp (table_key n) tbl_standard 0 (length tbl_standard) of
        Some tbl \<Rightarrow> Some tbl
      | None \<Rightarrow> (case tables of None \<Rightarrow> None
                | Some lh \<Rightarrow> OPENSSL_lh_retrieve table_hash table_cmp lh (table_key n)))"

text \<open>
  The write lock is taken after the first look at the table, which \<open>seen\<close> is; other threads can have
  changed it to \<open>tables\<close> by then.
\<close>

definition ASN1_STRING_TABLE_add ::
  "(nat \<Rightarrow> bool) \<Rightarrow> string_tables \<Rightarrow> string_tables \<Rightarrow> int \<Rightarrow> int \<Rightarrow> int \<Rightarrow> u64 \<Rightarrow> u64 \<Rightarrow> bool \<times> string_tables"
where
  "ASN1_STRING_TABLE_add alloc seen tables n mn mx mk fl =
     (if asn1_string_table_get seen n \<noteq> None then (False, tables)
      else case (case tables of None \<Rightarrow> OPENSSL_lh_new alloc | Some lh \<Rightarrow> Some lh) of
        None \<Rightarrow> (False, None)
      | Some lh \<Rightarrow>
          if tables \<noteq> None \<and> OPENSSL_lh_retrieve table_hash table_cmp lh (table_key n) \<noteq> None then (False, Some lh)
          else if \<not> alloc 40 then (False, Some lh)
          else (case OPENSSL_lh_insert alloc table_hash table_cmp lh (string_row n mn mx mk fl) of
                  (made, _, lh) \<Rightarrow> (made, Some lh)))"

section \<open>The constant array\<close>

lemma bsearch_correct:
  assumes "hi \<le> length xs" "sorted (map f xs)"
    and "\<And>x. cmp key x < 0 \<longleftrightarrow> k < f x" "\<And>x. cmp key x > 0 \<longleftrightarrow> f x < (k :: int)"
  shows "case bsearch cmp key xs lo hi of
      None \<Rightarrow> \<forall>i. lo \<le> i \<and> i < hi \<longrightarrow> f (xs ! i) \<noteq> k
    | Some y \<Rightarrow> y \<in> set xs \<and> f y = k"
  using assms(1)
proof (induction "hi - lo" arbitrary: lo hi rule: less_induct)
  case less
  show ?case
  proof (cases "lo < hi")
    case False
    then show ?thesis by (simp add: bsearch.simps [of _ _ _ lo])
  next
    case True
    define mid where "mid = (lo + hi) div 2"
    have mid: "lo \<le> mid" "mid < hi" using True by (auto simp: mid_def)
    have mono: "f (xs ! i) \<le> f (xs ! j)" if "i \<le> j" "j < length xs" for i j
      using sorted_nth_mono [OF assms(2), of i j] that by simp
    consider "k < f (xs ! mid)" | "f (xs ! mid) < k" | "f (xs ! mid) = k" by linarith
    then show ?thesis
    proof cases
      case 1
      have b: "bsearch cmp key xs lo hi = bsearch cmp key xs lo mid"
        using True 1 by (simp add: bsearch.simps [of _ _ _ lo hi] assms(3,4) mid_def Let_def)
      have "\<not> (mid \<le> i \<and> i < hi \<and> f (xs ! i) = k)" for i
        using 1 mono [of mid i] less.prems by force
      moreover have "mid - lo < hi - lo" using mid by linarith
      ultimately show ?thesis
        using less.hyps [of mid lo] mid less.prems unfolding b by (auto split: option.splits) (metis not_le)
    next
      case 2
      have b: "bsearch cmp key xs lo hi = bsearch cmp key xs (mid + 1) hi"
        using True 2 by (simp add: bsearch.simps [of _ _ _ lo hi] assms(3,4) mid_def Let_def)
      have "\<not> (i \<le> mid \<and> f (xs ! i) = k)" for i
        using 2 mono [of i mid] mid less.prems by force
      moreover have "hi - (mid + 1) < hi - lo" using mid by linarith
      ultimately show ?thesis
        using less.hyps [of hi "mid + 1"] mid less.prems unfolding b
        by (auto split: option.splits) (metis Suc_leI not_less)
    next
      case 3
      then have "\<not> cmp key (xs ! mid) < 0" "\<not> cmp key (xs ! mid) > 0" using assms(3,4) by auto
      then have "bsearch cmp key xs lo hi = Some (xs ! mid)"
        using True by (simp add: bsearch.simps [of _ _ _ lo hi] mid_def Let_def)
      with 3 mid less.prems show ?thesis by simp
    qed
  qed
qed

lemma tbl_standard_sorted: "sorted (map nid tbl_standard)"
  by (simp add: tbl_standard_def)

text \<open>Rows of the array with the same NID are the same row.\<close>

lemma tbl_standard_unique: "inj_on nid (set tbl_standard)"
  by (simp add: tbl_standard_def)

lemma bsearch_tbl_standard:
  "bsearch table_cmp (table_key n) tbl_standard 0 (length tbl_standard) = Some r \<longleftrightarrow> r \<in> set tbl_standard \<and> nid r = n"
proof -
  have c: "table_cmp (table_key n) x < 0 \<longleftrightarrow> n < nid x" "table_cmp (table_key n) x > 0 \<longleftrightarrow> nid x < n" for x
    by (simp_all add: table_cmp_def)
  have "case bsearch table_cmp (table_key n) tbl_standard 0 (length tbl_standard) of
      None \<Rightarrow> \<forall>r \<in> set tbl_standard. nid r \<noteq> n
    | Some y \<Rightarrow> y \<in> set tbl_standard \<and> nid y = n"
    using bsearch_correct [where xs=tbl_standard and f=nid and cmp=table_cmp and key="table_key n" and k=n, OF order.refl tbl_standard_sorted c, of 0]
    by (auto simp: in_set_conv_nth split: option.splits)
  then show ?thesis
    using inj_onD [OF tbl_standard_unique] by (auto split: option.splits)
qed


section \<open>The table as a client of the hash table\<close>

interpretation string_hash: hashing table_hash table_cmp
  by unfold_locales (auto simp: table_cmp_def table_hash_def split: if_splits)

definition tables_ok :: "string_tables \<Rightarrow> bool" where
  "tables_ok tables \<longleftrightarrow> (\<forall>lh. tables = Some lh \<longrightarrow> lh_wf table_hash table_cmp lh)"

abbreviation table_lookup :: "ASN1_STRING_TABLE LHASH \<Rightarrow> ASN1_STRING_TABLE \<Rightarrow> ASN1_STRING_TABLE option" where
  "table_lookup \<equiv> OPENSSL_lh_retrieve table_hash table_cmp"

abbreviation table_put where
  "table_put \<equiv> \<lambda>alloc. OPENSSL_lh_insert alloc table_hash table_cmp"

lemma new_table:
  assumes "OPENSSL_lh_new alloc = Some (lh :: 'a LHASH)"
  shows "lh_wf hash cmp lh \<and> OPENSSL_lh_retrieve hash cmp lh x = None"
  using assms
  by (auto simp: OPENSSL_lh_new_def lh_wf_def lh_data_def buckets_ok_def no_duplicates_def nth_replicate
      OPENSSL_lh_retrieve_def get_next_ptr_and_hash_def item_at_def Let_def split: if_splits)

lemma get_standard: "r \<in> set tbl_standard \<Longrightarrow> asn1_string_table_get tables (nid r) = Some r"
  using bsearch_tbl_standard [of "nid r" r] by (simp add: asn1_string_table_get_def)

lemma get_other:
  assumes "n \<notin> nid ` set tbl_standard"
  shows "asn1_string_table_get tables n =
    (case tables of None \<Rightarrow> None | Some lh \<Rightarrow> table_lookup lh (table_key n))"
proof -
  have "bsearch table_cmp (table_key n) tbl_standard 0 (length tbl_standard) = None"
    using bsearch_tbl_standard [of n] assms by (metis image_eqI option.exhaust)
  then show ?thesis by (simp add: asn1_string_table_get_def)
qed

text \<open>The table that the locked part works on.\<close>

definition started :: "(nat \<Rightarrow> bool) \<Rightarrow> string_tables \<Rightarrow> string_tables" where
  "started alloc tables = (case tables of None \<Rightarrow> OPENSSL_lh_new alloc | Some lh \<Rightarrow> Some lh)"

lemma started_get:
  assumes "tables_ok tables"
  shows "tables_ok (started alloc tables) \<and> asn1_string_table_get (started alloc tables) n = asn1_string_table_get tables n"
proof (cases tables)
  case None
  show ?thesis
  proof (cases "n \<in> nid ` set tbl_standard")
    case True
    then show ?thesis using get_standard new_table [where 'a=ASN1_STRING_TABLE] by (fastforce simp: None started_def tables_ok_def)
  next
    case False
    from get_other [OF this] show ?thesis
      using new_table [where 'a=ASN1_STRING_TABLE] by (auto simp: None started_def tables_ok_def split: option.splits)
  qed
qed (use assms in \<open>simp add: started_def\<close>)

text \<open>One call: it registers the row, or it changes no lookup.\<close>

lemma ASN1_STRING_TABLE_add_cases:
  assumes ok: "tables_ok tables"
    and add: "ASN1_STRING_TABLE_add alloc seen tables n mn mx mk fl = (made, tables')"
  shows "tables_ok tables' \<and> (made \<longrightarrow> asn1_string_table_get tables n = None) \<and>
    asn1_string_table_get tables' =
      (if made then (asn1_string_table_get tables)(n \<mapsto> string_row n mn mx mk fl) else asn1_string_table_get tables)"
proof (cases "\<exists>lh. asn1_string_table_get seen n = None \<and> started alloc tables = Some lh \<and>
    table_lookup lh (table_key n) = None \<and> alloc 40")
  case False
  have new: "table_lookup lh x = None" if "OPENSSL_lh_new alloc = Some lh" for lh x
    using new_table [OF that] by blast
  have "made = False \<and> (tables' = tables \<or> tables' = started alloc tables)"
    using add False
    by (auto simp: ASN1_STRING_TABLE_add_def started_def new split: option.splits if_splits prod.splits)
  with started_get [OF ok] ok show ?thesis by (auto simp: fun_eq_iff)
next
  case True
  then obtain lh where seen: "asn1_string_table_get seen n = None" and lh: "started alloc tables = Some lh"
    and none: "table_lookup lh (table_key n) = None" and mem: "alloc 40" by blast
  let ?row = "string_row n mn mx mk fl"
  obtain old lh' where put: "table_put alloc lh ?row = (made, old, lh')" and t': "tables' = Some lh'"
    using add seen lh none mem
    by (auto simp: ASN1_STRING_TABLE_add_def started_def split: option.splits if_splits prod.splits)
  have wf: "lh_wf table_hash table_cmp lh" using started_get [OF ok, of alloc] lh by (simp add: tables_ok_def)
  have std: "n \<notin> nid ` set tbl_standard" using seen get_standard by auto
  have same: "asn1_string_table_get tables m = asn1_string_table_get (Some lh) m" for m
    using started_get [OF ok, of alloc m] lh by simp
  have lookup: "lh_wf table_hash table_cmp lh' \<and>
      (\<forall>x. table_lookup lh' x = (if made \<and> table_cmp ?row x = 0 then Some ?row else table_lookup lh x))"
    by (rule string_hash.table.put_cases [OF wf put])
  have "asn1_string_table_get (Some lh') m =
      (if made \<and> m = n then Some ?row else asn1_string_table_get (Some lh) m)" for m
  proof (cases "m \<in> nid ` set tbl_standard")
    case True
    then show ?thesis using get_standard std by auto
  next
    case False
    with get_other [OF this] lookup show ?thesis by (auto simp: table_cmp_def)
  qed
  moreover have "asn1_string_table_get (Some lh) n = None" using get_other [OF std] none by simp
  ultimately show ?thesis using lookup by (auto simp: t' same fun_eq_iff tables_ok_def)
qed

text \<open>
  The runs of several threads: the locked parts happen one after the other, and what a thread had
  seen before it took the lock can be any earlier table.
\<close>

inductive add_run :: "string_tables \<Rightarrow> string_tables \<Rightarrow> bool" for tables where
  add_run_start: "add_run tables tables"
| add_run_step: "add_run tables t1 \<Longrightarrow> ASN1_STRING_TABLE_add alloc seen t1 n mn mx mk fl = (made, t2) \<Longrightarrow>
    add_run tables t2"

inductive_cases add_run_stepE: "add_run tables t"

lemma add_run_keeps:
  assumes "add_run tables t" "tables_ok tables"
  shows "tables_ok t \<and> asn1_string_table_get tables \<subseteq>\<^sub>m asn1_string_table_get t"
  using assms
proof (induction rule: add_run.induct)
  case (add_run_step t1 alloc seen n mn mx mk fl made t2)
  then have "tables_ok t1" "asn1_string_table_get tables \<subseteq>\<^sub>m asn1_string_table_get t1" by simp_all
  with ASN1_STRING_TABLE_add_cases [OF _ add_run_step.hyps(2)] show ?case
    by (cases made) (auto simp: map_le_def dom_def)
qed simp

text \<open>A call with memory on a NID that nobody has registered succeeds.\<close>

lemma ASN1_STRING_TABLE_add_succeeds:
  assumes ok: "tables_ok tables" and seen: "asn1_string_table_get seen n = None"
    and none: "asn1_string_table_get tables n = None" and mem: "\<And>k. alloc k"
  shows "fst (ASN1_STRING_TABLE_add alloc seen tables n mn mx mk fl)"
proof -
  obtain lh where lh: "started alloc tables = Some lh"
    using mem by (cases tables) (auto simp: started_def OPENSSL_lh_new_def)
  have std: "n \<notin> nid ` set tbl_standard" using seen get_standard by auto
  have "asn1_string_table_get (Some lh) n = None" using started_get [OF ok, of alloc n] lh none by simp
  then have key: "table_lookup lh (table_key n) = None" using get_other [OF std] by simp
  have wf: "lh_wf table_hash table_cmp lh" using started_get [OF ok, of alloc] lh by (simp add: tables_ok_def)
  have "table_lookup lh (string_row n mn mx mk fl) = None"
    using string_hash.table.lookup_cong [OF wf, of "table_key n" "string_row n mn mx mk fl"] key
    by (simp add: table_cmp_def)
  from string_hash.insert_absent [OF wf this, of alloc] mem obtain lh' where
    "table_put alloc lh (string_row n mn mx mk fl) = (True, None, lh')" by auto
  with seen lh key mem show ?thesis
    by (auto simp: ASN1_STRING_TABLE_add_def started_def split: option.splits if_splits)
qed

end
