(* ===== verification/Unicode.thy ===== *)
theory Unicode
  imports Asn1_Values
begin

text \<open>
  The code points of \<open>crypto/bytestring/unicode.c\<close>, read and written in four encodings. Each pair of
  functions is shown to be an instance of one interface, the locale \<open>codec\<close>, on which the conversion
  of whole strings rests.
\<close>

section \<open>The functions\<close>

definition is_valid_code_point :: "u32 \<Rightarrow> bool" where
  "is_valid_code_point v \<longleftrightarrow>
     \<not> (v > 0x10ffff \<or> v AND 0xfffe = 0xfffe \<or> (v \<ge> 0xfdd0 \<and> v \<le> 0xfdef) \<or> (v \<ge> 0xd800 \<and> v \<le> 0xdfff))"

definition BOTTOM_BITS :: "nat \<Rightarrow> byte" where
  "BOTTOM_BITS n = ucast (push_bit n (1 :: u32) - 1)"

definition TOP_BITS :: "nat \<Rightarrow> byte" where
  "TOP_BITS n = NOT (BOTTOM_BITS (8 - n))"

text \<open>The loop over the continuation bytes, with \<open>len\<close> of them to go.\<close>

fun utf8_tail :: "nat \<Rightarrow> u32 \<Rightarrow> u32 reader" where
  "utf8_tail 0 v = rret v"
| "utf8_tail (Suc len) v =
     rbind CBS_get_u8 (\<lambda>c.
       if c AND TOP_BITS 2 \<noteq> TOP_BITS 1 then rfail
       else utf8_tail len (push_bit 6 v OR ucast (c AND BOTTOM_BITS 6)))"

text \<open>The end of the function, for a first byte with these bits, continuation bytes and least value.\<close>

definition utf8_rest :: "u32 \<Rightarrow> nat \<Rightarrow> u32 \<Rightarrow> u32 reader" where
  "utf8_rest v len lower_bound =
     rbind (utf8_tail len v) (\<lambda>v. if \<not> is_valid_code_point v \<or> v < lower_bound then rfail else rret v)"

definition CBS_get_utf8 :: "u32 reader" where
  "CBS_get_utf8 =
     rbind CBS_get_u8 (\<lambda>c.
       if c \<le> 0x7f then rret (ucast c)
       else if c AND TOP_BITS 3 = TOP_BITS 2 then utf8_rest (ucast (c AND BOTTOM_BITS 5)) 1 0x80
       else if c AND TOP_BITS 4 = TOP_BITS 3 then utf8_rest (ucast (c AND BOTTOM_BITS 4)) 2 0x800
       else if c AND TOP_BITS 5 = TOP_BITS 4 then utf8_rest (ucast (c AND BOTTOM_BITS 3)) 3 0x10000
       else rfail)"

definition CBS_get_latin1 :: "u32 reader" where
  "CBS_get_latin1 = rbind CBS_get_u8 (\<lambda>c. rret (ucast c))"

definition CBS_get_ucs2_be :: "u32 reader" where
  "CBS_get_ucs2_be = rbind CBS_get_u16 (\<lambda>c. if \<not> is_valid_code_point (ucast c) then rfail else rret (ucast c))"

definition CBS_get_utf32_be :: "u32 reader" where
  "CBS_get_utf32_be = rbind CBS_get_u32 (\<lambda>v. if is_valid_code_point v then rret v else rfail)"

definition CBB_get_utf8_len :: "u32 \<Rightarrow> nat" where
  "CBB_get_utf8_len u = (if u \<le> 0x7f then 1 else if u \<le> 0x7ff then 2 else if u \<le> 0xffff then 3 else 4)"

text \<open>A byte with the top \<open>n\<close> bits and the low bits \<open>x\<close>.\<close>

definition add_bits :: "nat \<Rightarrow> nat \<Rightarrow> u32 \<Rightarrow> writer" where
  "add_bits k n x = CBB_add_u8 k (ucast (ucast (TOP_BITS n) OR x))"

definition CBB_add_utf8 :: "nat \<Rightarrow> u32 \<Rightarrow> writer" where
  "CBB_add_utf8 k u =
     (if \<not> is_valid_code_point u then (\<lambda>s. (False, s))
      else if u \<le> 0x7f then CBB_add_u8 k (ucast u)
      else if u \<le> 0x7ff
      then wand (add_bits k 2 (drop_bit 6 u)) (add_bits k 1 (u AND ucast (BOTTOM_BITS 6)))
      else if u \<le> 0xffff
      then wand (add_bits k 3 (drop_bit 12 u))
            (wand (add_bits k 1 (drop_bit 6 u AND ucast (BOTTOM_BITS 6))) (add_bits k 1 (u AND ucast (BOTTOM_BITS 6))))
      else if u \<le> 0x10ffff
      then wand (add_bits k 4 (drop_bit 18 u))
            (wand (add_bits k 1 (drop_bit 12 u AND ucast (BOTTOM_BITS 6)))
              (wand (add_bits k 1 (drop_bit 6 u AND ucast (BOTTOM_BITS 6))) (add_bits k 1 (u AND ucast (BOTTOM_BITS 6)))))
      else (\<lambda>s. (False, s)))"

definition CBB_add_latin1 :: "nat \<Rightarrow> u32 \<Rightarrow> writer" where
  "CBB_add_latin1 k u = (if u \<le> 0xff then CBB_add_u8 k (ucast u) else (\<lambda>s. (False, s)))"

definition CBB_add_ucs2_be :: "nat \<Rightarrow> u32 \<Rightarrow> writer" where
  "CBB_add_ucs2_be k u =
     (if u \<le> 0xffff \<and> is_valid_code_point u then CBB_add_u16 k (ucast u) else (\<lambda>s. (False, s)))"

definition CBB_add_utf32_be :: "nat \<Rightarrow> u32 \<Rightarrow> writer" where
  "CBB_add_utf32_be k u = (if is_valid_code_point u then CBB_add_u32 k u else (\<lambda>s. (False, s)))"

section \<open>Bits of bytes as ranges\<close>

lemma unat_push_bit:
  "unat v * 2 ^ k < 2 ^ LENGTH('a) \<Longrightarrow> unat (push_bit k (v :: 'a::len word)) = unat v * 2 ^ k"
  using unat_shift_or [of 0 k v] by simp

lemma and_not_mask: "(c :: byte) AND NOT (mask k) = push_bit k (drop_bit k c)"
  by (rule bit_eqI) (auto simp: bit_and_iff bit_not_iff bit_mask_iff bit_push_bit_iff bit_drop_bit_eq)

lemma and_top_eq:
  assumes "unat x * 2 ^ k < 256"
  shows "(c :: byte) AND NOT (mask k) = push_bit k x \<longleftrightarrow> unat c div 2 ^ k = unat x"
proof -
  have "unat c div 2 ^ k * 2 ^ k < 256" using byte_bound [of c] by (rule le_less_trans [rotated]) simp
  then have "unat (push_bit k (drop_bit k c)) = unat c div 2 ^ k * 2 ^ k"
    by (subst unat_push_bit) (simp_all add: unat_drop_bit)
  moreover have "unat (push_bit k x) = unat x * 2 ^ k" using assms by (intro unat_push_bit) simp
  ultimately show ?thesis by (simp add: and_not_mask word_unat_eq_iff)
qed

lemma top_bits_masks:
  "TOP_BITS 2 = NOT (mask 6)" "TOP_BITS 3 = NOT (mask 5)" "TOP_BITS 4 = NOT (mask 4)" "TOP_BITS 5 = NOT (mask 3)"
  "TOP_BITS 1 = push_bit 6 2" "TOP_BITS 2 = push_bit 5 6" "TOP_BITS 3 = push_bit 4 14" "TOP_BITS 4 = push_bit 3 30"
  "BOTTOM_BITS 6 = mask 6" "BOTTOM_BITS 5 = mask 5" "BOTTOM_BITS 4 = mask 4" "BOTTOM_BITS 3 = mask 3"
  by code_simp+

lemma div_eq_range: "0 < k \<Longrightarrow> n div k = m \<longleftrightarrow> m * k \<le> n \<and> n < m * k + (k :: nat)"
  using div_nat_eqI [of k m n] times_div_less_eq_dividend [of k n] dividend_less_times_div [of k n]
  by (auto simp: mult.commute)

lemma top_bits_ranges:
  "c AND TOP_BITS 2 = TOP_BITS 1 \<longleftrightarrow> 128 \<le> unat c \<and> unat c < 192"
  "c AND TOP_BITS 3 = TOP_BITS 2 \<longleftrightarrow> 192 \<le> unat c \<and> unat c < 224"
  "c AND TOP_BITS 4 = TOP_BITS 3 \<longleftrightarrow> 224 \<le> unat c \<and> unat c < 240"
  "c AND TOP_BITS 5 = TOP_BITS 4 \<longleftrightarrow> 240 \<le> unat c \<and> unat c < 248"
proof -
  have "unat c div 2 ^ 6 = unat (2 :: byte) \<longleftrightarrow> 128 \<le> unat c \<and> unat c < 192" by (subst div_eq_range) simp_all
  then show "c AND TOP_BITS 2 = TOP_BITS 1 \<longleftrightarrow> 128 \<le> unat c \<and> unat c < 192"
    unfolding top_bits_masks(1,5) by (subst and_top_eq) simp_all
  have "unat c div 2 ^ 5 = unat (6 :: byte) \<longleftrightarrow> 192 \<le> unat c \<and> unat c < 224" by (subst div_eq_range) simp_all
  then show "c AND TOP_BITS 3 = TOP_BITS 2 \<longleftrightarrow> 192 \<le> unat c \<and> unat c < 224"
    unfolding top_bits_masks(2,6) by (subst and_top_eq) simp_all
  have "unat c div 2 ^ 4 = unat (14 :: byte) \<longleftrightarrow> 224 \<le> unat c \<and> unat c < 240" by (subst div_eq_range) simp_all
  then show "c AND TOP_BITS 4 = TOP_BITS 3 \<longleftrightarrow> 224 \<le> unat c \<and> unat c < 240"
    unfolding top_bits_masks(3,7) by (subst and_top_eq) simp_all
  have "unat c div 2 ^ 3 = unat (30 :: byte) \<longleftrightarrow> 240 \<le> unat c \<and> unat c < 248" by (subst div_eq_range) simp_all
  then show "c AND TOP_BITS 5 = TOP_BITS 4 \<longleftrightarrow> 240 \<le> unat c \<and> unat c < 248"
    unfolding top_bits_masks(4,8) by (subst and_top_eq) simp_all
qed


section \<open>UTF-8\<close>

text \<open>A code point in UTF-8: a first byte, and its low digits base 64 in continuation bytes.\<close>

fun cont_bytes :: "nat \<Rightarrow> nat \<Rightarrow> byte list" where
  "cont_bytes 0 n = []"
| "cont_bytes (Suc k) n = cont_bytes k (n div 64) @ [of_nat (128 + n mod 64)]"

definition utf8 :: "nat \<Rightarrow> byte list" where
  "utf8 n = (if n < 0x80 then [of_nat n]
     else if n < 0x800 then of_nat (192 + n div 64) # cont_bytes 1 n
     else if n < 0x10000 then of_nat (224 + n div 64 ^ 2) # cont_bytes 2 n
     else of_nat (240 + n div 64 ^ 3) # cont_bytes 3 n)"

definition is_cont :: "byte \<Rightarrow> bool" where
  "is_cont c \<longleftrightarrow> 128 \<le> unat c \<and> unat c < 192"

abbreviation more_bits :: "nat \<Rightarrow> byte \<Rightarrow> nat" where
  "more_bits a c \<equiv> a * 64 + (unat c - 128)"

lemma byte_eq_of_nat: "m < 256 \<Longrightarrow> (c :: byte) = of_nat m \<longleftrightarrow> unat c = m"
  by (auto simp: unat_of_nat_byte)

lemma last_digit:
  "is_cont c \<and> n = more_bits m c \<longleftrightarrow> c = of_nat (128 + n mod 64) \<and> m = n div 64"
proof -
  have "is_cont c \<and> n = more_bits m c \<longleftrightarrow> unat c = 128 + n mod 64 \<and> m = n div 64"
  proof
    assume a: "is_cont c \<and> n = more_bits m c"
    define d where "d = unat c - 128"
    have "n = m * 64 + d" "d < 64" "unat c = 128 + d" using a by (auto simp: is_cont_def d_def)
    then show "unat c = 128 + n mod 64 \<and> m = n div 64" by simp
  next
    assume "unat c = 128 + n mod 64 \<and> m = n div 64"
    then show "is_cont c \<and> n = more_bits m c" by (auto simp: is_cont_def)
  qed
  then show ?thesis using mod_less_divisor [of 64 n] by (subst byte_eq_of_nat) simp_all
qed

lemma cont_bytes_iff:
  "length cs = k \<and> (\<forall>c \<in> set cs. is_cont c) \<and> n = foldl more_bits a cs \<longleftrightarrow> cs = cont_bytes k n \<and> a = n div 64 ^ k"
proof (induction k arbitrary: n cs)
  case 0
  then show ?case by auto
next
  case (Suc k)
  show ?case
  proof (cases cs rule: rev_cases)
    case Nil
    then show ?thesis by simp
  next
    case (snoc cs' c)
    have "(length cs = Suc k \<and> (\<forall>c \<in> set cs. is_cont c) \<and> n = foldl more_bits a cs) \<longleftrightarrow>
        length cs' = k \<and> (\<forall>c \<in> set cs'. is_cont c) \<and> (is_cont c \<and> n = more_bits (foldl more_bits a cs') c)"
      by (auto simp: snoc)
    also have "\<dots> \<longleftrightarrow> (length cs' = k \<and> (\<forall>c \<in> set cs'. is_cont c) \<and> n div 64 = foldl more_bits a cs') \<and> c = of_nat (128 + n mod 64)"
      unfolding last_digit by auto
    also have "\<dots> \<longleftrightarrow> cs = cont_bytes (Suc k) n \<and> a = n div 64 ^ Suc k"
      unfolding Suc by (auto simp: snoc div_mult2_eq)
    finally show ?thesis .
  qed
qed

lemma utf8_tail_iff:
  assumes "unat v < 2 ^ m" "m + 6 * n \<le> 32"
  shows "utf8_tail n v s = (Some w, t) \<longleftrightarrow>
    (\<exists>cs. length cs = n \<and> (\<forall>c \<in> set cs. is_cont c) \<and> unat w = foldl more_bits (unat v) cs \<and> s = cs @ t)"
  using assms
proof (induction n arbitrary: v m s)
  case 0
  show ?case by (auto simp: word_unat_eq_iff)
next
  case (Suc n)
  show ?case
  proof (cases s)
    case Nil
    then show ?thesis by (simp add: rbind_def)
  next
    case (Cons c s')
    define v' where "v' = push_bit 6 v OR ucast (c AND BOTTOM_BITS 6)"
    have low: "unat (ucast (c AND BOTTOM_BITS 6) :: u32) = unat c mod 64"
      by (simp add: top_bits_masks unat_and_mask)
    have "unat v * 2 ^ 6 < 2 ^ m * 2 ^ 6" using Suc.prems(1) by simp
    also have "\<dots> \<le> 2 ^ LENGTH(32)" unfolding power_add [symmetric] using Suc.prems(2) by (intro power_increasing) simp_all
    finally have "unat v * 2 ^ 6 < 2 ^ LENGTH(32)" .
    moreover have "unat (ucast (c AND BOTTOM_BITS 6) :: u32) < 2 ^ 6" unfolding low by simp
    ultimately have v': "unat v' = unat v * 64 + unat c mod 64"
      unfolding v'_def using unat_shift_or [of "ucast (c AND BOTTOM_BITS 6) :: u32" 6 v] unfolding low by simp
    have "unat v' < 2 ^ (m + 6)"
      using Suc.prems(1) mod_less_divisor [of 64 "unat c"] unfolding v' power_add by simp
    moreover have "m + 6 + 6 * n \<le> 32" using Suc.prems(2) by simp
    ultimately have IH: "utf8_tail n v' s' = (Some w, t) \<longleftrightarrow>
        (\<exists>cs. length cs = n \<and> (\<forall>c \<in> set cs. is_cont c) \<and> unat w = foldl more_bits (unat v') cs \<and> s' = cs @ t)"
      by (rule Suc.IH)
    have step: "utf8_tail (Suc n) v s = (if is_cont c then utf8_tail n v' s' else (None, s'))"
      by (simp add: Cons rbind_def top_bits_ranges(1) is_cont_def v'_def del: One_nat_def)
    have "unat v' = more_bits (unat v) c" if cont: "is_cont c"
    proof -
      obtain d where d: "unat c = 128 + d" "d < 64"
        using cont le_Suc_ex [of 128 "unat c"] unfolding is_cont_def by auto
      have "(d + 2 * 64) mod 64 = d" using d(2) by (simp only: mod_mult_self1 mod_less)
      with d show ?thesis unfolding v' by (simp add: add.commute)
    qed
    then have more: "is_cont c \<Longrightarrow> foldl more_bits (unat v) (c # cs) = foldl more_bits (unat v') cs" for cs by simp
    have parts: "(\<exists>cs. length cs = Suc n \<and> P cs \<and> c # s' = cs @ t) \<longleftrightarrow> (\<exists>cs. length cs = n \<and> P (c # cs) \<and> s' = cs @ t)" for P
      by (simp only: length_Suc_conv) fastforce
    show ?thesis
    proof (cases "is_cont c")
      case True
      have "(\<exists>cs. length cs = Suc n \<and> ((\<forall>c \<in> set cs. is_cont c) \<and> unat w = foldl more_bits (unat v) cs) \<and> c # s' = cs @ t)
          \<longleftrightarrow> (\<exists>cs. length cs = n \<and> (\<forall>c \<in> set cs. is_cont c) \<and> unat w = foldl more_bits (unat v') cs \<and> s' = cs @ t)"
        unfolding parts more [OF True] using True by simp
      moreover have "utf8_tail (Suc n) v s = utf8_tail n v' s'" using step True by simp
      ultimately show ?thesis using IH by (simp only: Cons conj_assoc)
    next
      case False
      then have "\<not> (\<exists>cs. length cs = Suc n \<and> (\<forall>c \<in> set cs. is_cont c) \<and> c # s' = cs @ t)"
        by (simp add: parts)
      moreover have "utf8_tail (Suc n) v s = (None, s')" using step False by simp
      ultimately show ?thesis by (simp only: Cons) auto
    qed
  qed
qed

lemma utf8_rest_iff:
  assumes "unat v < 2 ^ m" "m + 6 * n \<le> 32"
  shows "utf8_rest v n lb s = (Some w, t) \<longleftrightarrow>
    is_valid_code_point w \<and> unat lb \<le> unat w \<and> unat v = unat w div 64 ^ n \<and> s = cont_bytes n (unat w) @ t"
proof -
  have "utf8_rest v n lb s = (Some w, t) \<longleftrightarrow>
      is_valid_code_point w \<and> unat lb \<le> unat w \<and> utf8_tail n v s = (Some w, t)"
    by (auto simp: utf8_rest_def rbind_eq_Some word_less_nat_alt not_less split: if_splits)
  also have "utf8_tail n v s = (Some w, t) \<longleftrightarrow> unat v = unat w div 64 ^ n \<and> s = cont_bytes n (unat w) @ t"
    unfolding utf8_tail_iff [OF assms] using cont_bytes_iff [of _ n "unat w" "unat v"] by metis
  finally show ?thesis .
qed

lemma valid_code_point_less: "is_valid_code_point v \<Longrightarrow> unat v < 0x110000"
  by (simp add: is_valid_code_point_def word_less_nat_alt)

lemma CBS_get_utf8_lead:
  "CBS_get_utf8 (c # s) =
     (if unat c < 128 then (Some (ucast c), s)
      else if 192 \<le> unat c \<and> unat c < 224 then utf8_rest (ucast (c AND BOTTOM_BITS 5)) 1 0x80 s
      else if 224 \<le> unat c \<and> unat c < 240 then utf8_rest (ucast (c AND BOTTOM_BITS 4)) 2 0x800 s
      else if 240 \<le> unat c \<and> unat c < 248 then utf8_rest (ucast (c AND BOTTOM_BITS 3)) 3 0x10000 s
      else (None, s))"
proof -
  have "c \<le> 0x7f \<longleftrightarrow> unat c < 128" by (simp add: word_le_nat_alt) linarith
  then show ?thesis by (simp add: CBS_get_utf8_def rbind_def top_bits_ranges)
qed

lemma ucast_low: "m < 8 \<Longrightarrow> unat (ucast ((c :: byte) AND mask m) :: u32) = unat c mod 2 ^ m"
  by (simp add: unat_and_mask)

lemma ascii_valid: "unat v < 256 \<Longrightarrow> is_valid_code_point v"
proof -
  assume v: "unat v < 256"
  have "unat (v AND 0xfffe) \<le> unat v" using word_and_le2 [of v "0xfffe"] by (simp add: word_le_nat_alt)
  then have "unat (v AND 0xfffe) \<noteq> unat (0xfffe :: u32)" using v by simp
  then have "v AND 0xfffe \<noteq> 0xfffe" by metis
  with v show ?thesis by (simp add: is_valid_code_point_def word_less_nat_alt word_le_nat_alt)
qed


text \<open>\<open>CBS_get_utf8\<close> accepts exactly the UTF-8 of a valid code point.\<close>

lemma utf8_cases:
  assumes "n < 0x110000"
  obtains (one) "n < 0x80" "utf8 n = [of_nat n]"
    | (two) "0x80 \<le> n" "n < 0x800" "utf8 n = of_nat (192 + n div 64 ^ 1) # cont_bytes 1 n" "2 \<le> n div 64 ^ 1" "n div 64 ^ 1 < 32"
    | (three) "0x800 \<le> n" "n < 0x10000" "utf8 n = of_nat (224 + n div 64 ^ 2) # cont_bytes 2 n" "n div 64 ^ 2 < 16"
    | (four) "0x10000 \<le> n" "utf8 n = of_nat (240 + n div 64 ^ 3) # cont_bytes 3 n" "n div 64 ^ 3 < 8"
proof -
  consider "n < 0x80" | "0x80 \<le> n" "n < 0x800" | "0x800 \<le> n" "n < 0x10000" | "0x10000 \<le> n" by linarith
  then show thesis
  proof cases
    case 1
    then show ?thesis by (intro one) (simp_all add: utf8_def)
  next
    case 2
    then show ?thesis by (intro two) (simp_all add: utf8_def del: One_nat_def)
  next
    case 3
    then show ?thesis by (intro three) (simp_all add: utf8_def)
  next
    case 4
    then show ?thesis using assms by (intro four) (simp_all add: utf8_def)
  qed
qed

lemma utf8_lead_iff:
  assumes n: "n < 0x110000"
  shows "c # s = utf8 n @ t \<longleftrightarrow>
     (if unat c < 128 then n = unat c \<and> s = t
      else if 192 \<le> unat c \<and> unat c < 224 then 0x80 \<le> n \<and> unat c mod 2 ^ 5 = n div 64 ^ 1 \<and> s = cont_bytes 1 n @ t
      else if 224 \<le> unat c \<and> unat c < 240 then 0x800 \<le> n \<and> unat c mod 2 ^ 4 = n div 64 ^ 2 \<and> s = cont_bytes 2 n @ t
      else if 240 \<le> unat c \<and> unat c < 248 then 0x10000 \<le> n \<and> unat c mod 2 ^ 3 = n div 64 ^ 3 \<and> s = cont_bytes 3 n @ t
      else False)"
proof -
  have low: "192 \<le> unat c \<Longrightarrow> unat c < 224 \<Longrightarrow> unat c mod 2 ^ 5 = unat c - 192"
    "224 \<le> unat c \<Longrightarrow> unat c < 240 \<Longrightarrow> unat c mod 2 ^ 4 = unat c - 224"
    "240 \<le> unat c \<Longrightarrow> unat c < 248 \<Longrightarrow> unat c mod 2 ^ 3 = unat c - 240"
    by (simp_all add: mod_nat_eqI)
  consider (a) "unat c < 128" | (b) "128 \<le> unat c" "unat c < 192" | (c) "192 \<le> unat c" "unat c < 224"
    | (d) "224 \<le> unat c" "unat c < 240" | (e) "240 \<le> unat c" "unat c < 248" | (f) "248 \<le> unat c" by linarith
  note lead_cases = this
  show ?thesis
    using n
  proof (cases rule: utf8_cases)
    case one
    then have "c = of_nat n \<longleftrightarrow> unat c = n" by (intro byte_eq_of_nat) simp
    with one low show ?thesis by (cases rule: lead_cases) (auto simp: div_eq_0_iff)
  next
    case two
    have "c = of_nat (192 + n div 64 ^ 1) \<longleftrightarrow> unat c = 192 + n div 64 ^ 1" using two(5) by (intro byte_eq_of_nat) linarith
    with two low show ?thesis by (cases rule: lead_cases) auto
  next
    case three
    have "c = of_nat (224 + n div 64 ^ 2) \<longleftrightarrow> unat c = 224 + n div 64 ^ 2" using three(4) by (intro byte_eq_of_nat) linarith
    with three low show ?thesis by (cases rule: lead_cases) auto
  next
    case four
    have "c = of_nat (240 + n div 64 ^ 3) \<longleftrightarrow> unat c = 240 + n div 64 ^ 3" using four(3) by (intro byte_eq_of_nat) linarith
    with four low show ?thesis by (cases rule: lead_cases) auto
  qed
qed

lemma utf8_rest_low:
  assumes "m < 8" "m + 6 * n \<le> 32"
  shows "utf8_rest (ucast ((c :: byte) AND mask m)) n lb s = (Some w, t) \<longleftrightarrow>
    is_valid_code_point w \<and> unat lb \<le> unat w \<and> unat c mod 2 ^ m = unat w div 64 ^ n \<and> s = cont_bytes n (unat w) @ t"
proof -
  have "unat (ucast (c AND mask m) :: u32) < 2 ^ m" unfolding ucast_low [OF assms(1)] by simp
  from utf8_rest_iff [OF this assms(2)] show ?thesis unfolding ucast_low [OF assms(1)] .
qed

lemma CBS_get_utf8_iff:
  "CBS_get_utf8 s = (Some v, t) \<longleftrightarrow> is_valid_code_point v \<and> s = utf8 (unat v) @ t"
proof (cases s)
  case Nil
  then show ?thesis by (simp add: CBS_get_utf8_def rbind_def utf8_def)
next
  case (Cons c s')
  have ascii: "(Some (ucast c), s') = (Some v, t) \<longleftrightarrow> is_valid_code_point v \<and> unat v = unat c \<and> s' = t" if "unat c < 128"
    using ascii_valid [of "ucast c"] ascii_valid [of v] that by (auto simp: word_unat_eq_iff)
  have bounds: "unat (0x80 :: u32) = 0x80" "unat (0x800 :: u32) = 0x800" "unat (0x10000 :: u32) = 0x10000" by simp_all
  have L: "CBS_get_utf8 s = (Some v, t) \<longleftrightarrow> is_valid_code_point v \<and>
     (if unat c < 128 then unat v = unat c \<and> s' = t
      else if 192 \<le> unat c \<and> unat c < 224 then 0x80 \<le> unat v \<and> unat c mod 2 ^ 5 = unat v div 64 ^ 1 \<and> s' = cont_bytes 1 (unat v) @ t
      else if 224 \<le> unat c \<and> unat c < 240 then 0x800 \<le> unat v \<and> unat c mod 2 ^ 4 = unat v div 64 ^ 2 \<and> s' = cont_bytes 2 (unat v) @ t
      else if 240 \<le> unat c \<and> unat c < 248 then 0x10000 \<le> unat v \<and> unat c mod 2 ^ 3 = unat v div 64 ^ 3 \<and> s' = cont_bytes 3 (unat v) @ t
      else False)"
    unfolding Cons CBS_get_utf8_lead top_bits_masks(9-12)
    using ascii utf8_rest_low [of 5 1 c "0x80" s' v t] utf8_rest_low [of 4 2 c "0x800" s' v t]
      utf8_rest_low [of 3 3 c "0x10000" s' v t]
    unfolding bounds by (simp del: One_nat_def split: if_split)
  show ?thesis
  proof (cases "is_valid_code_point v")
    case True
    from utf8_lead_iff [OF valid_code_point_less [OF True], of c s' t] True show ?thesis
      unfolding L unfolding Cons by (simp only: simp_thms)
  qed (simp add: L)
qed

section \<open>The other encodings\<close>

lemma CBS_get_latin1_iff:
  "CBS_get_latin1 s = (Some v, t) \<longleftrightarrow> unat v < 256 \<and> s = [of_nat (unat v)] @ t"
proof (cases s)
  case Nil
  then show ?thesis by (simp add: CBS_get_latin1_def rbind_def)
next
  case (Cons c s')
  have "unat v < 256 \<and> c = of_nat (unat v) \<longleftrightarrow> unat v = unat c" using byte_eq_of_nat [of "unat v" c] byte_bound [of c] by auto
  then show ?thesis by (auto simp: Cons CBS_get_latin1_def rbind_def word_unat_eq_iff)
qed

lemma unat_ucast_small:
  "unat (v :: 'a::len word) < 2 ^ LENGTH('b) \<Longrightarrow> unat (ucast v :: 'b::len word) = unat v"
  by (simp add: unsigned_ucast_eq take_bit_nat_eq_self)

lemma cbs_get_u_ucast:
  assumes "n \<le> 8" "(256 :: nat) ^ n \<le> 2 ^ LENGTH('b::len)" "LENGTH('b) \<le> 64"
  shows "rbind (cbs_get_u n) (\<lambda>v. rret (ucast v)) s = (Some (w :: 'b word), t) \<longleftrightarrow>
    unat w < 256 ^ n \<and> s = be_bytes n (unat w) @ t"
proof -
  have "(\<exists>v :: u64. unat v < 256 ^ n \<and> s = be_bytes n (unat v) @ t \<and> w = ucast v) \<longleftrightarrow>
      unat w < 256 ^ n \<and> s = be_bytes n (unat w) @ t"
  proof
    assume "\<exists>v :: u64. unat v < 256 ^ n \<and> s = be_bytes n (unat v) @ t \<and> w = ucast v"
    then obtain v :: u64 where v: "unat v < 256 ^ n" "s = be_bytes n (unat v) @ t" "w = ucast v" by blast
    have "unat v < 2 ^ LENGTH('b)" using v(1) assms(2) by linarith
    then have "unat w = unat v" unfolding v(3) by (rule unat_ucast_small)
    with v show "unat w < 256 ^ n \<and> s = be_bytes n (unat w) @ t" by simp
  next
    assume w: "unat w < 256 ^ n \<and> s = be_bytes n (unat w) @ t"
    have u: "unat (ucast w :: u64) = unat w" using assms(3) by (intro unat_ucast_up) simp
    moreover have "w = ucast (ucast w :: u64)"
      using unat_bound [of w] by (simp add: word_unat_eq_iff unat_ucast_small u)
    ultimately show "\<exists>v :: u64. unat v < 256 ^ n \<and> s = be_bytes n (unat v) @ t \<and> w = ucast v" using w by metis
  qed
  then show ?thesis by (auto simp: rbind_eq_Some cbs_get_u_eq_Some [OF assms(1)])
qed

lemma CBS_get_ucs2_be_iff:
  "CBS_get_ucs2_be s = (Some v, t) \<longleftrightarrow> (unat v < 0x10000 \<and> is_valid_code_point v) \<and> s = be_bytes 2 (unat v) @ t"
proof -
  have g: "CBS_get_u16 s = (Some c, t) \<longleftrightarrow> s = be_bytes 2 (unat c) @ t" for c
    using cbs_get_u_ucast [of 2 s c t] unat_bound [of c] by (simp add: CBS_get_u16_def)
  have up: "unat (ucast c :: u32) = unat c" for c :: u16 by (rule unat_ucast_up) simp
  show ?thesis
  proof
    assume "CBS_get_ucs2_be s = (Some v, t)"
    then obtain c :: u16 where "s = be_bytes 2 (unat c) @ t" "is_valid_code_point (ucast c)" "v = ucast c"
      by (auto simp: CBS_get_ucs2_be_def rbind_eq_Some g split: if_splits)
    then show "(unat v < 0x10000 \<and> is_valid_code_point v) \<and> s = be_bytes 2 (unat v) @ t"
      using unat_bound [of c] by (simp add: up)
  next
    assume v: "(unat v < 0x10000 \<and> is_valid_code_point v) \<and> s = be_bytes 2 (unat v) @ t"
    then have c: "unat (ucast v :: u16) = unat v" by (intro unat_ucast_small) simp
    then have "ucast (ucast v :: u16) = v" by (simp add: word_unat_eq_iff up)
    with v c show "CBS_get_ucs2_be s = (Some v, t)"
      using g [of "ucast v"] by (auto simp: CBS_get_ucs2_be_def rbind_eq_Some)
  qed
qed

lemma CBS_get_utf32_be_iff:
  "CBS_get_utf32_be s = (Some v, t) \<longleftrightarrow> is_valid_code_point v \<and> s = be_bytes 4 (unat v) @ t"
proof -
  have "CBS_get_u32 s = (Some c, t) \<longleftrightarrow> s = be_bytes 4 (unat c) @ t" for c
    using cbs_get_u_ucast [of 4 s c t] unat_bound [of c] by (simp add: CBS_get_u32_def)
  then show ?thesis by (auto simp: CBS_get_utf32_be_def rbind_eq_Some split: if_splits)
qed


section \<open>Writing\<close>

lemma or_top_bits:
  assumes "unat x < 2 ^ k" "k \<le> 8" "(m :: nat) * 2 ^ k < 256"
  shows "unat ((ucast (push_bit k (of_nat m :: byte)) :: u32) OR x) = m * 2 ^ k + unat x"
proof -
  have small: "m < 256" "m * 2 ^ k < 2 ^ 32"
    using assms(3) le_less_trans [of m "m * 2 ^ k" 256] by simp_all
  have "unat (push_bit k (of_nat m :: byte)) = m * 2 ^ k"
    using assms(3) small(1) by (subst unat_push_bit) (simp_all add: unat_of_nat_byte)
  moreover have "unat (push_bit k (of_nat m :: u32)) = m * 2 ^ k"
    using small by (subst unat_push_bit) (simp_all add: unat_of_nat)
  ultimately have "(ucast (push_bit k (of_nat m :: byte)) :: u32) = push_bit k (of_nat m)"
    by (simp add: word_unat_eq_iff)
  then show ?thesis
    using unat_shift_or [of x k "of_nat m"] assms(1) small by (simp add: unat_of_nat)
qed

lemma ucast_byte_eq: "(ucast w :: byte) = of_nat (unat w)"
  by (simp add: word_unat_eq_iff unsigned_ucast_eq unat_of_nat_byte take_bit_eq_mod)

lemma add_bits_eq:
  "unat x < 64 \<Longrightarrow> add_bits k 1 x = CBB_add_u8 k (of_nat (128 + unat x))"
  "unat x < 32 \<Longrightarrow> add_bits k 2 x = CBB_add_u8 k (of_nat (192 + unat x))"
  "unat x < 16 \<Longrightarrow> add_bits k 3 x = CBB_add_u8 k (of_nat (224 + unat x))"
  "unat x < 8 \<Longrightarrow> add_bits k 4 x = CBB_add_u8 k (of_nat (240 + unat x))"
  using or_top_bits [of x 6 2] or_top_bits [of x 5 6] or_top_bits [of x 4 14] or_top_bits [of x 3 30]
  unfolding add_bits_def top_bits_masks(5-8) ucast_byte_eq by simp_all

lemma low_bits: "unat (x AND ucast (BOTTOM_BITS 6) :: u32) = unat x mod 64"
proof -
  have "(ucast (BOTTOM_BITS 6) :: u32) = mask 6" by code_simp
  then show ?thesis by (simp add: unat_and_mask)
qed

lemma cont_bytes_simps:
  "cont_bytes 1 n = [of_nat (128 + n mod 64)]"
  "cont_bytes 2 n = [of_nat (128 + n div 64 mod 64), of_nat (128 + n mod 64)]"
  "cont_bytes 3 n = [of_nat (128 + n div 64 ^ 2 mod 64), of_nat (128 + n div 64 mod 64), of_nat (128 + n mod 64)]"
  by (simp_all add: numeral_2_eq_2 numeral_3_eq_3 flip: div_mult2_eq)

lemma CBB_add_utf8_refines:
  assumes "is_valid_code_point u"
  shows "refines (\<lambda>A. k \<le> nesting A) (CBB_add_utf8 k u) (write_to k (utf8 (unat u)))"
proof -
  let ?n = "unat u"
  have valid: "\<not> \<not> is_valid_code_point u" using assms by blast
  have le: "u \<le> 0x7f \<longleftrightarrow> ?n < 0x80" "u \<le> 0x7ff \<longleftrightarrow> ?n < 0x800" "u \<le> 0xffff \<longleftrightarrow> ?n < 0x10000" "u \<le> 0x10ffff"
    using valid_code_point_less [OF assms] by (simp_all add: word_le_nat_alt less_eq_Suc_le)
  have low: "add_bits k 1 (x AND ucast (BOTTOM_BITS 6)) = CBB_add_u8 k (of_nat (128 + unat x mod 64))" for x
    using add_bits_eq(1) [of "x AND ucast (BOTTOM_BITS 6)" k] by (simp add: low_bits del: One_nat_def)
  note w = CBB_add_u8_refines and ww = refines_writes [OF CBB_add_u8_refines]
  have drops: "unat (drop_bit 6 u) = ?n div 64" "unat (drop_bit 12 u) = ?n div 64 ^ 2" "unat (drop_bit 18 u) = ?n div 64 ^ 3"
    by (simp_all add: unat_drop_bit)
  show ?thesis
    using valid_code_point_less [OF assms]
  proof (cases rule: utf8_cases)
    case one
    have "CBB_add_utf8 k u = CBB_add_u8 k (of_nat ?n)"
      unfolding CBB_add_utf8_def if_not_P [OF valid] le ucast_byte_eq by (simp only: one(1) if_True)
    then show ?thesis using w [of k "of_nat ?n"] one(2) by simp
  next
    case two
    have "CBB_add_utf8 k u = wand (CBB_add_u8 k (of_nat (192 + ?n div 64))) (CBB_add_u8 k (of_nat (128 + ?n mod 64)))"
      unfolding CBB_add_utf8_def if_not_P [OF valid] low using two(1,2,5) add_bits_eq(2) [of "drop_bit 6 u" k]
      by (simp add: le drops)
    then show ?thesis
      using ww [OF w, of k "of_nat (192 + ?n div 64)" "of_nat (128 + ?n mod 64)"] two(3) by (simp add: cont_bytes_simps(1) del: One_nat_def)
  next
    case three
    have "CBB_add_utf8 k u = wand (CBB_add_u8 k (of_nat (224 + ?n div 64 ^ 2)))
        (wand (CBB_add_u8 k (of_nat (128 + ?n div 64 mod 64))) (CBB_add_u8 k (of_nat (128 + ?n mod 64))))"
      unfolding CBB_add_utf8_def if_not_P [OF valid] low using three(1,2,4) add_bits_eq(3) [of "drop_bit 12 u" k]
      by (simp add: le drops)
    then show ?thesis
      using ww [OF ww [OF w], of k "of_nat (224 + ?n div 64 ^ 2)" "of_nat (128 + ?n div 64 mod 64)" "of_nat (128 + ?n mod 64)"] three(3)
      by (simp add: cont_bytes_simps(2))
  next
    case four
    have "CBB_add_utf8 k u = wand (CBB_add_u8 k (of_nat (240 + ?n div 64 ^ 3)))
        (wand (CBB_add_u8 k (of_nat (128 + ?n div 64 ^ 2 mod 64)))
          (wand (CBB_add_u8 k (of_nat (128 + ?n div 64 mod 64))) (CBB_add_u8 k (of_nat (128 + ?n mod 64)))))"
      unfolding CBB_add_utf8_def if_not_P [OF valid] low using four(1,3) le(4) add_bits_eq(4) [of "drop_bit 18 u" k]
      by (simp add: le drops)
    then show ?thesis
      using ww [OF ww [OF ww [OF w]], of k "of_nat (240 + ?n div 64 ^ 3)" "of_nat (128 + ?n div 64 ^ 2 mod 64)"
          "of_nat (128 + ?n div 64 mod 64)" "of_nat (128 + ?n mod 64)"] four(2)
      by (simp add: cont_bytes_simps(3))
  qed
qed

lemma CBB_get_utf8_len_eq: "is_valid_code_point u \<Longrightarrow> CBB_get_utf8_len u = length (utf8 (unat u))"
  by (simp add: CBB_get_utf8_len_def utf8_def word_le_nat_alt less_eq_Suc_le cont_bytes_simps del: One_nat_def)

lemma CBB_add_fixed_refines:
  assumes "unat (v :: u64) = n" "n < 256 ^ p" "p \<le> 8"
  shows "refines (\<lambda>A. k \<le> nesting A) (cbb_add_u k v p) (write_to k (be_bytes p n))"
  by (rule refines_weaken [OF cbb_add_u_refines [OF assms(3)]]) (use assms in auto)

section \<open>The interface\<close>

text \<open>
  An encoding: the reader accepts exactly the encodings of the values that have one, and the writer
  appends them, or refuses without touching the builder.
\<close>

locale codec =
  fixes dec :: "'v reader" and add :: "nat \<Rightarrow> 'v \<Rightarrow> writer" and enc :: "'v \<Rightarrow> byte list" and encodable :: "'v \<Rightarrow> bool"
  assumes dec_iff: "dec s = (Some v, t) \<longleftrightarrow> encodable v \<and> s = enc v @ t"
    and enc_nonempty: "enc v \<noteq> []"
    and add_writes: "encodable v \<Longrightarrow> refines (\<lambda>A. k \<le> nesting A) (add k v) (write_to k (enc v))"
    and add_refuses: "\<not> encodable v \<Longrightarrow> add k v b = (False, b)"

text \<open>A whole string, read to its end.\<close>

inductive decodes :: "'v reader \<Rightarrow> CBS \<Rightarrow> 'v list \<Rightarrow> bool" for dec where
  decodes_end: "decodes dec [] []"
| decodes_next: "dec s = (Some v, t) \<Longrightarrow> s \<noteq> [] \<Longrightarrow> decodes dec t vs \<Longrightarrow> decodes dec s (v # vs)"

inductive_cases decodes_NilE: "decodes dec [] vs"
inductive_cases decodes_ConsE: "decodes dec s (v # vs)"

context codec begin

lemma decodes_iff: "decodes dec s vs \<longleftrightarrow> (\<forall>v \<in> set vs. encodable v) \<and> s = concat (map enc vs)"
proof
  assume "decodes dec s vs"
  then show "(\<forall>v \<in> set vs. encodable v) \<and> s = concat (map enc vs)"
    by (induction rule: decodes.induct) (auto simp: dec_iff)
next
  assume "(\<forall>v \<in> set vs. encodable v) \<and> s = concat (map enc vs)"
  then show "decodes dec s vs"
  proof (induction vs arbitrary: s)
    case (Cons v vs)
    then show ?case using enc_nonempty [of v]
      by (intro decodes_next [of _ _ _ "concat (map enc vs)"]) (auto simp: dec_iff)
  qed (simp add: decodes_end)
qed

lemma decodes_unique: "decodes dec s vs \<Longrightarrow> decodes dec s ws \<Longrightarrow> vs = ws"
proof (induction arbitrary: ws rule: decodes.induct)
  case decodes_end
  then show ?case by (auto elim: decodes.cases)
next
  case (decodes_next s v t vs)
  from decodes_next.prems decodes_next.hyps(1,2) obtain ws' where "ws = v # ws'" "decodes dec t ws'"
    by (auto elim: decodes.cases)
  with decodes_next.IH show ?case by simp
qed

end

interpretation utf8: codec CBS_get_utf8 CBB_add_utf8 "\<lambda>v. utf8 (unat v)" is_valid_code_point
proof
  show "utf8 (unat v) \<noteq> []" for v :: u32 by (simp add: utf8_def)
  show "CBB_add_utf8 k v b = (False, b)" if "\<not> is_valid_code_point v" for k v b
    using that by (simp add: CBB_add_utf8_def)
qed (simp_all add: CBS_get_utf8_iff CBB_add_utf8_refines)

interpretation latin1: codec CBS_get_latin1 CBB_add_latin1 "\<lambda>v. [of_nat (unat v)]" "\<lambda>v. unat v < 256"
proof
  have le: "v \<le> 0xff \<longleftrightarrow> unat v < 256" for v :: u32 by (simp add: word_le_nat_alt less_eq_Suc_le)
  show "refines (\<lambda>A. k \<le> nesting A) (CBB_add_latin1 k v) (write_to k [of_nat (unat v)])" if "unat v < 256" for k v
    unfolding CBB_add_latin1_def le if_P [OF that] ucast_byte_eq by (rule CBB_add_u8_refines)
  show "CBB_add_latin1 k v b = (False, b)" if "\<not> unat v < 256" for k v b
    using that by (simp add: CBB_add_latin1_def le)
qed (simp_all add: CBS_get_latin1_iff)

interpretation ucs2: codec CBS_get_ucs2_be CBB_add_ucs2_be "\<lambda>v. be_bytes 2 (unat v)"
  "\<lambda>v. unat v < 0x10000 \<and> is_valid_code_point v"
proof
  have le: "v \<le> 0xffff \<longleftrightarrow> unat v < 0x10000" for v :: u32 by (simp add: word_le_nat_alt less_eq_Suc_le)
  show "be_bytes 2 (unat v) \<noteq> []" for v :: u32 using length_be_bytes [of 2 "unat v"] by force
  show "refines (\<lambda>A. k \<le> nesting A) (CBB_add_ucs2_be k v) (write_to k (be_bytes 2 (unat v)))"
    if v: "unat v < 0x10000 \<and> is_valid_code_point v" for k v
  proof -
    have "unat (ucast (ucast v :: u16) :: u64) = unat v"
      using v by (simp add: unat_ucast_up unat_ucast_small)
    from CBB_add_fixed_refines [OF this, of 2] v show ?thesis by (simp add: CBB_add_ucs2_be_def CBB_add_u16_def le)
  qed
  show "CBB_add_ucs2_be k v b = (False, b)" if "\<not> (unat v < 0x10000 \<and> is_valid_code_point v)" for k v b
    using that by (auto simp: CBB_add_ucs2_be_def le)
qed (simp add: CBS_get_ucs2_be_iff)

interpretation utf32: codec CBS_get_utf32_be CBB_add_utf32_be "\<lambda>v. be_bytes 4 (unat v)" is_valid_code_point
proof
  show "be_bytes 4 (unat v) \<noteq> []" for v :: u32 using length_be_bytes [of 4 "unat v"] by force
  show "refines (\<lambda>A. k \<le> nesting A) (CBB_add_utf32_be k v) (write_to k (be_bytes 4 (unat v)))"
    if v: "is_valid_code_point v" for k v
  proof -
    have "unat (ucast v :: u64) = unat v" by (rule unat_ucast_up) simp
    from CBB_add_fixed_refines [OF this, of 4] v valid_code_point_less [OF v] show ?thesis
      by (simp add: CBB_add_utf32_be_def CBB_add_u32_def)
  qed
  show "CBB_add_utf32_be k v b = (False, b)" if "\<not> is_valid_code_point v" for k v b
    using that by (simp add: CBB_add_utf32_be_def)
qed (simp_all add: CBS_get_utf32_be_iff)

end
