(* ===== verification/Mbstring.thy ===== *)
theory Mbstring
  imports Ber Asn1_String String_Table Unicode
begin

text \<open>
  The conversion of strings between encodings, \<open>crypto/asn1/a_mbstr.c\<close>, and its use with the bounds
  of a NID in \<open>crypto/asn1/a_strnid.c\<close>. The conversion is shown to choose the first permitted type
  that can hold the string, and to write the string in it.
\<close>

section \<open>The functions\<close>

datatype mb_error = INVALID_BMPSTRING | INVALID_UNIVERSALSTRING | INVALID_UTF8STRING | INTERNAL_ERROR
  | UNKNOWN_FORMAT | ILLEGAL_CHARACTERS | STRING_TOO_LONG | STRING_TOO_SHORT | NO_MEMORY

abbreviation MBSTRING_UTF8 :: int where "MBSTRING_UTF8 \<equiv> 0x1000"
abbreviation MBSTRING_ASC :: int where "MBSTRING_ASC \<equiv> 0x1001"
abbreviation MBSTRING_BMP :: int where "MBSTRING_BMP \<equiv> 0x1002"
abbreviation MBSTRING_UNIV :: int where "MBSTRING_UNIV \<equiv> 0x1004"
abbreviation V_ASN1_UTF8STRING :: int where "V_ASN1_UTF8STRING \<equiv> 12"
abbreviation V_ASN1_PRINTABLESTRING :: int where "V_ASN1_PRINTABLESTRING \<equiv> 19"
abbreviation V_ASN1_T61STRING :: int where "V_ASN1_T61STRING \<equiv> 20"
abbreviation V_ASN1_IA5STRING :: int where "V_ASN1_IA5STRING \<equiv> 22"
abbreviation V_ASN1_UNIVERSALSTRING :: int where "V_ASN1_UNIVERSALSTRING \<equiv> 28"
abbreviation V_ASN1_BMPSTRING :: int where "V_ASN1_BMPSTRING \<equiv> 30"

definition OPENSSL_isalpha :: "u32 \<Rightarrow> bool" where
  "OPENSSL_isalpha c \<longleftrightarrow> (c \<ge> 0x61 \<and> c \<le> 0x7a) \<or> (c \<ge> 0x41 \<and> c \<le> 0x5a)"

definition OPENSSL_isalnum :: "u32 \<Rightarrow> bool" where
  "OPENSSL_isalnum c \<longleftrightarrow> OPENSSL_isalpha c \<or> OPENSSL_isdigit (ucast c)"

text \<open>The characters are those of \<open>' \\'()+,-./:=?\<close>.\<close>

definition asn1_is_printable :: "u32 \<Rightarrow> bool" where
  "asn1_is_printable c \<longleftrightarrow>
     (if c > 0x7f then False
      else OPENSSL_isalnum c \<or> c = 0x20 \<or> c = 0x27 \<or> c = 0x28 \<or> c = 0x29 \<or> c = 0x2b \<or> c = 0x2c \<or> c = 0x2d \<or>
        c = 0x2e \<or> c = 0x2f \<or> c = 0x3a \<or> c = 0x3d \<or> c = 0x3f)"

text \<open>The choice of \<open>decode_func\<close>, and of \<open>error\<close>, which is None for an unknown format.\<close>

definition mb_decode :: "int \<Rightarrow> u32 reader" where
  "mb_decode inform =
     (if inform = MBSTRING_BMP then CBS_get_ucs2_be
      else if inform = MBSTRING_UNIV then CBS_get_utf32_be
      else if inform = MBSTRING_UTF8 then CBS_get_utf8
      else CBS_get_latin1)"

definition mb_format :: "int \<Rightarrow> mb_error option" where
  "mb_format inform =
     (if inform = MBSTRING_BMP then Some INVALID_BMPSTRING
      else if inform = MBSTRING_UNIV then Some INVALID_UNIVERSALSTRING
      else if inform = MBSTRING_UTF8 then Some INVALID_UTF8STRING
      else if inform = MBSTRING_ASC then Some INTERNAL_ERROR
      else None)"

lemma mb_decode_shorter: "mb_decode inform s = (Some c, t) \<Longrightarrow> length t < length s"
  using utf8.enc_nonempty [of c] utf32.enc_nonempty [of c] ucs2.enc_nonempty [of c]
  by (auto simp: mb_decode_def utf8.dec_iff utf32.dec_iff ucs2.dec_iff latin1.dec_iff split: if_splits)

text \<open>The output types that are still possible after a code point.\<close>

definition mb_narrow :: "u64 \<Rightarrow> u32 \<Rightarrow> u64" where
  "mb_narrow permitted c =
     (let permitted = (if permitted AND B_ASN1_PRINTABLESTRING \<noteq> 0 \<and> \<not> asn1_is_printable c then permitted AND NOT B_ASN1_PRINTABLESTRING else permitted);
          permitted = (if permitted AND B_ASN1_IA5STRING \<noteq> 0 \<and> c > 127 then permitted AND NOT B_ASN1_IA5STRING else permitted);
          permitted = (if permitted AND B_ASN1_T61STRING \<noteq> 0 \<and> c > 0xff then permitted AND NOT B_ASN1_T61STRING else permitted);
          permitted = (if permitted AND B_ASN1_BMPSTRING \<noteq> 0 \<and> c > 0xffff then permitted AND NOT B_ASN1_BMPSTRING else permitted)
      in permitted)"

text \<open>The first loop, with the permitted types, the number of code points and the length in UTF-8 so far.\<close>

function mb_scan :: "int \<Rightarrow> mb_error \<Rightarrow> int \<Rightarrow> u64 \<Rightarrow> nat \<Rightarrow> nat \<Rightarrow> CBS \<Rightarrow> mb_error + u64 \<times> nat \<times> nat" where
  "mb_scan inform err max_size permitted nchar utf8_len cbs =
     (if length cbs = 0 then Inr (permitted, nchar, utf8_len)
      else (case mb_decode inform cbs of
              (None, _) \<Rightarrow> Inl err
            | (Some c, cbs) \<Rightarrow>
                if nchar = 0 \<and> (inform = MBSTRING_BMP \<or> inform = MBSTRING_UNIV) \<and> c = 0xfeff then Inl ILLEGAL_CHARACTERS
                else if mb_narrow permitted c = 0 then Inl ILLEGAL_CHARACTERS
                else if max_size > 0 \<and> nchar + 1 > nat max_size then Inl STRING_TOO_LONG
                else mb_scan inform err max_size (mb_narrow permitted c) (nchar + 1) (utf8_len + CBB_get_utf8_len c) cbs))"
  by pat_completeness auto
termination
  by (relation "measure (\<lambda>(_, _, _, _, _, _, cbs). length cbs)") (auto dest: mb_decode_shorter [OF sym])

declare mb_scan.simps [simp del]

text \<open>\<open>str_type\<close>, \<open>encode_func\<close>, \<open>size_estimate\<close> and \<open>outform\<close>.\<close>

definition mb_output :: "u64 \<Rightarrow> nat \<Rightarrow> nat \<Rightarrow> (int \<times> (nat \<Rightarrow> u32 \<Rightarrow> writer) \<times> nat \<times> int) option" where
  "mb_output permitted nchar utf8_len =
     (if permitted AND B_ASN1_PRINTABLESTRING \<noteq> 0 then Some (V_ASN1_PRINTABLESTRING, CBB_add_latin1, nchar, MBSTRING_ASC)
      else if permitted AND B_ASN1_IA5STRING \<noteq> 0 then Some (V_ASN1_IA5STRING, CBB_add_latin1, nchar, MBSTRING_ASC)
      else if permitted AND B_ASN1_T61STRING \<noteq> 0 then Some (V_ASN1_T61STRING, CBB_add_latin1, nchar, MBSTRING_ASC)
      else if permitted AND B_ASN1_BMPSTRING \<noteq> 0 then Some (V_ASN1_BMPSTRING, CBB_add_ucs2_be, 2 * nchar, MBSTRING_BMP)
      else if permitted AND B_ASN1_UNIVERSALSTRING \<noteq> 0
      then Some (V_ASN1_UNIVERSALSTRING, CBB_add_utf32_be, 4 * nchar, MBSTRING_UNIV)
      else if permitted AND B_ASN1_UTF8STRING \<noteq> 0 then Some (V_ASN1_UTF8STRING, CBB_add_utf8, utf8_len, MBSTRING_UTF8)
      else None)"

text \<open>The second loop.\<close>

function mb_write :: "int \<Rightarrow> (nat \<Rightarrow> u32 \<Rightarrow> writer) \<Rightarrow> CBS \<Rightarrow> writer" where
  "mb_write inform encode_func cbs cbb =
     (if length cbs = 0 then (True, cbb)
      else (case mb_decode inform cbs of
              (None, _) \<Rightarrow> (False, cbb)
            | (Some c, cbs) \<Rightarrow> wand (encode_func 0 c) (mb_write inform encode_func cbs) cbb))"
  by pat_completeness auto
termination
  by (relation "measure (\<lambda>(_, _, cbs, _). length cbs)") (auto dest: mb_decode_shorter [OF sym])

declare mb_write.simps [simp del]

text \<open>
  The object that is made or changed, for the type that was chosen: \<open>slot\<close> is what \<open>*out\<close> points to, if
  anything, and afterwards.
\<close>

definition mb_store ::
  "(nat \<Rightarrow> bool) \<Rightarrow> (nat \<Rightarrow> byte) \<Rightarrow> ASN1_STRING option \<Rightarrow> byte list \<Rightarrow> int \<Rightarrow> int \<Rightarrow> int \<Rightarrow> (nat \<Rightarrow> u32 \<Rightarrow> writer) \<Rightarrow> nat \<Rightarrow>
   int \<Rightarrow> (mb_error + int) \<times> ASN1_STRING option"
where
  "mb_store alloc junk slot inp len inform type encode_func size_estimate outform =
     (case (case slot of Some dest \<Rightarrow> Some dest | None \<Rightarrow> ASN1_STRING_type_new alloc type) of
        None \<Rightarrow> (Inl NO_MEMORY, slot)
      | Some dest \<Rightarrow>
          if inform = outform
          then (case ASN1_STRING_set alloc junk dest (Some inp) len of
                  (False, dest) \<Rightarrow> (Inl NO_MEMORY, map_option (\<lambda>_. dest) slot)
                | (True, dest) \<Rightarrow> (Inr type, Some (dest\<lparr>str_type := type\<rparr>)))
          else (case CBB_init alloc (size_estimate + 1) of
                  None \<Rightarrow> (Inl NO_MEMORY, slot)
                | Some cbb \<Rightarrow>
                    (case wand (mb_write inform encode_func (take (nat len) inp)) (CBB_add_u8 0 0) cbb of
                       (False, _) \<Rightarrow> (Inl INTERNAL_ERROR, slot)
                     | (True, cbb) \<Rightarrow>
                         (case CBB_finish 0 True cbb of
                            (None, _) \<Rightarrow> (Inl INTERNAL_ERROR, slot)
                          | (Some bytes, _) \<Rightarrow>
                              if length bytes < 1 \<or> int (length bytes) > INT_LIMIT then (Inl INTERNAL_ERROR, slot)
                              else (Inr type,
                                Some (ASN1_STRING_set0 (dest\<lparr>str_type := type\<rparr>) (Some bytes) (length bytes - 1)))))))"

text \<open>
  \<open>out\<close> is None for a null pointer, and otherwise holds the object that it points to, if any. A
  negative return is an error value. \<open>inp\<close> is what can be read at \<open>in\<close>.
\<close>

definition ASN1_mbstring_ncopy ::
  "(nat \<Rightarrow> bool) \<Rightarrow> (nat \<Rightarrow> byte) \<Rightarrow> ASN1_STRING option option \<Rightarrow> byte list \<Rightarrow> int \<Rightarrow> int \<Rightarrow> u64 \<Rightarrow> int \<Rightarrow> int \<Rightarrow>
   (mb_error + int) \<times> ASN1_STRING option option"
where
  "ASN1_mbstring_ncopy alloc junk out inp len inform permitted min_size max_size =
     (let len = (if len = -1 then int (length (takeWhile (\<lambda>b. b \<noteq> 0) inp)) else len);
          permitted = (if permitted = 0 then DIRSTRING_TYPE else permitted)
      in (case mb_format inform of
            None \<Rightarrow> (Inl UNKNOWN_FORMAT, out)
          | Some err \<Rightarrow>
              (case mb_scan inform err max_size permitted 0 0 (take (nat len) inp) of
                 Inl e \<Rightarrow> (Inl e, out)
               | Inr (permitted, nchar, utf8_len) \<Rightarrow>
                   if min_size > 0 \<and> nchar < nat min_size then (Inl STRING_TOO_SHORT, out)
                   else (case mb_output permitted nchar utf8_len of
                           None \<Rightarrow> (Inl ILLEGAL_CHARACTERS, out)
                         | Some (type, encode_func, size_estimate, outform) \<Rightarrow>
                             (case out of
                                None \<Rightarrow> (Inr type, None)
                              | Some slot \<Rightarrow>
                                  apsnd Some (mb_store alloc junk slot inp len inform type encode_func size_estimate outform))))))"

definition ASN1_mbstring_copy ::
  "(nat \<Rightarrow> bool) \<Rightarrow> (nat \<Rightarrow> byte) \<Rightarrow> ASN1_STRING option option \<Rightarrow> byte list \<Rightarrow> int \<Rightarrow> int \<Rightarrow> u64 \<Rightarrow>
   (mb_error + int) \<times> ASN1_STRING option option"
where
  "ASN1_mbstring_copy alloc junk out inp len inform permitted = ASN1_mbstring_ncopy alloc junk out inp len inform permitted 0 0"

text \<open>The returned pointer and \<open>*out\<close>.\<close>

definition ASN1_STRING_set_by_NID ::
  "(nat \<Rightarrow> bool) \<Rightarrow> (nat \<Rightarrow> byte) \<Rightarrow> string_tables \<Rightarrow> ASN1_STRING option option \<Rightarrow> byte list \<Rightarrow> int \<Rightarrow> int \<Rightarrow> int \<Rightarrow>
   ASN1_STRING option \<times> ASN1_STRING option option"
where
  "ASN1_STRING_set_by_NID alloc junk tables out inp len inform n =
     (let slot = (case out of None \<Rightarrow> Some None | Some _ \<Rightarrow> out);
          (ret, slot) =
            (case asn1_string_table_get tables n of
               Some tbl \<Rightarrow>
                 let permitted = (if flags tbl AND STABLE_NO_MASK = 0 then mask_of tbl AND B_ASN1_UTF8STRING else mask_of tbl)
                 in ASN1_mbstring_ncopy alloc junk slot inp len inform permitted (minsize tbl) (maxsize tbl)
             | None \<Rightarrow> ASN1_mbstring_copy alloc junk slot inp len inform B_ASN1_UTF8STRING);
          out = (case out of None \<Rightarrow> None | Some _ \<Rightarrow> slot)
      in case ret of Inl _ \<Rightarrow> (None, out)
         | Inr type \<Rightarrow> if type \<le> 0 then (None, out) else (the slot, out))"


section \<open>The encodings\<close>

definition mb_enc :: "int \<Rightarrow> u32 \<Rightarrow> byte list" where
  "mb_enc form v =
     (if form = MBSTRING_BMP then be_bytes 2 (unat v)
      else if form = MBSTRING_UNIV then be_bytes 4 (unat v)
      else if form = MBSTRING_UTF8 then utf8 (unat v)
      else [of_nat (unat v)])"

definition mb_ok :: "int \<Rightarrow> u32 \<Rightarrow> bool" where
  "mb_ok form v \<longleftrightarrow>
     (if form = MBSTRING_BMP then unat v < 0x10000 \<and> is_valid_code_point v
      else if form = MBSTRING_UNIV \<or> form = MBSTRING_UTF8 then is_valid_code_point v
      else unat v < 256)"

definition mb_add :: "int \<Rightarrow> nat \<Rightarrow> u32 \<Rightarrow> writer" where
  "mb_add form =
     (if form = MBSTRING_BMP then CBB_add_ucs2_be
      else if form = MBSTRING_UNIV then CBB_add_utf32_be
      else if form = MBSTRING_UTF8 then CBB_add_utf8
      else CBB_add_latin1)"

interpretation mb: codec "mb_decode form" "mb_add form" "mb_enc form" "mb_ok form"
proof -
  consider "form = MBSTRING_BMP" | "form = MBSTRING_UNIV" | "form = MBSTRING_UTF8"
    | "form \<noteq> MBSTRING_BMP" "form \<noteq> MBSTRING_UNIV" "form \<noteq> MBSTRING_UTF8" by blast
  then show "codec (mb_decode form) (mb_add form) (mb_enc form) (mb_ok form)"
    using utf8.codec_axioms latin1.codec_axioms ucs2.codec_axioms utf32.codec_axioms
    by cases (simp_all add: mb_decode_def mb_add_def mb_enc_def [abs_def] mb_ok_def [abs_def])
qed

lemma mb_ok_valid: "mb_ok form v \<Longrightarrow> is_valid_code_point v"
  using ascii_valid [of v] by (auto simp: mb_ok_def split: if_splits)

section \<open>The choice of a type\<close>

text \<open>The types in order of preference: its bit, its tag, its encoding, and what it can hold.\<close>

definition can_hold :: "u64 \<Rightarrow> u32 \<Rightarrow> bool" where
  "can_hold b c \<longleftrightarrow>
     (if b = B_ASN1_PRINTABLESTRING then asn1_is_printable c
      else if b = B_ASN1_IA5STRING then unat c < 128
      else if b = B_ASN1_T61STRING then unat c < 256
      else if b = B_ASN1_BMPSTRING then unat c < 0x10000
      else True)"

definition string_types :: "(u64 \<times> int \<times> int) list" where
  "string_types =
     [(B_ASN1_PRINTABLESTRING, V_ASN1_PRINTABLESTRING, MBSTRING_ASC), (B_ASN1_IA5STRING, V_ASN1_IA5STRING, MBSTRING_ASC),
      (B_ASN1_T61STRING, V_ASN1_T61STRING, MBSTRING_ASC), (B_ASN1_BMPSTRING, V_ASN1_BMPSTRING, MBSTRING_BMP),
      (B_ASN1_UNIVERSALSTRING, V_ASN1_UNIVERSALSTRING, MBSTRING_UNIV), (B_ASN1_UTF8STRING, V_ASN1_UTF8STRING, MBSTRING_UTF8)]"

definition allowed :: "u64 \<Rightarrow> u32 list \<Rightarrow> u64 \<Rightarrow> bool" where
  "allowed permitted vs b \<longleftrightarrow> permitted AND b \<noteq> 0 \<and> (\<forall>c \<in> set vs. can_hold b c)"

definition choose_type :: "u64 \<Rightarrow> u32 list \<Rightarrow> (int \<times> int) option" where
  "choose_type permitted vs = map_option snd (find (\<lambda>(b, _). allowed permitted vs b) string_types)"

lemma mb_narrow_eq:
  "mb_narrow m c = (((m AND NOT (if asn1_is_printable c then 0 else B_ASN1_PRINTABLESTRING))
     AND NOT (if unat c < 128 then 0 else B_ASN1_IA5STRING)) AND NOT (if unat c < 256 then 0 else B_ASN1_T61STRING))
     AND NOT (if unat c < 0x10000 then 0 else B_ASN1_BMPSTRING)"
proof -
  have drop: "(if x AND b \<noteq> 0 \<and> p then x AND NOT b else x) = x AND NOT (if p then b else 0)" for x b :: u64 and p
  proof (cases "x AND b = 0")
    case True
    have "x = x AND (b OR NOT b)" by simp
    also have "\<dots> = x AND NOT b" unfolding bit.conj_disj_distrib using True by simp
    finally show ?thesis using True by simp
  qed simp
  have le: "c > 127 \<longleftrightarrow> \<not> unat c < 128" "c > 0xff \<longleftrightarrow> \<not> unat c < 256" "c > 0xffff \<longleftrightarrow> \<not> unat c < 0x10000"
    by (auto simp: word_less_nat_alt)
  have swap: "(if \<not> p then b else 0) = (if p then 0 else b)" for p and b :: u64 by simp
  show ?thesis unfolding mb_narrow_def Let_def drop le swap ..
qed

lemma bit_types:
  "b \<in> fst ` set string_types \<longleftrightarrow> b = B_ASN1_PRINTABLESTRING \<or> b = B_ASN1_IA5STRING \<or> b = B_ASN1_T61STRING \<or>
     b = B_ASN1_BMPSTRING \<or> b = B_ASN1_UNIVERSALSTRING \<or> b = B_ASN1_UTF8STRING"
  by (simp add: string_types_def)

lemma mb_narrow_bit:
  assumes "b \<in> fst ` set string_types"
  shows "mb_narrow m c AND b \<noteq> 0 \<longleftrightarrow> m AND b \<noteq> 0 \<and> can_hold b c"
  using assms unfolding bit_types mb_narrow_eq can_hold_def
  by (elim disjE) (simp_all add: and.assoc split: if_split)

lemma narrow_allowed:
  assumes "b \<in> fst ` set string_types"
  shows "foldl mb_narrow m vs AND b \<noteq> 0 \<longleftrightarrow> allowed m vs b"
  by (induction vs arbitrary: m) (auto simp: allowed_def mb_narrow_bit [OF assms])

lemma narrow_0: "foldl mb_narrow 0 vs = 0"
  by (induction vs) (simp_all add: mb_narrow_def Let_def)

text \<open>The output that the code selects is the first type that is allowed.\<close>

lemma mb_output_iff:
  "mb_output (foldl mb_narrow m vs) nchar len =
     (case choose_type m vs of None \<Rightarrow> None
      | Some (type, form) \<Rightarrow> Some (type, mb_add form,
          if form = MBSTRING_ASC then nchar else if form = MBSTRING_BMP then 2 * nchar
          else if form = MBSTRING_UNIV then 4 * nchar else len, form))"
proof -
  have bits: "foldl mb_narrow m vs AND b \<noteq> 0 \<longleftrightarrow> allowed m vs b" if "b \<in> set (map fst string_types)" for b
    using that by (intro narrow_allowed) simp
  show ?thesis
    unfolding mb_output_def choose_type_def
    by (simp add: bits [simplified string_types_def, simplified] string_types_def mb_add_def split: if_splits)
qed

text \<open>A chosen type can hold the string.\<close>

lemma choose_type_ok:
  assumes "choose_type m vs = Some (type, form)" "\<forall>v \<in> set vs. mb_ok inform v"
  shows "(\<forall>v \<in> set vs. mb_ok form v) \<and> mb_format form \<noteq> None \<and> 0 < type"
proof -
  obtain b where f: "find (\<lambda>(b, _). allowed m vs b) string_types = Some (b, type, form)"
    using assms(1) by (auto simp: choose_type_def)
  then obtain i where "i < length string_types" "string_types ! i = (b, type, form)" "allowed m vs b"
    unfolding find_Some_iff by auto
  then have b: "(b, type, form) \<in> set string_types" "\<forall>c \<in> set vs. can_hold b c"
    by (metis nth_mem, simp add: allowed_def)
  have "mb_ok form c" if "c \<in> set vs" for c
  proof -
    have valid: "is_valid_code_point c" using assms(2) that mb_ok_valid by blast
    have printable: "unat c < 128" if "asn1_is_printable c"
      using that by (simp add: asn1_is_printable_def word_less_nat_alt split: if_splits)
    have "can_hold b c" using b(2) that by blast
    with b(1) show ?thesis
      unfolding string_types_def set_simps insert_iff prod.inject empty_iff
      by (elim disjE conjE) (use valid printable in \<open>simp_all add: can_hold_def mb_ok_def\<close>)
  qed
  moreover have "mb_format form \<noteq> None \<and> 0 < type" using b(1)
    unfolding string_types_def set_simps insert_iff prod.inject empty_iff by (elim disjE conjE) (simp_all add: mb_format_def)
  ultimately show ?thesis by blast
qed

section \<open>The loops\<close>

definition no_bom :: "int \<Rightarrow> u32 list \<Rightarrow> bool" where
  "no_bom inform vs \<longleftrightarrow> \<not> ((inform = MBSTRING_BMP \<or> inform = MBSTRING_UNIV) \<and> vs \<noteq> [] \<and> hd vs = 0xfeff)"

lemma mb_scan_iff:
  "mb_scan inform err max_size m nchar len s = Inr (m', nchar', len') \<longleftrightarrow>
     (\<exists>vs. decodes (mb_decode inform) s vs \<and> (nchar = 0 \<longrightarrow> no_bom inform vs) \<and> m' = foldl mb_narrow m vs \<and>
        (vs \<noteq> [] \<longrightarrow> m' \<noteq> 0 \<and> (max_size > 0 \<longrightarrow> nchar' \<le> nat max_size)) \<and>
        nchar' = nchar + length vs \<and> len' = len + sum_list (map CBB_get_utf8_len vs))"
proof (induction inform err max_size m nchar len s rule: mb_scan.induct)
  case (1 inform err max_size m nchar len s)
  show ?case
  proof (cases "s = []")
    case True
    have "decodes (mb_decode inform) [] vs \<longleftrightarrow> vs = []" for vs by (auto intro: decodes_end elim: decodes_NilE)
    then show ?thesis unfolding True by (auto simp: mb_scan.simps [of _ _ _ _ _ _ "[]"] no_bom_def)
  next
    case False
    note step = mb_scan.simps [of inform err max_size m nchar len s]
    show ?thesis
    proof (cases "fst (mb_decode inform s)")
      case None
      then have "\<not> decodes (mb_decode inform) s vs" for vs using False by (auto elim: decodes.cases)
      with None False show ?thesis unfolding step by (auto split: prod.splits)
    next
      case (Some c)
      then obtain t where d: "mb_decode inform s = (Some c, t)" by (cases "mb_decode inform s") auto
      have dec: "decodes (mb_decode inform) s vs \<longleftrightarrow> (\<exists>ws. vs = c # ws \<and> decodes (mb_decode inform) t ws)" for vs
        using False d by (auto intro: decodes_next elim: decodes.cases)
      have IH: "mb_scan inform err max_size (mb_narrow m c) (nchar + 1) (len + CBB_get_utf8_len c) t = Inr (m', nchar', len') \<longleftrightarrow>
          (\<exists>vs. decodes (mb_decode inform) t vs \<and> m' = foldl mb_narrow (mb_narrow m c) vs \<and>
            (vs \<noteq> [] \<longrightarrow> m' \<noteq> 0 \<and> (max_size > 0 \<longrightarrow> nchar' \<le> nat max_size)) \<and>
            nchar' = nchar + 1 + length vs \<and> len' = len + CBB_get_utf8_len c + sum_list (map CBB_get_utf8_len vs))"
        if "\<not> (nchar = 0 \<and> (inform = MBSTRING_BMP \<or> inform = MBSTRING_UNIV) \<and> c = 0xfeff)" "mb_narrow m c \<noteq> 0"
          "\<not> (max_size > 0 \<and> nchar + 1 > nat max_size)"
        using 1 [OF _ d [symmetric] refl that] False by simp
      consider (bom) "nchar = 0 \<and> (inform = MBSTRING_BMP \<or> inform = MBSTRING_UNIV) \<and> c = 0xfeff"
        | (none) "\<not> (nchar = 0 \<and> (inform = MBSTRING_BMP \<or> inform = MBSTRING_UNIV) \<and> c = 0xfeff)" "mb_narrow m c = 0"
        | (long) "\<not> (nchar = 0 \<and> (inform = MBSTRING_BMP \<or> inform = MBSTRING_UNIV) \<and> c = 0xfeff)" "mb_narrow m c \<noteq> 0"
          "max_size > 0 \<and> nchar + 1 > nat max_size"
        | (more) "\<not> (nchar = 0 \<and> (inform = MBSTRING_BMP \<or> inform = MBSTRING_UNIV) \<and> c = 0xfeff)" "mb_narrow m c \<noteq> 0"
          "\<not> (max_size > 0 \<and> nchar + 1 > nat max_size)" by blast
      then show ?thesis
      proof cases
        case bom
        then have "mb_scan inform err max_size m nchar len s = Inl ILLEGAL_CHARACTERS"
          unfolding step d using False by simp
        with bom show ?thesis unfolding dec by (auto simp: no_bom_def)
      next
        case none
        then have "mb_scan inform err max_size m nchar len s = Inl ILLEGAL_CHARACTERS"
          unfolding step d using False by simp
        with none show ?thesis unfolding dec by (auto simp: narrow_0)
      next
        case long
        then have "mb_scan inform err max_size m nchar len s = Inl STRING_TOO_LONG"
          unfolding step d using False by simp
        with long show ?thesis unfolding dec by auto
      next
        case more
        then have e: "mb_scan inform err max_size m nchar len s =
            mb_scan inform err max_size (mb_narrow m c) (nchar + 1) (len + CBB_get_utf8_len c) t"
          using False by (simp only: step d prod.case option.case length_0_conv if_False if_not_P [OF more(1)]
              if_not_P [OF more(2)] if_not_P [OF more(3)])
        have "nchar = 0 \<Longrightarrow> no_bom inform (c # ws)" for ws using more(1) by (auto simp: no_bom_def)
        moreover have "nchar + 1 \<le> nat max_size" if "max_size > 0" using more(3) that by linarith
        ultimately show ?thesis unfolding e IH [OF more] dec using more(2) by fastforce
      qed
    qed
  qed
qed


text \<open>The second loop and the terminator.\<close>

lemma wand_assoc: "wand (wand a b) c = wand a (wand b c)"
  by (auto simp: wand_def fun_eq_iff split: prod.splits bool.splits)

lemma mb_write_next:
  assumes "mb_decode inform s = (Some c, t)"
  shows "mb_write inform encode_func s = wand (encode_func 0 c) (mb_write inform encode_func t)"
proof
  fix b
  have "s \<noteq> []" using mb_decode_shorter [OF assms] by auto
  then show "mb_write inform encode_func s b = wand (encode_func 0 c) (mb_write inform encode_func t) b"
    by (subst mb_write.simps) (simp add: assms)
qed

lemma mb_write_refines:
  assumes "decodes (mb_decode inform) s vs" "\<forall>v \<in> set vs. mb_ok form v"
  shows "refines (\<lambda>A. 0 \<le> nesting A) (wand (mb_write inform (mb_add form) s) (CBB_add_u8 0 0))
    (write_to 0 (concat (map (mb_enc form) vs) @ [0]))"
  using assms
proof (induction rule: decodes.induct)
  case decodes_end
  have "mb_write inform (mb_add form) [] = (\<lambda>s. (True, s))" by (rule ext) (simp add: mb_write.simps)
  then have "wand (mb_write inform (mb_add form) []) (CBB_add_u8 0 0) = CBB_add_u8 0 0"
    by (simp add: wand_def fun_eq_iff)
  then show ?case using CBB_add_u8_refines [of 0 0] by simp
next
  case (decodes_next s v t vs)
  have "refines (\<lambda>A. 0 \<le> nesting A) (mb_add form 0 v) (write_to 0 (mb_enc form v))"
    using decodes_next.prems by (intro mb.add_writes) simp
  from refines_writes [OF this decodes_next.IH] decodes_next.prems show ?case
    unfolding mb_write_next [OF decodes_next.hyps(1)] wand_assoc by simp
qed

lemma length_mb_enc: "length (mb_enc form v) \<le> 4"
  by (simp add: mb_enc_def utf8_def cont_bytes_simps del: One_nat_def)

lemma mb_enc_length:
  "length (concat (map (mb_enc form) vs)) \<le> 4 * length vs" "length vs \<le> length (concat (map (mb_enc form) vs))"
proof -
  show "length (concat (map (mb_enc form) vs)) \<le> 4 * length vs"
  proof (induction vs)
    case (Cons v vs)
    then show ?case using length_mb_enc [of form v] by simp
  qed simp
  show "length vs \<le> length (concat (map (mb_enc form) vs))"
  proof (induction vs)
    case (Cons v vs)
    have "1 \<le> length (mb_enc form v)" using mb.enc_nonempty [of form v] by (cases "mb_enc form v") simp_all
    moreover have "length vs \<le> length (concat (map (mb_enc form) vs))" by (rule Cons)
    ultimately have "1 + length vs \<le> length (mb_enc form v) + length (concat (map (mb_enc form) vs))" by linarith
    then show ?case by simp
  qed simp
qed

section \<open>The conversion\<close>

lemma str_bytes_stored:
  "str_bytes (ASN1_STRING_set0 s (Some (bs @ [0])) (length bs)) = bs"
  "str_bytes (s\<lparr>str_data := Some (bs @ 0 # rest), str_length := length bs, str_type := type\<rparr>) = bs"
  by (simp_all add: ASN1_STRING_set0_def str_bytes_def str_block_def)

lemma mb_store_correct:
  assumes len: "0 \<le> len" "nat len \<le> length inp" "len \<le> int ASN1_STRING_MAX"
    and dec: "decodes (mb_decode inform) (take (nat len) inp) vs" and ok: "\<forall>v \<in> set vs. mb_ok form v"
    and size: "size_estimate \<le> 4 * length vs"
  shows "\<exists>str. mb_store (\<lambda>_. True) junk slot inp len inform type (mb_add form) size_estimate form = (Inr type, Some str) \<and>
    str_type str = type \<and> str_bytes str = concat (map (mb_enc form) vs)"
proof -
  let ?bs = "concat (map (mb_enc form) vs)"
  obtain dest where dest: "(case slot of Some dest \<Rightarrow> Some dest | None \<Rightarrow> ASN1_STRING_type_new (\<lambda>_. True) type) = Some dest"
    by (cases slot) (simp_all add: ASN1_STRING_type_new_def)
  have input: "take (nat len) inp = concat (map (mb_enc inform) vs)" using dec by (simp add: mb.decodes_iff)
  have n: "length vs \<le> ASN1_STRING_MAX"
    using mb_enc_length(2) [where form = inform and vs = vs] len unfolding input [symmetric] by simp
  show ?thesis
  proof (cases "inform = form")
    case True
    have "length (take (nat len) inp) = nat len" using len by simp
    then have l: "int (length ?bs) = len" "length ?bs \<le> ASN1_STRING_MAX" using len input True by simp_all
    have "take (nat len) ?bs = take (nat len) inp" using input [symmetric] unfolding True by simp
    moreover have "\<not> len < 0" using len by simp
    ultimately have "ASN1_STRING_set (\<lambda>_. True) junk dest (Some inp) len = ASN1_STRING_set (\<lambda>_. True) junk dest (Some ?bs) len"
      by (simp add: ASN1_STRING_set_def Let_def)
    with ASN1_STRING_set_bytes [OF l(2), of "\<lambda>_. True" junk dest] l(1) obtain rest where
      "ASN1_STRING_set (\<lambda>_. True) junk dest (Some inp) len =
        (True, dest\<lparr>str_data := Some (?bs @ 0 # rest), str_length := length ?bs\<rparr>)" by auto
    then show ?thesis using True dest by (simp add: mb_store_def str_bytes_stored)
  next
    case False
    let ?s = "cbb_init (\<lambda>_. True) (size_estimate + 1) True"
    let ?w = "wand (mb_write inform (mb_add form) (take (nat len) inp)) (CBB_add_u8 0 0)"
    have short: "size_estimate + 1 < 2 ^ 64" "length (?bs @ [0]) < 2 ^ 64"
      using size n mb_enc_length(1) [of form vs] by simp_all
    note fin = write_finish [OF mb_write_refines [OF dec ok] short]
    obtain cbb where w: "?w ?s = (True, cbb)" using fin(1) by (cases "?w ?s") auto
    obtain cbb' where f: "CBB_finish 0 True cbb = (Some (?bs @ [0]), cbb')" using fin(2) w by (cases "CBB_finish 0 True cbb") auto
    have bound: "\<not> (length (?bs @ [0]) < 1 \<or> int (length (?bs @ [0])) > INT_LIMIT)"
      using n mb_enc_length(1) [of form vs] by simp
    have i: "CBB_init (\<lambda>_. True) (size_estimate + 1) = Some ?s" by (simp add: CBB_init_def)
    have "mb_store (\<lambda>_. True) junk slot inp len inform type (mb_add form) size_estimate form =
        (Inr type, Some (ASN1_STRING_set0 (dest\<lparr>str_type := type\<rparr>) (Some (?bs @ [0])) (length (?bs @ [0]) - 1)))"
      unfolding mb_store_def dest option.case if_not_P [OF False] i w prod.case bool.case f if_not_P [OF bound] ..
    then show ?thesis by (simp add: str_bytes_stored) (simp add: ASN1_STRING_set0_def)
  qed
qed

text \<open>What the caller asks of a string.\<close>

definition acceptable :: "int \<Rightarrow> int \<Rightarrow> int \<Rightarrow> u32 list \<Rightarrow> bool" where
  "acceptable inform min_size max_size vs \<longleftrightarrow>
     no_bom inform vs \<and> (min_size > 0 \<longrightarrow> nat min_size \<le> length vs) \<and> (max_size > 0 \<longrightarrow> length vs \<le> nat max_size)"

definition wanted_types :: "u64 \<Rightarrow> u64" where
  "wanted_types permitted = (if permitted = 0 then DIRSTRING_TYPE else permitted)"

lemma choose_type_narrowed: "choose_type m vs = Some r \<Longrightarrow> foldl mb_narrow m vs \<noteq> 0"
proof -
  assume "choose_type m vs = Some r"
  then obtain b where "find (\<lambda>(b, _). allowed m vs b) string_types = Some (b, r)" by (auto simp: choose_type_def)
  then obtain i where "i < length string_types" "string_types ! i = (b, r)" "allowed m vs b"
    unfolding find_Some_iff by auto
  then have "b \<in> fst ` set string_types" "allowed m vs b" by (metis fst_conv image_eqI nth_mem, simp)
  then show ?thesis using narrow_allowed [of b m vs] by auto
qed

lemma sum_utf8_len: "sum_list (map CBB_get_utf8_len vs) \<le> 4 * length vs"
  by (induction vs) (auto simp: CBB_get_utf8_len_def)

text \<open>
  The conversion succeeds exactly on the acceptable strings for which one of the types is allowed. It
  returns the first of them, and writes the string in its encoding.
\<close>

lemma ASN1_mbstring_ncopy_success:
  assumes len: "0 \<le> len" "nat len \<le> length inp" "len \<le> int ASN1_STRING_MAX"
    and form: "mb_format inform \<noteq> None"
    and dec: "decodes (mb_decode inform) (take (nat len) inp) vs" and acc: "acceptable inform min_size max_size vs"
    and type: "choose_type (wanted_types permitted) vs = Some (type, form)"
  shows "\<exists>str. ASN1_mbstring_ncopy (\<lambda>_. True) junk (Some slot) inp len inform permitted min_size max_size =
      (Inr type, Some (Some str)) \<and> str_type str = type \<and> str_bytes str = concat (map (mb_enc form) vs)"
proof -
  obtain err where err: "mb_format inform = Some err" using form by blast
  let ?m = "wanted_types permitted" and ?len8 = "sum_list (map CBB_get_utf8_len vs)"
  have ok: "\<forall>v \<in> set vs. mb_ok inform v" using dec by (simp add: mb.decodes_iff)
  have scan: "mb_scan inform err max_size ?m 0 0 (take (nat len) inp) = Inr (foldl mb_narrow ?m vs, length vs, ?len8)"
    unfolding mb_scan_iff using dec acc choose_type_narrowed [OF type]
    by (intro exI [of _ vs]) (simp add: acceptable_def)
  define est where "est = (if form = MBSTRING_ASC then length vs else if form = MBSTRING_BMP then 2 * length vs
          else if form = MBSTRING_UNIV then 4 * length vs else ?len8)"
  have est: "est \<le> 4 * length vs" using sum_utf8_len [of vs] by (simp add: est_def)
  have out_type: "mb_output (foldl mb_narrow ?m vs) (length vs) ?len8 = Some (type, mb_add form, est, form)"
    using type by (simp add: mb_output_iff est_def)
  obtain str where str: "mb_store (\<lambda>_. True) junk slot inp len inform type (mb_add form) est form = (Inr type, Some str)"
      "str_type str = type" "str_bytes str = concat (map (mb_enc form) vs)"
    using mb_store_correct [OF len dec _ est] choose_type_ok [OF type ok] by blast
  have l: "\<not> len = -1" and few: "\<not> (min_size > 0 \<and> length vs < nat min_size)"
    using len acc by (auto simp: acceptable_def)
  have "ASN1_mbstring_ncopy (\<lambda>_. True) junk (Some slot) inp len inform permitted min_size max_size = (Inr type, Some (Some str))"
    unfolding ASN1_mbstring_ncopy_def if_not_P [OF l] Let_def wanted_types_def [symmetric] err option.case scan sum.case
      prod.case if_not_P [OF few] out_type str(1) by simp
  with str show ?thesis by blast
qed

lemma ASN1_mbstring_ncopy_failure:
  assumes len: "0 \<le> len"
    and fail: "\<not> (\<exists>vs. decodes (mb_decode inform) (take (nat len) inp) vs \<and> acceptable inform min_size max_size vs \<and>
      choose_type (wanted_types permitted) vs \<noteq> None)"
  shows "\<exists>e. ASN1_mbstring_ncopy alloc junk out inp len inform permitted min_size max_size = (Inl e, out)"
proof (cases "mb_format inform")
  case None
  then show ?thesis by (simp add: ASN1_mbstring_ncopy_def)
next
  case (Some err)
  let ?m = "wanted_types permitted"
  have l: "\<not> len = -1" using len by simp
  show ?thesis
  proof (cases "mb_scan inform err max_size ?m 0 0 (take (nat len) inp)")
    case (Inl e)
    then show ?thesis
      unfolding ASN1_mbstring_ncopy_def if_not_P [OF l] Let_def wanted_types_def [symmetric] Some option.case by simp
  next
    case (Inr r)
    then obtain m' nchar len8 where r: "mb_scan inform err max_size ?m 0 0 (take (nat len) inp) = Inr (m', nchar, len8)"
      by (cases r) auto
    then obtain vs where vs: "decodes (mb_decode inform) (take (nat len) inp) vs" "no_bom inform vs"
      "m' = foldl mb_narrow ?m vs" "nchar = length vs" "max_size > 0 \<longrightarrow> length vs \<le> nat max_size"
      unfolding mb_scan_iff by auto
    have "\<not> (min_size > 0 \<longrightarrow> nat min_size \<le> length vs) \<or> choose_type ?m vs = None"
      using fail vs by (auto simp: acceptable_def)
    then have "min_size > 0 \<and> nchar < nat min_size \<or> mb_output m' nchar len8 = None"
      unfolding vs(3,4) mb_output_iff by auto
    then show ?thesis
      unfolding ASN1_mbstring_ncopy_def if_not_P [OF l] Let_def wanted_types_def [symmetric] Some option.case r sum.case prod.case
      by auto
  qed
qed

section \<open>Strings with the bounds of a NID\<close>

text \<open>The parameters that \<open>ASN1_STRING_set_by_NID\<close> uses.\<close>

definition nid_parameters :: "string_tables \<Rightarrow> int \<Rightarrow> u64 \<times> int \<times> int" where
  "nid_parameters tables n =
     (case asn1_string_table_get tables n of
        None \<Rightarrow> (B_ASN1_UTF8STRING, 0, 0)
      | Some tbl \<Rightarrow>
          (if flags tbl AND STABLE_NO_MASK = 0 then mask_of tbl AND B_ASN1_UTF8STRING else mask_of tbl, minsize tbl, maxsize tbl))"

lemma ASN1_STRING_set_by_NID_eq:
  "ASN1_STRING_set_by_NID alloc junk tables (Some slot) inp len inform n =
     (case nid_parameters tables n of (permitted, mn, mx) \<Rightarrow>
      (case ASN1_mbstring_ncopy alloc junk (Some slot) inp len inform permitted mn mx of
         (Inl _, out) \<Rightarrow> (None, out)
       | (Inr type, out) \<Rightarrow> if type \<le> 0 then (None, out) else (the out, out)))"
  by (simp add: ASN1_STRING_set_by_NID_def nid_parameters_def ASN1_mbstring_copy_def Let_def
      split: option.split prod.split sum.split)

end
