(* ===== verification/Spec2Isabelle.thy ===== *)
theory Spec2Isabelle
  imports Asn1_Values Ber Base64 Posix_Time Asn1_Time Oid Bio_Pair Stack Asn1_String Crl Lhash String_Table Unicode Mbstring
begin

text \<open>
  A verification development for the byte-level core of BoringSSL, the C library this application
  carries as a pod (\<open>src/SmartMeal/Pods/BoringSSL-GRPC/src\<close>, from which every path below starts).
  It reads and writes the untrusted encodings of the TLS stack: DER and BER, integers, times, object
  identifiers, Base64, and it holds the containers that the rest of the library keeps them in.

  \<^bold>\<open>Parts.\<close>
  \<^item> \<open>Prelude\<close>: machine integers, the state-passing shape of the readers, shifts and masks as
    arithmetic, big-endian numbers.
  \<^item> \<open>Cbs\<close>, \<open>Der\<close>: \<open>crypto/bytestring/cbs.c\<close>. \<open>Cbs\<close> has the definitions, one per C function; a
    function \<open>int f(CBS *cbs, T *out)\<close> is a reader, a function of the bytes that are left with an
    optional output and the bytes that are left afterwards. \<open>Der\<close> shows that the element parser
    accepts exactly the DER elements.
  \<^item> \<open>Cbb\<close>, \<open>Cbb_Spec\<close>: \<open>crypto/bytestring/cbb.c\<close>. A builder is a record of the buffer and of the
    open children, a child handle is the index of its length prefix. The abstract specification is a
    document of open fields (\<open>repr\<close> relates the two), and \<open>refines\<close> says that an operation on the
    buffer does what one on documents does, or fails with the error that the document has.
  \<^item> \<open>Asn1_Values\<close>: the primitive types that both sides handle. An INTEGER is a minimal
    two's-complement number; the SET OF order is an instance of the locale \<open>comparison\<close>, the interface
    of \<open>qsort\<close>.
  \<^item> \<open>Ber\<close>: \<open>ber.c\<close> and \<open>asn1_compat.c\<close> in the same directory. The recursive conversion has fuel, and
    one more than the length of the input is shown to be enough.
  \<^item> \<open>Base64\<close>: \<open>crypto/base64/base64.c\<close> with the constant-time primitives of \<open>crypto/internal.h\<close>.
  \<^item> \<open>Posix_Time\<close>: \<open>crypto/asn1/posix_time.c\<close>. \<open>Asn1_Time\<close> and \<open>Oid\<close>: the times and the text forms of
    object identifiers in \<open>cbs.c\<close> and \<open>cbb.c\<close>.
  \<^item> \<open>Bio_Pair\<close>: \<open>crypto/bio/pair.c\<close> and the calls of \<open>crypto/bio/bio.c\<close> that reach it, on a store of
    BIO objects. The ring buffer is an interpretation of the locale \<open>bounded_fifo\<close>; the run of calls on
    the two ends is an inductive relation.
  \<^item> \<open>Stack\<close>: \<open>crypto/stack/stack.c\<close>. Comparison functions are instances of the locale \<open>three_way\<close>; the
    states a stack can reach are an inductive relation.
  \<^item> \<open>Asn1_String\<close>: \<open>crypto/asn1/asn1_lib.c\<close>, \<open>a_int.c\<close> and \<open>a_bitstr.c\<close>. An ASN1_STRING is a record; its
    number is \<open>int_value\<close>. The contents codecs are shown to be inverse to each other.
  \<^item> \<open>Crl\<close>: the search for a revoked serial number in \<open>crypto/x509/x_crl.c\<close>, a client of \<open>Stack\<close>, for
    which it interprets the locale of comparison functions, and of \<open>Asn1_String\<close>.
  \<^item> \<open>Lhash\<close>: \<open>crypto/lhash/lhash.c\<close>. What a client gives is the locale \<open>hashing\<close>; what it gets is the
    locale \<open>dictionary\<close>, a sublocale of it. \<open>String_Table\<close>: \<open>crypto/asn1/a_strnid.c\<close>, such a client, with
    its additions by several threads as an inductive relation.
  \<^item> \<open>Unicode\<close>: \<open>crypto/bytestring/unicode.c\<close>. The four encodings of a code point are instances of the
    locale \<open>codec\<close>. \<open>Mbstring\<close>: \<open>crypto/asn1/a_mbstr.c\<close>, the conversion of strings between them, for which
    the chosen encoding is one interpretation of that locale, and \<open>ASN1_STRING_set_by_NID\<close>.

  \<^bold>\<open>Conventions.\<close> A \<open>size_t\<close> is a \<open>nat\<close>, with \<open>mod 2 ^ 64\<close> written out where the code can wrap; flags, tags
  and values that are shifted and masked are words of their width; an \<open>int64_t\<close> value is either the
  64-bit word it is stored in, read by \<open>sint\<close>, or an \<open>int\<close> where the domain of the function bounds it.
  The allocator is a parameter that says which requests are granted, so that running out of memory is
  a branch of every function that allocates. Errors are values: None, False, or the code's negative
  numbers. Error queues, reference counts and locks are not modelled.

  \<^bold>\<open>What is shown.\<close> The properties C1 to C40 below state, in the order of the parts, that the parsers
  accept exactly the encodings of their grammar, that the builders write exactly those, that each
  inverts the other, that loops end, that buffers keep bytes in order, that sorting sorts and that
  searching finds. Three of them record behaviour that the code does not intend: the sign of a time
  zone offset in C19, the mark of a sorted stack in C30, and the
  empty mask in C40.

  \<^bold>\<open>Not modelled.\<close> The application itself is Swift, mostly user interface and network calls. The other
  pods (gRPC, Firestore, abseil, leveldb, nanopb, upb) are C++ and C libraries of their own; of
  BoringSSL, the ciphers, the big-number and curve arithmetic, the conversions between INTEGER objects
  and big numbers, the parsing of certificates and revocation lists, the X.509 path builder and the TLS
  state machine are left out, as is everything whose work is a system call.
\<close>

section \<open>Lemmas that compose the components\<close>


lemma length_der_element_small: "length bs \<le> 9 \<Longrightarrow> length (der_element CBS_ASN1_INTEGER bs) < 2 ^ 64"
  using length_asn1_identifier [of CBS_ASN1_INTEGER]
  by (simp add: der_element_def der_header_def asn1_length_def)

text \<open>Inputs the examples use, evaluated.\<close>

lemma indefinite_elements:
  "CBS_get_any_ber_asn1_element [0x30, 0x80, 4, 1, 7, 0, 0] =
     (Some \<lparr>el_bytes = [0x30, 0x80], el_tag = 0x20000010, el_header_len = 2, el_ber_found = True,
        el_indefinite = True\<rparr>, [4, 1, 7, 0, 0])"
  "CBS_get_any_ber_asn1_element [4, 1, 7, 0, 0] =
     (Some \<lparr>el_bytes = [4, 1, 7], el_tag = 4, el_header_len = 2, el_ber_found = False,
        el_indefinite = False\<rparr>, [0, 0])"
  "is_constructed 0x20000010" "\<not> is_constructed 4" "\<not> is_string_type 0x20000010"
  "cbs_get_eoc [0, 0] = (Some (), [])" "cbs_get_eoc [4, 1, 7, 0, 0] = (None, [4, 1, 7, 0, 0])"
  "CBS_skip 2 [4 :: byte, 1, 7] = (Some (), [7])"
  by code_simp+

lemmas builder_defs = CBB_add_asn1_def CBB_flush_def wand_def size_add_def size_mult_def cbb_init_def
  cbb_buffer_reserve_def cbb_buffer_add_def cbb_on_error_def CBB_add_u8_def cbb_add_u_def
  CBB_add_space_def CBB_add_bytes_def cbb_add_child_def CBB_finish_def cbb_close_child_def
  asn1_len_form_def memmove_def

lemma ber_example:
  "CBS_asn1_ber_to_der (\<lambda>_. True) [0x30, 0x80, 4, 1, 7, 0, 0] =
     (Some ([0x30, 3, 4, 1, 7], Some [0x30, 3, 4, 1, 7]), [])"
proof -
  have "cbs_find_ber [0x30, 0x80, 4, 1, 7, 0, 0] 0 = Some True"
    by (subst cbs_find_ber.simps) (simp add: indefinite_elements)
  moreover have "cbs_convert_ber (Suc (Suc (Suc (Suc n)))) [0x30, 0x80, 4, 1, 7, 0, 0] 0 0 False 0
      (cbb_init (\<lambda>_. True) 7 True) =
    Some (True, [], \<lparr>buf = [0x30, 3, 4, 1, 7], cap = 7, can_resize = True, error = False, children = [],
      grant = (\<lambda>_. True)\<rparr>)" for n
    by (simp add: indefinite_elements builder_defs)
  from this [of 4] have "cbs_convert_ber 8 [0x30, 0x80, 4, 1, 7, 0, 0] 0 0 False 0 (cbb_init (\<lambda>_. True) 7 True) =
    Some (True, [], \<lparr>buf = [0x30, 3, 4, 1, 7], cap = 7, can_resize = True, error = False, children = [],
      grant = (\<lambda>_. True)\<rparr>)"
    by (simp only: Suc_numeral semiring_norm)
  moreover have len: "length [0x30 :: byte, 0x80, 4, 1, 7, 0, 0] = 7" by simp
  ultimately show ?thesis
    by (simp add: CBS_asn1_ber_to_der_def CBB_init_def len CBB_finish_def CBB_flush_def
        del: cbs_convert_ber.simps list.size(4))
qed

lemma chunk_elements:
  "\<not> CBS_peek_asn1_tag [0xa0, 5, 4, 1, 7, 4, 0] 0x80000000"
  "CBS_get_asn1 0xa0000000 [0xa0, 5, 4, 1, 7, 4, 0] = (Some [4, 1, 7, 4, 0], [])"
  "CBS_get_asn1 4 [4, 1, 7, 4, 0] = (Some [7], [4, 0])" "CBS_get_asn1 4 [4, 0] = (Some [], [])"
  "0x80000000 OR CBS_ASN1_CONSTRUCTED = 0xa0000000"
  by code_simp+

lemma chunks_example:
  "CBS_get_asn1_implicit_string (\<lambda>_. True) 0x80000000 4 [0xa0, 5, 4, 1, 7, 4, 0] = (Some ([7], Some [7]), [])"
  by (simp add: CBS_get_asn1_implicit_string_def CBB_init_def chunk_elements builder_defs
      implicit_chunks.simps [of _ "[4, 1, 7, 4, 0]"] implicit_chunks.simps [of _ "[4, 0]"]
      implicit_chunks.simps [of _ "[]"])

lemma set_of_example: "get_elements [4, 2, 9] = None" "get_elements [4, 1, 9, 4, 1, 3] = Some [[4, 1, 9], [4, 1, 3]]"
  by code_simp+



section \<open>Building and parsing DER\<close>

text \<open>
  C1: \<open>CBB_flush\<close> on any handle closes the children below it, innermost first, and writes every
  length prefix they left pending, moving the contents when a DER length needs more than one byte.
  On every builder state that represents a document, with any number of open children, it
  implements the closing of the document's fields: on success the new state represents the closed
  document, on failure the error bit is set, and with a buffer that can grow it fails only when the
  document has no encoding (a length that does not fit) or outgrows the address space.
\<close>

theorem CBB_flush_closes_children:
  "refines (\<lambda>A. k \<le> nesting A) (CBB_flush k) (flush_to k)"
  by (rule flush_refines)

text \<open>
  C2: the strict parser accepts an element exactly when the input starts with the DER encoding of
  the requested tag and the contents it returns, and then stops right behind it. So every other
  form that BER allows (indefinite and non-minimal lengths, a non-minimal tag, the reserved tag) is
  an error.
\<close>

theorem CBS_get_asn1_accepts_exactly_der:
  "CBS_get_asn1 tag cbs = (Some contents, t) \<longleftrightarrow>
   valid_tag tag \<and> length contents < 2 ^ 32 \<and> cbs = der_element tag contents @ t"
  by (rule CBS_get_asn1_iff)

text \<open>
  C3: a builder that opens an ASN.1 element, runs any body that appends \<open>c\<close> to it, and flushes the
  parent has appended exactly the DER element with that tag and those contents.
\<close>

theorem CBB_add_asn1_element:
  assumes "refines (\<lambda>A. Suc k \<le> nesting A) body (write_to (Suc k) c)" and "length c \<le> 0xfffffffe"
  shows "refines (\<lambda>A. k \<le> nesting A)
    (wand (or_on_error k (wand (CBB_add_asn1 k tag) body)) (CBB_flush k))
    (write_to k (der_element tag c))"
  using assms by (rule element_refines(1))

theorem CBB_add_asn1_element_witness:
  "refines (\<lambda>A. 0 \<le> nesting A)
    (wand (or_on_error 0 (wand (CBB_add_asn1 0 CBS_ASN1_OCTETSTRING) (CBB_add_u8 1 7))) (CBB_flush 0))
    (write_to 0 (der_element CBS_ASN1_OCTETSTRING [7]))"
  using CBB_add_asn1_element [of 0 "CBB_add_u8 1 7" "[7]"] CBB_add_u8_refines [of 1 7] by simp

text \<open>
  C4: every signed 64-bit value survives the trip: written to a fresh builder with
  \<open>CBB_add_asn1_int64\<close>, finished, and read back with \<open>CBS_get_asn1_int64\<close> in front of any bytes.
\<close>

theorem asn1_int64_roundtrip:
  "\<exists>out. fst (CBB_finish 0 True (snd (CBB_add_asn1_int64 0 v (cbb_init (\<lambda>_. True) 16 True)))) = Some out \<and>
     CBS_get_asn1_int64 (out @ t) = (Some v, t)"
proof -
  obtain bs where bs: "der_integer bs" "twos bs = sint v" "length bs \<le> 9" using sint_der_integer [of v] by blast
  have "refines (\<lambda>A. 0 \<le> nesting A) (CBB_add_asn1_int64 0 v) (write_to 0 (der_element CBS_ASN1_INTEGER bs))"
    unfolding CBB_add_asn1_int64_def by (rule CBB_add_asn1_int64_refines [OF bs(1,2)])
  from write_finish(2) [OF this, of 16] length_der_element_small [of bs] bs
  show ?thesis unfolding CBS_get_asn1_int64_iff by auto
qed

text \<open>The same for every unsigned 64-bit value.\<close>

lemma asn1_uint64_roundtrip:
  "\<exists>out. fst (CBB_finish 0 True (snd (CBB_add_asn1_uint64 0 v (cbb_init (\<lambda>_. True) 16 True)))) = Some out \<and>
     CBS_get_asn1_uint64 (out @ t) = (Some v, t)"
proof -
  obtain bs where bs: "der_integer bs" "twos bs = uint v" "length bs \<le> 9" using uint_der_integer [of v] by blast
  have "refines (\<lambda>A. 0 \<le> nesting A) (CBB_add_asn1_uint64 0 v) (write_to 0 (der_element CBS_ASN1_INTEGER bs))"
    unfolding CBB_add_asn1_uint64_def by (rule CBB_add_asn1_uint64_refines [OF bs(1,2)])
  from write_finish(2) [OF this, of 16] length_der_element_small [of bs] bs
  show ?thesis unfolding CBS_get_asn1_uint64_iff
    by (intro exI [of _ "der_element CBS_ASN1_INTEGER bs"] conjI exI [of _ bs]) simp_all
qed

text \<open>
  C5: \<open>CBS_get_asn1_int64\<close> accepts exactly the minimal two's complement encodings, and the value
  is the number the contents stand for: an encoding of a value outside 64 bits, a padded one and an
  empty one are errors.
\<close>

theorem CBS_get_asn1_int64_accepts:
  "CBS_get_asn1_int64 cbs = (Some v, t) \<longleftrightarrow>
   (\<exists>bs. cbs = der_element CBS_ASN1_INTEGER bs @ t \<and> der_integer bs \<and> twos bs = sint v)"
  by (rule CBS_get_asn1_int64_iff)

text \<open>
  C6: the base-128 numbers of tags and OID components are read exactly in their shortest form: a
  leading 0x80, a number over 64 bits and a cut one are errors.
\<close>

theorem parse_base128_integer_minimal:
  "parse_base128_integer s = (Some v, t) \<longleftrightarrow> s = base128 (unat v) @ t"
  by (rule parse_base128_integer_iff)

text \<open>
  C7: on a child that holds DER elements \<open>CBB_flush_asn1_set_of\<close> puts them in the ascending
  lexicographic order of their encodings, in which a proper prefix comes first, as X.690, section 11.6
  orders a SET OF. Each element is kept, and the rest of the document is left alone.
\<close>

theorem CBB_flush_asn1_set_of_sorts:
  assumes "repr s ((p, a, concat els) # fs, r)" "growable s"
    and "\<forall>e \<in> set els. \<exists>tag d. valid_tag tag \<and> length d < 2 ^ 32 \<and> e = der_element tag d"
  shows "\<exists>s' sorted. CBB_flush_asn1_set_of (Suc (length fs)) s = (True, s') \<and>
    repr s' ((p, a, concat sorted) # fs, r) \<and> mset sorted = mset els \<and> sorted_wrt bytes_le sorted"
proof -
  have "get_elements (concat els) = Some els" using assms(3) by (simp add: get_elements_eq_Some)
  moreover have "sorted_wrt bytes_le (qsort compare_set_of_element els)"
    using set_of.sorted_qsort [of els] unfolding compare_set_of_element_le .
  ultimately show ?thesis using CBB_flush_asn1_set_of_correct [OF assms(1,2)] mset_qsort by blast
qed

theorem CBB_flush_asn1_set_of_sorts_witness:
  "\<exists>s' sorted. CBB_flush_asn1_set_of 1
      \<lparr>buf = [0, 4, 1, 9, 4, 1, 3], cap = 7, can_resize = True, error = False,
        children = [\<lparr>offset = 0, pending_len_len = 1, pending_is_asn1 = True\<rparr>], grant = (\<lambda>_. True)\<rparr> = (True, s') \<and>
    repr s' ([(1, True, concat sorted)], []) \<and> mset sorted = mset [[4, 1, 9], [4, 1, 3]] \<and>
    sorted_wrt bytes_le sorted"
  using CBB_flush_asn1_set_of_sorts [of "\<lparr>buf = [0, 4, 1, 9, 4, 1, 3], cap = 7, can_resize = True, error = False,
      children = [\<lparr>offset = 0, pending_len_len = 1, pending_is_asn1 = True\<rparr>], grant = (\<lambda>_. True)\<rparr>" 1 True
      "[[4, 1, 9], [4, 1, 3]]" "[]" "[]"] set_of_example(2) [unfolded get_elements_eq_Some]
  by (simp add: repr_def wf_doc_def growable_def)

text \<open>
  When the contents of the innermost child are not a sequence of DER elements,
  \<open>CBB_flush_asn1_set_of\<close> fails and leaves the builder as it was.
\<close>

lemma CBB_flush_asn1_set_of_rejects:
  assumes "repr s ((p, a, c) # fs, r)" "get_elements c = None"
  shows "CBB_flush_asn1_set_of (Suc (length fs)) s = (False, s)"
  using assms by (rule CBB_flush_asn1_set_of_reject)

theorem CBB_flush_asn1_set_of_rejects_witness:
  "let s = \<lparr>buf = [0, 4, 2, 9], cap = 4, can_resize = True, error = False,
        children = [\<lparr>offset = 0, pending_len_len = 1, pending_is_asn1 = True\<rparr>], grant = (\<lambda>_. True)\<rparr>
   in CBB_flush_asn1_set_of 1 s = (False, s)"
  using CBB_flush_asn1_set_of_rejects [of "\<lparr>buf = [0, 4, 2, 9], cap = 4, can_resize = True, error = False,
      children = [\<lparr>offset = 0, pending_len_len = 1, pending_is_asn1 = True\<rparr>], grant = (\<lambda>_. True)\<rparr>" 1 True
      "[4, 2, 9]" "[]" "[]"] set_of_example
  by (simp add: repr_def wf_doc_def)

text \<open>
  C8: a length-prefixed vector holds its contents behind their length in \<open>p\<close> bytes, and a body
  whose length does not fit the prefix is an error, not a truncated prefix.
\<close>

theorem cbb_add_length_prefixed_vector:
  assumes "refines (\<lambda>A. Suc k \<le> nesting A) body (write_to (Suc k) c)" "p < 2 ^ 64"
  shows "refines (\<lambda>A. k \<le> nesting A)
      (wand (cbb_add_length_prefixed k p) (wand body (CBB_flush k)))
      (\<lambda>A. if length c < 256 ^ p then write_to k (be_bytes p (length c) @ c) A else None)"
  using assms by (rule length_prefixed_refines)

theorem cbb_add_length_prefixed_vector_witness:
  "refines (\<lambda>A. 0 \<le> nesting A)
      (wand (cbb_add_length_prefixed 0 2) (wand (CBB_add_u8 1 7) (CBB_flush 0)))
      (\<lambda>A. if length [7 :: byte] < 256 ^ 2 then write_to 0 (be_bytes 2 (length [7 :: byte]) @ [7]) A else None)"
  using cbb_add_length_prefixed_vector [of 0 "CBB_add_u8 1 7" "[7]" 2] CBB_add_u8_refines [of 1 7] by simp

text \<open>The reader of length-prefixed vectors accepts exactly those bytes.\<close>

lemma cbs_get_length_prefixed_accepts:
  assumes "p \<le> 4"
  shows "cbs_get_length_prefixed p cbs = (Some c, t) \<longleftrightarrow>
    length c < 256 ^ p \<and> cbs = be_bytes p (length c) @ c @ t"
  using assms by (rule cbs_get_length_prefixed_iff)

theorem cbs_get_length_prefixed_accepts_witness:
  "cbs_get_length_prefixed 2 [0, 1, 7, 8] = (Some [7], [8])"
  by (subst cbs_get_length_prefixed_accepts) (simp_all add: numeral_2_eq_2)

text \<open>
  C9: an integer is appended with its full width, most significant byte first, or, when it does
  not fit in that width, not at all and with the error bit set. The invariant of the builder is
  kept: the represented bytes never exceed the capacity.
\<close>

theorem cbb_add_u_writes:
  assumes "n \<le> 8"
  shows "refines (\<lambda>A. k \<le> nesting A) (cbb_add_u k v n)
    (\<lambda>A. if unat v < 256 ^ n then write_to k (be_bytes n (unat v)) A else None)"
  using assms by (rule cbb_add_u_refines)

theorem cbb_add_u_writes_witness:
  "refines (\<lambda>A. 3 \<le> nesting A) (cbb_add_u 3 0x1ff 1)
    (\<lambda>A. if unat (0x1ff :: u64) < 256 ^ 1 then write_to 3 (be_bytes 1 (unat (0x1ff :: u64))) A else None)"
  by (rule cbb_add_u_writes) simp

section \<open>BER\<close>

text \<open>
  C10: whatever \<open>CBS_asn1_ber_to_der\<close> returns, converted or passed through, has nothing left to
  convert: the search that looks for indefinite lengths and constructed strings at every level finds
  none. The other deviations from DER that BER permits are not its concern.
\<close>

theorem CBS_asn1_ber_to_der_gives_der:
  assumes "CBS_asn1_ber_to_der alloc inp = (Some (out, storage), rest)" "length inp < 2 ^ 64"
  shows "cbs_find_ber out 0 = Some False"
  using assms by (rule CBS_asn1_ber_to_der_correct)

theorem CBS_asn1_ber_to_der_gives_der_witness:
  "CBS_asn1_ber_to_der (\<lambda>_. True) [0x30, 0x80, 4, 1, 7, 0, 0] =
     (Some ([0x30, 3, 4, 1, 7], Some [0x30, 3, 4, 1, 7]), []) \<and>
   cbs_find_ber [0x30, 3, 4, 1, 7] 0 = Some False"
  using CBS_asn1_ber_to_der_gives_der [of "\<lambda>_. True" "[0x30, 0x80, 4, 1, 7, 0, 0]" "[0x30, 3, 4, 1, 7]"] ber_example
  by simp

text \<open>
  C11: the recursive conversion always returns. Its fuel counts the turns of its loops; more fuel
  than there is input is enough, on malformed input, under the nesting limit and out of memory too,
  and what is left of the input is never longer than the input.
\<close>

theorem cbs_convert_ber_returns:
  assumes "length inp < fuel"
  shows "\<exists>ok inp' s'. cbs_convert_ber fuel inp k string_tag eoc depth s = Some (ok, inp', s') \<and>
    length inp' \<le> length inp"
  using convert_total [OF assms] by (simp only: returns_def)

theorem cbs_convert_ber_returns_witness:
  "\<exists>ok inp' s'. cbs_convert_ber 3 [0x30, 0x80] 0 0 False 0 (CBB_init_fixed 4) = Some (ok, inp', s') \<and>
    length inp' \<le> length [0x30 :: byte, 0x80]"
  by (rule cbs_convert_ber_returns) simp

text \<open>
  C12: an implicitly tagged string is either the primitive element or a constructed one whose
  elements are primitive strings, and the result is the concatenation of the chunks.
\<close>

theorem CBS_get_asn1_implicit_string_concatenates:
  assumes "CBS_get_asn1_implicit_string alloc outer_tag inner_tag inp = (Some (out, storage), rest)"
    and "length inp < 2 ^ 64"
  shows "inp = der_element outer_tag out @ rest \<or>
    (\<exists>chunks. inp = der_element (outer_tag OR CBS_ASN1_CONSTRUCTED)
       (concat (map (der_element inner_tag) chunks)) @ rest \<and> out = concat chunks)"
  using assms by (rule implicit_string_correct)

theorem CBS_get_asn1_implicit_string_concatenates_witness:
  "[0xa0, 5, 4, 1, 7, 4, 0] = der_element 0x80000000 [7] \<or>
    (\<exists>chunks. [0xa0, 5, 4, 1, 7, 4, 0] = der_element (0x80000000 OR CBS_ASN1_CONSTRUCTED)
       (concat (map (der_element 4) chunks)) \<and> [7] = concat chunks)"
  using CBS_get_asn1_implicit_string_concatenates [OF chunks_example] by simp

text \<open>
  \<open>CBB_finish_i2d\<close> returns the length and, by the calling convention of OpenSSL, nothing, a
  fresh buffer, or the caller's buffer overwritten from its start.
\<close>

lemma CBB_finish_i2d_convention:
  assumes "repr s ([], r)" "growable s" "length r < 2 ^ 31"
  shows "CBB_finish_i2d s outp = (int (length r),
    case outp of None \<Rightarrow> None | Some None \<Rightarrow> Some r | Some (Some b) \<Rightarrow> Some (r @ drop (length r) b))"
  using assms by (rule CBB_finish_i2d_correct)

theorem CBB_finish_i2d_convention_witness:
  "CBB_finish_i2d \<lparr>buf = [4, 1, 9], cap = 3, can_resize = True, error = False, children = [],
      grant = (\<lambda>_. True)\<rparr> (Some (Some [0, 0, 0, 8])) = (3, Some [4, 1, 9, 8])"
  using CBB_finish_i2d_convention [of "\<lparr>buf = [4, 1, 9], cap = 3, can_resize = True, error = False,
      children = [], grant = (\<lambda>_. True)\<rparr>" "[4, 1, 9]" "Some (Some [0, 0, 0, 8])"]
  by (simp add: repr_def wf_doc_def growable_def)

section \<open>Base64\<close>

text \<open>
  C13: what is encoded in pieces of any sizes, with line breaks, is decoded to the same bytes, in
  pieces of any other sizes.
\<close>

theorem base64_stream_roundtrip:
  assumes "\<forall>p \<in> set ps. length p < 2 ^ 29" "length (concat ps) \<le> INT_MAX"
    and "concat qs = encode_pieces EVP_EncodeInit ps"
  shows "decode_pieces EVP_DecodeInit qs = Some (concat ps)"
  using stream_roundtrip [of qs "concat ps"] encode_pieces_correct [OF encode_ctx_init assms(1)] assms(2,3)
  by simp

theorem base64_stream_roundtrip_witness:
  "decode_pieces EVP_DecodeInit [[], encode_pieces EVP_EncodeInit [[1, 2], [3, 4]]] = Some [1, 2, 3, 4]"
  using base64_stream_roundtrip [of "[[1, 2], [3, 4]]" "[[], encode_pieces EVP_EncodeInit [[1, 2], [3, 4]]]"]
  by simp

text \<open>C14: the one-shot decoder inverts the block encoder when its output buffer is large enough.\<close>

theorem EVP_DecodeBase64_inverts:
  assumes "4 * ((length xs + 2) div 3) div 4 * 3 \<le> max_out"
  shows "EVP_DecodeBase64 max_out (encode_loop xs) = Some xs"
  using assms by (rule EVP_DecodeBase64_encode)

theorem EVP_DecodeBase64_inverts_witness: "EVP_DecodeBase64 6 (encode_loop [1, 2, 3, 4]) = Some [1, 2, 3, 4]"
  by (rule EVP_DecodeBase64_inverts) simp

text \<open>
  \<open>EVP_DecodeBlock\<close> trims blanks around the encoding and, as documented, returns the bytes
  padded with zeros to a multiple of three.
\<close>

lemma EVP_DecodeBlock_pads:
  assumes "\<forall>c \<in> set pre. c = 0x20 \<or> c = 0x09" "\<forall>c \<in> set post. is_space c"
    and "(length xs + 2) div 3 * 3 \<le> INT_MAX"
  shows "let padded = xs @ replicate ((3 - length xs mod 3) mod 3) 0
    in EVP_DecodeBlock (pre @ encode_loop xs @ post) = (int (length padded), padded)"
  unfolding Let_def using assms by (rule EVP_DecodeBlock_encode)

theorem EVP_DecodeBlock_pads_witness:
  "EVP_DecodeBlock ([0x20] @ encode_loop [1] @ [0x0a]) = (3, [1, 0, 0])"
  using EVP_DecodeBlock_pads [of "[0x20]" "[0x0a]" "[1]"] by (simp add: is_space_def numeral_2_eq_2 Let_def)

text \<open>
  C15: the constant-time code computes the Base64 alphabet: the encoder's selections by masks equal
  the table lookup for every byte, and the decoder's the inverse table, 0xff for other characters.
\<close>

theorem base64_constant_time_tables:
  "conv_bin2ascii a = of_nat (b64_char (unat a mod 64)) \<and> base64_ascii_to_bin c = of_nat (b64_value (unat c))"
  using conv_bin2ascii_eq base64_ascii_to_bin_eq by simp

text \<open>
  C16: \<open>EVP_EncodedLength\<close> computes the length of the block encoding with its terminator, and fails
  exactly when that does not fit in \<open>size_t\<close>; no intermediate step wraps around.
\<close>

theorem EVP_EncodedLength_exact:
  "EVP_EncodedLength n =
   (if 4 * ((unat n + 2) div 3) + 1 < 2 ^ 64 then Some (of_nat (4 * ((unat n + 2) div 3) + 1)) else None) \<and>
   (length xs = unat n \<longrightarrow> length (encode_loop xs) = 4 * ((unat n + 2) div 3))"
  using EVP_EncodedLength_eq length_encode_loop by simp

theorem EVP_EncodedLength_exact_witness:
  "EVP_EncodedLength 4 = Some 9 \<and> length (encode_loop [1, 2, 3, 4]) = 8"
  using EVP_EncodedLength_exact [of 4 "[1, 2, 3, 4]"] by simp

section \<open>Times\<close>

text \<open>
  C17: \<open>OPENSSL_posix_to_tm\<close> and \<open>OPENSSL_tm_to_posix\<close> are inverse bijections between the seconds
  of the years 0 to 9999 and the valid calendar dates and times of day.
\<close>

theorem posix_tm_bijection:
  "(OPENSSL_posix_to_tm time = Some t \<longleftrightarrow> OPENSSL_tm_to_posix t = Some time) \<and>
   ((\<exists>t. OPENSSL_posix_to_tm time = Some t) \<longleftrightarrow> is_valid_posix_time time)"
  using posix_to_tm_iff posix_to_tm_valid by blast

text \<open>
  \<open>OPENSSL_gmtime_adj\<close> adds days and seconds: it succeeds exactly when the sum is a
  representable time, and its overflow guards never refuse one.
\<close>

lemma OPENSSL_gmtime_adj_adds:
  assumes "\<bar>offset_day\<bar> \<le> 2 ^ 31" "\<bar>offset_sec\<bar> < 2 ^ 62"
  shows "OPENSSL_gmtime_adj t offset_day offset_sec = Some t' \<longleftrightarrow>
    (\<exists>time. OPENSSL_tm_to_posix t = Some time \<and>
       OPENSSL_tm_to_posix t' = Some (time + offset_day * 86400 + offset_sec))"
  using assms by (rule gmtime_adj_iff)

theorem OPENSSL_gmtime_adj_adds_witness:
  "OPENSSL_gmtime_adj \<lparr>tm_year = 100, tm_mon = 1, tm_mday = 28, tm_hour = 23, tm_min = 59, tm_sec = 59\<rparr> 1 1 =
   Some \<lparr>tm_year = 100, tm_mon = 2, tm_mday = 1, tm_hour = 0, tm_min = 0, tm_sec = 0\<rparr>"
  by (subst OPENSSL_gmtime_adj_adds) (simp_all add: OPENSSL_tm_to_posix_def posix_time_from_utc_def
      is_valid_date_def is_valid_time_def is_leap_def posix_days_def Let_def, code_simp?)

text \<open>
  \<open>OPENSSL_gmtime_diff\<close> splits the difference of two times into days and seconds of the same
  sign, with less than a day of seconds.
\<close>

lemma OPENSSL_gmtime_diff_splits:
  assumes "OPENSSL_gmtime_diff from_tm to_tm = Some (days, secs)"
  shows "\<exists>a b. OPENSSL_tm_to_posix from_tm = Some a \<and> OPENSSL_tm_to_posix to_tm = Some b \<and>
    b = a + days * 86400 + secs \<and> \<bar>secs\<bar> < 86400 \<and> (a \<le> b \<longrightarrow> 0 \<le> days \<and> 0 \<le> secs) \<and>
    (b \<le> a \<longrightarrow> days \<le> 0 \<and> secs \<le> 0)"
  using assms by (rule gmtime_diff_correct)

theorem OPENSSL_gmtime_diff_splits_witness:
  "let a = \<lparr>tm_year = 100, tm_mon = 1, tm_mday = 28, tm_hour = 23, tm_min = 59, tm_sec = 59\<rparr>;
       b = \<lparr>tm_year = 100, tm_mon = 2, tm_mday = 1, tm_hour = 0, tm_min = 0, tm_sec = 0\<rparr>
   in OPENSSL_gmtime_diff a b = Some (1, 1) \<and> (\<exists>s. OPENSSL_tm_to_posix a = Some s \<and> OPENSSL_tm_to_posix b = Some (s + 86401))"
proof -
  have d: "OPENSSL_gmtime_diff \<lparr>tm_year = 100, tm_mon = 1, tm_mday = 28, tm_hour = 23, tm_min = 59, tm_sec = 59\<rparr>
      \<lparr>tm_year = 100, tm_mon = 2, tm_mday = 1, tm_hour = 0, tm_min = 0, tm_sec = 0\<rparr> = Some (1, 1)" by code_simp
  show ?thesis using OPENSSL_gmtime_diff_splits [OF d] d by auto
qed


text \<open>
  C18: \<open>CBS_parse_generalized_time\<close> and \<open>CBS_parse_utc_time\<close> without offsets accept exactly the
  printed forms of the valid times in the range of their type (years 0 to 9999 with a century, 1950
  to 2049 without one), and return the time that was printed.
\<close>

theorem CBS_parse_time_inverts_printing:
  "CBS_parse_rfc5280_time_internal cbs is_gentime False True = Some (Some t) \<longleftrightarrow>
   cbs = printed_time is_gentime t @ [0x5a] \<and> printable_year is_gentime (tm_year t + 1900) \<and>
   (\<exists>time. OPENSSL_tm_to_posix t = Some time)"
  by (rule parse_print_time)

text \<open>
  C19: with offsets allowed, the result is the printed local time moved by the printed offset, with
  the sign as it is written: an offset of \<open>+0100\<close> adds an hour.
\<close>

theorem CBS_parse_utc_time_offset:
  "CBS_parse_utc_time cbs True True = Some (Some t') \<longleftrightarrow>
   (\<exists>t z offset time. cbs = printed_time False t @ z \<and> printed_zone offset z \<and>
      printable_year False (tm_year t + 1900) \<and> OPENSSL_tm_to_posix t = Some time \<and>
      OPENSSL_tm_to_posix t' = Some (time + offset))"
  unfolding CBS_parse_utc_time_def parse_time_iff by blast

section \<open>Object identifiers\<close>

text \<open>
  C20: \<open>CBS_asn1_oid_to_text\<close> succeeds exactly on the DER contents of an object identifier whose
  components fit in 64 bits, and returns its dotted decimal form with a terminator.
\<close>

theorem CBS_asn1_oid_to_text_prints:
  assumes "length cbs < 2 ^ 58"
  shows "CBS_asn1_oid_to_text (\<lambda>_. True) cbs = Some txt \<longleftrightarrow>
    (\<exists>arcs. valid_arcs arcs \<and> cbs = oid_der arcs \<and> txt = dotted arcs @ [0])"
  using assms by (rule oid_to_text_iff)

theorem CBS_asn1_oid_to_text_prints_witness:
  "CBS_asn1_oid_to_text (\<lambda>_. True) [0x55, 4] = Some (dotted [2, 5, 4] @ [0])"
  using CBS_asn1_oid_to_text_prints [of "[0x55, 4]" "dotted [2, 5, 4] @ [0]"]
  by (auto simp: base128_def del: exE intro!: exI [of _ "[2, 5, 4] :: u64 list"])

text \<open>
  C21: \<open>CBB_add_asn1_oid_from_text\<close> appends, for the dotted form of a valid object identifier,
  exactly its DER contents.
\<close>

theorem CBB_add_asn1_oid_from_text_encodes:
  assumes "valid_arcs arcs"
  shows "refines (\<lambda>A. k \<le> nesting A) (CBB_add_asn1_oid_from_text k (dotted arcs)) (write_to k (oid_der arcs))"
  using assms by (rule oid_from_text_refines)

theorem CBB_add_asn1_oid_from_text_encodes_witness:
  "refines (\<lambda>A. 0 \<le> nesting A) (CBB_add_asn1_oid_from_text 0 (dotted [1, 2, 840])) (write_to 0 (oid_der [1, 2, 840]))"
  by (rule CBB_add_asn1_oid_from_text_encodes) simp

text \<open>
  C22: it succeeds on no other text: leading zeros, a trailing or doubled dot, a single component,
  components above 64 bits and first components that DER cannot hold are all rejected.
\<close>

theorem CBB_add_asn1_oid_from_text_rejects:
  assumes "\<nexists>arcs. valid_arcs arcs \<and> text = dotted arcs"
  shows "fst (CBB_add_asn1_oid_from_text k text s) = False"
  using oid_from_text_sound [of k "text" s] assms by (cases "CBB_add_asn1_oid_from_text k text s") auto

theorem CBB_add_asn1_oid_from_text_rejects_witness:
  "fst (CBB_add_asn1_oid_from_text 0 [] (CBB_init_fixed 9)) = False"
proof (rule CBB_add_asn1_oid_from_text_rejects)
  show "\<nexists>arcs. valid_arcs arcs \<and> [] = dotted arcs"
    using dotted_eq_Nil by (metis valid_arcs.simps(2))
qed

section \<open>BIO pairs\<close>

text \<open>
  C23: a ring buffer behaves as a bounded queue. Any sequence of writes and reads runs to its end
  without an access outside the buffer, and what was read followed by what is still in the buffer
  is what was in it followed by what was accepted, in order.
\<close>

theorem ring_buffer_is_queue:
  assumes "ring b"
  shows "\<exists>sent received b'. run_queue ring_put ring_get calls b = Some (sent, received, b') \<and> ring b' \<and>
    bb_size b' = bb_size b \<and> queued b @ sent = received @ queued b'"
  using assms by (rule ring_queue.run_in_order)

lemma ring_example: "ring \<lparr>bb_peer = None, bb_closed = False, bb_len = 0, bb_offset = 0, bb_size = 2,
    bb_buf = Some [0, 0], bb_request = 0\<rparr>"
  by (simp add: ring_def buffer_def)

theorem ring_buffer_is_queue_witness:
  "\<exists>sent received b'. run_queue ring_put ring_get [Put [1, 2, 3], Get 1]
     \<lparr>bb_peer = None, bb_closed = False, bb_len = 0, bb_offset = 0, bb_size = 2, bb_buf = Some [0, 0], bb_request = 0\<rparr> =
     Some (sent, received, b') \<and> ring b'"
  using ring_buffer_is_queue [OF ring_example] by blast

text \<open>
  C24: a new BIO pair is a reliable byte stream in each direction. After any calls on its two ends,
  the bytes that reads of \<open>y\<close> returned, followed by the bytes still queued, are the bytes that
  writes to \<open>x\<close> accepted, in order.
\<close>

theorem BIO_pair_delivers_in_order:
  assumes "x \<noteq> y" "n1 < 2 ^ 31" "n2 < 2 ^ 31" "\<And>n xs. block n = Some xs \<Longrightarrow> length xs = n"
    and "BIO_new_bio_pair block x n1 y n2 h = Some h0"
    and "pair_run x y h0 sent got h'"
  shows "sent = got @ queue x h' \<and> paired x y h'"
  using pair_run_in_order [OF assms(6)] new_pair [OF assms(1-5)] by simp

lemma new_pair_example:
  "\<exists>h0. BIO_new_bio_pair (\<lambda>n. Some (replicate n 0)) 0 4 1 0 (\<lambda>_. BIO_new) = Some h0"
  by (subst new_pair_ex) simp_all

theorem BIO_pair_delivers_in_order_witness:
  "\<exists>h0. BIO_new_bio_pair (\<lambda>n. Some (replicate n 0)) 0 4 1 0 (\<lambda>_. BIO_new) = Some h0 \<and>
     ([] = [] @ queue 0 h0 \<and> paired 0 1 h0)"
proof -
  obtain h0 where "BIO_new_bio_pair (\<lambda>n. Some (replicate n 0)) 0 4 1 0 (\<lambda>_. BIO_new) = Some h0"
    using new_pair_example by blast
  with BIO_pair_delivers_in_order [OF _ _ _ _ this start] show ?thesis by auto
qed

text \<open>
  C25: a read of a paired BIO delivers what is queued, up to the length asked for; with nothing
  queued it reports the end of the stream when the peer is closed, and otherwise asks to retry.
\<close>

theorem BIO_pair_read:
  assumes "paired x y h" "0 < n" "n < 2 ^ 31"
  shows "\<exists>r out h'. bio_read x True n h = Some (r, out, h') \<and> paired x y h' \<and>
    queue y h = out @ queue y h' \<and> queue x h' = queue x h \<and>
    (if queue y h \<noteq> [] then r = int (length out) \<and> length out = min (nat n) (length (queue y h))
     else if bb_closed (bio_ptr (h y)) then r = 0 else r = - 1 \<and> BIO_should_retry (h' x) \<noteq> 0)"
  using assms
proof (cases rule: bio_read_cases)
  case (delivered h' m)
  have "r = int m \<Longrightarrow> length (take m (queue y h)) = m" for r :: int using delivered(2) by simp
  with delivered show ?thesis
    by (intro exI [of _ "int m"] exI [of _ "take m (queue y h)"] exI [of _ h']) simp
qed auto

theorem BIO_pair_read_witness:
  "\<exists>h0. BIO_new_bio_pair (\<lambda>n. Some (replicate n 0)) 0 4 1 0 (\<lambda>_. BIO_new) = Some h0 \<and>
     (\<exists>r out h'. bio_read 0 True 5 h0 = Some (r, out, h') \<and> queue 1 h0 = out @ queue 1 h')"
proof -
  obtain h0 where h0: "BIO_new_bio_pair (\<lambda>n. Some (replicate n 0)) 0 4 1 0 (\<lambda>_. BIO_new) = Some h0"
    using new_pair_example by blast
  then have "paired 0 1 h0" using new_pair [OF _ _ _ _ h0] by simp
  with h0 BIO_pair_read [of 0 1 h0 5] show ?thesis by auto
qed

text \<open>
  C26: \<open>BIO_write_all\<close> ends on every input, and reports success exactly when all the bytes were
  queued; otherwise a prefix of them was.
\<close>

theorem BIO_write_all_ends:
  assumes "paired x y h"
  shows "\<exists>ok h' n. BIO_write_all x bs h = Some (ok, h') \<and> paired x y h' \<and> queue y h' = queue y h \<and>
    n \<le> length bs \<and> queue x h' = queue x h @ take n bs \<and> ok = (n = length bs)"
  using assms by (rule BIO_write_all_correct)

theorem BIO_write_all_ends_witness:
  "\<exists>h0. BIO_new_bio_pair (\<lambda>n. Some (replicate n 0)) 0 4 1 0 (\<lambda>_. BIO_new) = Some h0 \<and>
     (\<exists>ok h'. BIO_write_all 0 [1, 2, 3, 4, 5] h0 = Some (ok, h'))"
proof -
  obtain h0 where h0: "BIO_new_bio_pair (\<lambda>n. Some (replicate n 0)) 0 4 1 0 (\<lambda>_. BIO_new) = Some h0"
    using new_pair_example by blast
  then have "paired 0 1 h0" using new_pair [OF _ _ _ _ h0] by simp
  with h0 BIO_write_all_ends [of 0 1 h0 "[1, 2, 3, 4, 5]"] show ?thesis by auto
qed

section \<open>Stacks\<close>

text \<open>
  C27: \<open>OPENSSL_sk_sort\<close> leaves a permutation of the pointers, sorted by the comparison function, and
  marks the stack as sorted.
\<close>

theorem OPENSSL_sk_sort_sorts:
  assumes "three_way (call_cmp c)" "sk_comp s = Some c" "\<not> sk_sorted s"
  shows "\<exists>data. OPENSSL_sk_sort call_cmp (Some s) = Some (s\<lparr>sk_data := data, sk_sorted := True\<rparr>) \<and>
    mset data = mset (sk_data s) \<and> sorted_wrt (\<lambda>a b. call_cmp c a b \<le> 0) data"
  using assms by (rule OPENSSL_sk_sort_correct)

abbreviation example_stack :: "byte list option list \<Rightarrow> (byte list, unit) OPENSSL_STACK" where
  "example_stack xs \<equiv> \<lparr>sk_data = xs, sk_sorted = False, sk_num_alloc = 4, sk_comp = Some ()\<rparr>"

theorem OPENSSL_sk_sort_sorts_witness:
  "\<exists>data. OPENSSL_sk_sort (\<lambda>_. compare_pointers) (Some (example_stack [Some [2], Some [1]])) =
       Some ((example_stack [])\<lparr>sk_data := data, sk_sorted := True\<rparr>) \<and> mset data = {#Some [2], Some [1]#}"
  using OPENSSL_sk_sort_sorts [of "\<lambda>_. compare_pointers" "()" "example_stack [Some [2], Some [1]]"]
    set_of_pointers.three_way_axioms by auto

text \<open>
  C28: every operation but \<open>OPENSSL_sk_set\<close>, and a deep copy of a sorted stack whose copy function
  changes the order, keeps room for a pointer in the array, the number of pointers within an \<open>int\<close>,
  and the meaning of the mark: a stack that is marked as sorted is sorted by its comparison function.
\<close>

theorem OPENSSL_sk_invariant:
  assumes "\<And>c. three_way (call_cmp c)" "sk_reachable call_cmp s"
  shows "length (sk_data s) < sk_num_alloc s \<and> length (sk_data s) \<le> 0x7fffffff \<and>
    (sk_sorted s \<longrightarrow> (\<exists>c. sk_comp s = Some c \<and> sorted_wrt (\<lambda>a b. call_cmp c a b \<le> 0) (sk_data s)))"
  using sk_reachable_wf [OF assms] unfolding sk_wf_def by blast

lemma reachable_example: "sk_reachable (\<lambda>_. compare_pointers) (example_stack [])"
  by (rule sk_reachable_new [of "\<lambda>_. True" "Some ()"]) (simp add: OPENSSL_sk_new_def)

theorem OPENSSL_sk_invariant_witness:
  "length (sk_data (example_stack [])) < sk_num_alloc (example_stack [])"
  using OPENSSL_sk_invariant [OF set_of_pointers.three_way_axioms reachable_example] by blast

lemma inserted_example:
  "OPENSSL_sk_insert (\<lambda>_. True) (Some (example_stack [])) (Some [1]) 0 = (1, Some (example_stack [Some [1]]))"
  "OPENSSL_sk_insert (\<lambda>_. True) (Some (example_stack [Some [1]])) (Some [2]) 1 =
     (2, Some (example_stack [Some [1], Some [2]]))"
  by (simp_all add: OPENSSL_sk_insert_def Let_def)

lemma sorted_example:
  "OPENSSL_sk_sort (\<lambda>_. compare_pointers) (Some (example_stack [Some [1], Some [2]])) =
     Some ((example_stack [Some [1], Some [2]])\<lparr>sk_sorted := True\<rparr>)"
  by code_simp

lemma reachable_sorted_example:
  "sk_reachable (\<lambda>_. compare_pointers) ((example_stack [Some [1], Some [2]])\<lparr>sk_sorted := True\<rparr>)"
  using reachable_example inserted_example sorted_example by (meson sk_reachable_step sk_step_insert sk_step_sort)

text \<open>
  C29: on such a stack \<open>OPENSSL_sk_find\<close> returns the index of the first match, with the binary search
  as with the linear one.
\<close>

theorem OPENSSL_sk_find_first_match:
  assumes "\<And>c. three_way_pointers (call_cmp c)" "sk_reachable call_cmp s" "sk_comp s = Some c" "p \<noteq> None"
  shows "OPENSSL_sk_find call_cmp (Some s) p = first_index (\<lambda>x. call_cmp c p x = 0) 0 (sk_data s)"
proof -
  have "three_way (call_cmp c)" for c using assms(1) by (rule three_way_pointers.axioms)
  then show ?thesis using OPENSSL_sk_find_first assms sk_reachable_wf by metis
qed

theorem OPENSSL_sk_find_first_match_witness:
  "OPENSSL_sk_find (\<lambda>_. compare_pointers)
     (Some ((example_stack [Some [1], Some [2]])\<lparr>sk_sorted := True\<rparr>)) (Some [2]) = Some 1"
  using OPENSSL_sk_find_first_match [OF set_of_pointers.three_way_pointers_axioms reachable_sorted_example,
      of "()" "Some [2]"]
  by (simp add: compare_pointers_def compare_set_of_element_def Let_def)

text \<open>
  C30: \<open>OPENSSL_sk_set\<close> and the deep copy of a sorted stack that changes the order are not among
  those operations: each can leave the mark of a sorted stack on pointers that are out of order, and
  the search then misses pointers that are there.
\<close>

theorem OPENSSL_sk_set_keeps_mark:
  "\<exists>s s'. sk_reachable (\<lambda>_ :: unit. compare_pointers) s \<and>
     OPENSSL_sk_set (Some s) 0 (Some [3]) = (Some [3], Some s') \<and>
     OPENSSL_sk_deep_copy (\<lambda>_. True) (\<lambda>p. if p = Some [1] then Some [3] else p) (Some s) = (Some s', []) \<and>
     sk_sorted s' \<and> sk_data s' = [Some [3], Some [2]] \<and>
     OPENSSL_sk_find (\<lambda>_. compare_pointers) (Some s') (Some [2]) = None"
proof -
  let ?s = "(example_stack [Some [1], Some [2]])\<lparr>sk_sorted := True\<rparr>"
  let ?t = "?s\<lparr>sk_data := [Some [3], Some [2]]\<rparr>"
  have "OPENSSL_sk_set (Some ?s) 0 (Some [3]) = (Some [3], Some ?t)" by code_simp
  moreover have "OPENSSL_sk_deep_copy (\<lambda>_. True) (\<lambda>p. if p = Some [1] then Some [3] else p) (Some ?s) = (Some ?t, [])"
    by code_simp
  moreover have "OPENSSL_sk_find (\<lambda>_. compare_pointers) (Some ?t) (Some [2]) = None" by code_simp
  moreover have "sk_sorted ?t" "sk_data ?t = [Some [3], Some [2]]" by simp_all
  ultimately show ?thesis using reachable_sorted_example by blast
qed

section \<open>Integers and bit strings as objects\<close>

text \<open>
  C31: \<open>c2i_ASN1_INTEGER\<close> accepts exactly the DER contents of an INTEGER. The object it makes stands
  for their two's-complement number, in sign and magnitude without a leading zero and without a
  negative zero, and \<open>i2c_ASN1_INTEGER\<close> prints it as the same bytes. On other contents it fails and
  leaves the object and the input pointer as they were.
\<close>

theorem c2i_ASN1_INTEGER_inverts_i2c:
  assumes "0 \<le> len" "nat len \<le> length inp" "len \<le> int ASN1_STRING_MAX"
  shows "if der_integer (take (nat len) inp)
    then \<exists>ret. c2i_ASN1_INTEGER (\<lambda>_. True) junk out inp len = (Some ret, Some ret, drop (nat len) inp) \<and>
      canonical_integer ret \<and> int_value ret = twos (take (nat len) inp) \<and>
      i2c_ASN1_INTEGER (Some ret) True = (len, take (nat len) inp)
    else c2i_ASN1_INTEGER (\<lambda>_. True) junk out inp len = (None, out, inp)"
  using c2i_i2c_integer [OF assms] c2i_ASN1_INTEGER_correct [OF assms] by simp

theorem c2i_ASN1_INTEGER_inverts_i2c_witness:
  "\<exists>ret. c2i_ASN1_INTEGER (\<lambda>_. True) (\<lambda>_. 0) None [0xff, 0x7f, 5] 2 = (Some ret, Some ret, [5]) \<and>
     int_value ret = -129 \<and> i2c_ASN1_INTEGER (Some ret) True = (2, [0xff, 0x7f])"
proof -
  have der: "der_integer [0xff, 0x7f]" and twos: "twos [0xff, 0x7f] = -129" by (simp_all add: twos_def)
  have parts: "take (nat 2) [0xff, 0x7f, 5 :: byte] = [0xff, 0x7f]" "drop (nat 2) [0xff, 0x7f, 5 :: byte] = [5]"
    by simp_all
  have "0 \<le> (2 :: int)" "nat 2 \<le> length [0xff, 0x7f, 5 :: byte]" "2 \<le> int ASN1_STRING_MAX" by simp_all
  from c2i_ASN1_INTEGER_inverts_i2c [OF this, of "\<lambda>_. 0" None] show ?thesis
    unfolding parts if_P [OF der] twos by blast
qed

text \<open>
  C32: \<open>ASN1_INTEGER_cmp\<close> has the sign of the difference of the two numbers, for positive and negative
  ones.
\<close>

theorem ASN1_INTEGER_cmp_is_order:
  assumes "canonical_integer x" "canonical_integer y"
  shows "sgn (ASN1_INTEGER_cmp x y) = sgn (int_value x - int_value y)"
  by (rule ASN1_INTEGER_cmp_number [OF assms])

abbreviation integer_object :: "int \<Rightarrow> byte list \<Rightarrow> ASN1_STRING" where
  "integer_object t bs \<equiv> \<lparr>str_length = length bs, str_type = t, str_data = Some bs, str_flags = 0\<rparr>"

theorem ASN1_INTEGER_cmp_is_order_witness:
  "sgn (ASN1_INTEGER_cmp (integer_object V_ASN1_NEG_INTEGER [1, 0]) (integer_object V_ASN1_NEG_INTEGER [3])) = -1"
proof -
  have "canonical_integer (integer_object V_ASN1_NEG_INTEGER [1, 0])" "canonical_integer (integer_object V_ASN1_NEG_INTEGER [3])"
    "int_value (integer_object V_ASN1_NEG_INTEGER [1, 0]) = -256" "int_value (integer_object V_ASN1_NEG_INTEGER [3]) = -3"
    by code_simp+
  with ASN1_INTEGER_cmp_is_order [of "integer_object V_ASN1_NEG_INTEGER [1, 0]" "integer_object V_ASN1_NEG_INTEGER [3]"]
  show ?thesis by simp
qed

text \<open>
  C33: \<open>ASN1_INTEGER_set_int64\<close> makes any object the canonical form of the value, the least one too,
  and \<open>ASN1_INTEGER_get_int64\<close> reads it back.
\<close>

theorem ASN1_INTEGER_int64_roundtrip:
  "\<exists>a'. ASN1_INTEGER_set_int64 (\<lambda>_. True) junk a v = (True, a') \<and> canonical_integer a' \<and>
     int_value a' = sint v \<and> ASN1_INTEGER_get_int64 a' = Some v"
proof -
  obtain a' where a': "ASN1_INTEGER_set_int64 (\<lambda>_. True) junk a v = (True, a')" "canonical_integer a'" "int_value a' = sint v"
    using ASN1_INTEGER_set_int64_number by blast
  have "- (2 ^ 63) \<le> sint v" "sint v < 2 ^ 63" using sint_ge [of v] sint_lt [of v] by simp_all
  then have "ASN1_INTEGER_get_int64 a' = Some v" using ASN1_INTEGER_get_int64_number [OF a'(2)] a'(3) by simp
  with a' show ?thesis by blast
qed

text \<open>
  C34: \<open>c2i_ASN1_BIT_STRING\<close> accepts exactly the DER contents of a BIT STRING, with at most seven unused
  bits that are zero, and \<open>i2c_ASN1_BIT_STRING\<close> prints the object as the same bytes.
\<close>

theorem c2i_ASN1_BIT_STRING_inverts_i2c:
  assumes "1 \<le> len" "len \<le> INT_LIMIT" "length bs = nat len"
  shows "if bit_string_contents bs
    then \<exists>ret. c2i_ASN1_BIT_STRING (\<lambda>_. True) a (bs @ t) len = (Some ret, Some ret, t) \<and>
      string_ok ret \<and> str_type ret = V_ASN1_BIT_STRING \<and> i2c_ASN1_BIT_STRING (Some ret) True = (len, bs)
    else c2i_ASN1_BIT_STRING (\<lambda>_. True) a (bs @ t) len = (None, a, bs @ t)"
  by (rule c2i_i2c_bit_string [OF assms])

theorem c2i_ASN1_BIT_STRING_inverts_i2c_witness:
  "\<exists>ret. c2i_ASN1_BIT_STRING (\<lambda>_. True) None [3, 0xa8, 9] 2 = (Some ret, Some ret, [9]) \<and>
     i2c_ASN1_BIT_STRING (Some ret) True = (2, [3, 0xa8])"
proof -
  have "bit_string_contents [3, 0xa8]" by code_simp
  with c2i_ASN1_BIT_STRING_inverts_i2c [of 2 "[3, 0xa8]" None "[9]"] show ?thesis by auto
qed

section \<open>Hash tables and revocation lists\<close>

text \<open>
  C35: the hash table is a map from items, up to the client's equality, to items, for any hash function
  that respects it. An insertion puts the item in and returns the one it replaces, or fails and
  changes nothing; a deletion takes the item out and returns it; the resizing they may cause is not
  seen, and the table stays well formed (every item in the bucket of its hash, the count right).
\<close>

theorem OPENSSL_lh_is_map:
  assumes "hashing hash cmp" "lh_wf hash cmp lh"
    and "OPENSSL_lh_insert alloc hash cmp lh d = (made, old, ins)" "OPENSSL_lh_delete alloc hash cmp lh d = (gone, del)"
  shows "lh_wf hash cmp ins \<and> lh_wf hash cmp del \<and>
    (if made
     then old = OPENSSL_lh_retrieve hash cmp lh d \<and>
       (\<forall>x. OPENSSL_lh_retrieve hash cmp ins x = (if cmp d x = 0 then Some d else OPENSSL_lh_retrieve hash cmp lh x))
     else ins = lh) \<and>
    gone = OPENSSL_lh_retrieve hash cmp lh d \<and>
    (\<forall>x. OPENSSL_lh_retrieve hash cmp del x = (if cmp d x = 0 then None else OPENSSL_lh_retrieve hash cmp lh x))"
proof -
  note dict = hashing.is_dictionary [OF assms(1)]
  show ?thesis
    using dictionary.put_done [OF dict assms(2), of alloc d old ins] dictionary.put_failed [OF dict, of alloc lh d old ins]
      hashing.delete_lookup [OF assms(1,2,4)] assms(2,3)
    by (cases made) auto
qed

abbreviation string_lh :: "ASN1_STRING_TABLE LHASH" where
  "string_lh \<equiv> the (OPENSSL_lh_new (\<lambda>_. True))"

theorem OPENSSL_lh_is_map_witness:
  "OPENSSL_lh_retrieve table_hash table_cmp
     (snd (snd (OPENSSL_lh_insert (\<lambda>_. True) table_hash table_cmp string_lh (string_row 7 1 2 0 0)))) (table_key 8) =
   OPENSSL_lh_retrieve table_hash table_cmp string_lh (table_key 8)"
proof -
  have "OPENSSL_lh_new (\<lambda>_. True) = Some string_lh" by (simp add: OPENSSL_lh_new_def)
  then have wf: "lh_wf table_hash table_cmp string_lh" using new_table [where 'a=ASN1_STRING_TABLE] by blast
  obtain made old ins where i: "OPENSSL_lh_insert (\<lambda>_. True) table_hash table_cmp string_lh (string_row 7 1 2 0 0) = (made, old, ins)"
    by (metis prod_cases3)
  obtain gone del where d: "OPENSSL_lh_delete (\<lambda>_. True) table_hash table_cmp string_lh (string_row 7 1 2 0 0) = (gone, del)"
    by fastforce
  from OPENSSL_lh_is_map [OF string_hash.hashing_axioms wf i d] i show ?thesis
    by (cases made) (auto simp: table_cmp_def)
qed

text \<open>
  C36: the table of string types only grows, under any interleaving of calls from several threads.
  \<open>ASN1_STRING_TABLE_add\<close> registers its row for a NID that had none, or it changes no lookup; with
  memory it fails only when the NID is taken; what a lookup has found is what every later one finds,
  which is why it may be used without the lock.
\<close>

theorem ASN1_STRING_TABLE_add_registers:
  assumes "add_run None t" "ASN1_STRING_TABLE_add alloc seen t n mn mx mk fl = (made, t')"
  shows "asn1_string_table_get t' =
      (if made then (asn1_string_table_get t)(n \<mapsto> string_row n mn mx mk fl) else asn1_string_table_get t) \<and>
    (made \<longrightarrow> asn1_string_table_get t n = None) \<and>
    ((\<forall>k. alloc k) \<and> asn1_string_table_get seen n = None \<and> asn1_string_table_get t n = None \<longrightarrow> made) \<and>
    (\<forall>later. add_run t' later \<longrightarrow> asn1_string_table_get t' \<subseteq>\<^sub>m asn1_string_table_get later)"
proof -
  have ok: "tables_ok t" using add_run_keeps [OF assms(1)] by (simp add: tables_ok_def)
  note cases = ASN1_STRING_TABLE_add_cases [OF ok assms(2)]
  moreover have "made" if "\<forall>k. alloc k" "asn1_string_table_get seen n = None" "asn1_string_table_get t n = None"
    using ASN1_STRING_TABLE_add_succeeds [OF ok that(2,3), of alloc mn mx mk fl] that(1) assms(2) by simp
  moreover have "asn1_string_table_get t' \<subseteq>\<^sub>m asn1_string_table_get later" if "add_run t' later" for later
    using add_run_keeps [OF that] cases by blast
  ultimately show ?thesis by blast
qed

theorem ASN1_STRING_TABLE_add_registers_witness:
  "\<exists>t. ASN1_STRING_TABLE_add (\<lambda>_. True) None None 5 1 9 B_ASN1_IA5STRING STABLE_NO_MASK = (True, t) \<and>
     asn1_string_table_get t 5 = Some (string_row 5 1 9 B_ASN1_IA5STRING STABLE_NO_MASK)"
proof -
  obtain made t where add: "ASN1_STRING_TABLE_add (\<lambda>_. True) None None 5 1 9 B_ASN1_IA5STRING STABLE_NO_MASK = (made, t)"
    by fastforce
  have "5 \<notin> nid ` set tbl_standard" by (simp add: tbl_standard_def)
  from get_other [OF this] have "asn1_string_table_get None 5 = None" by simp
  with ASN1_STRING_TABLE_add_registers [OF add_run_start add] add show ?thesis by auto
qed

text \<open>
  C37: a lookup in a revocation list finds an entry exactly when the list has one with the number of
  the serial and the issuer matches, in whatever order the entries were added and whether the list
  was sorted before or not. The list keeps its entries.
\<close>

theorem crl_lookup_finds:
  assumes "crl_ok crl" "canonical_integer serial"
  shows "\<exists>found crl'. crl_lookup canon other crl serial issuer = (found, crl') \<and>
    crl_ok crl' \<and> mset (crl_entries crl') = mset (crl_entries crl) \<and>
    (case found of
       Some r \<Rightarrow> r \<in> set (crl_entries crl) \<and> int_value (serialNumber r) = int_value serial \<and>
         crl_revoked_issuer_match canon crl issuer
     | None \<Rightarrow> \<not> crl_revoked_issuer_match canon crl issuer \<or>
         (\<forall>r \<in> set (crl_entries crl). int_value (serialNumber r) \<noteq> int_value serial))"
  by (rule crl_lookup_exact [OF assms])

abbreviation revoked_5 :: "unit X509_REVOKED" where
  "revoked_5 \<equiv> \<lparr>serialNumber = integer_object V_ASN1_INTEGER [5], revocation = ()\<rparr>"

theorem crl_lookup_finds_witness:
  "\<exists>crl. X509_CRL_add0_revoked (\<lambda>_. True) \<lparr>crl_issuer = (), crl_revoked = None, crl_enc_cached = True\<rparr> revoked_5 = (True, crl) \<and>
     fst (crl_lookup (\<lambda>_. Some []) () crl (integer_object V_ASN1_INTEGER [5]) None) = Some revoked_5"
proof -
  let ?crl0 = "\<lparr>crl_issuer = (), crl_revoked = None, crl_enc_cached = True\<rparr> :: (unit, unit) X509_CRL"
  have c: "canonical_integer (integer_object V_ASN1_INTEGER [5])" by code_simp
  obtain crl where crl: "X509_CRL_add0_revoked (\<lambda>_. True) ?crl0 revoked_5 = (True, crl)"
    by (simp add: X509_CRL_add0_revoked_def OPENSSL_sk_new_def OPENSSL_sk_push_def OPENSSL_sk_insert_def
        OPENSSL_sk_num_def Let_def split: if_splits)
  have "crl_ok crl" "crl_entries crl = [revoked_5]"
    using X509_CRL_add0_revoked_correct [OF _ _ crl] c by (simp_all add: crl_ok_def crl_entries_def)
  with crl_lookup_finds [of crl "integer_object V_ASN1_INTEGER [5]" "\<lambda>_. Some []" "()" None] c crl show ?thesis
    by (auto simp: crl_revoked_issuer_match_def split: option.splits)
qed

section \<open>Strings and their encodings\<close>

text \<open>
  C38: \<open>CBS_get_utf8\<close> accepts exactly the UTF-8 of the valid code points (shortest form, no surrogates, no
  noncharacters), and \<open>CBB_add_utf8\<close> appends it, in \<open>CBB_get_utf8_len\<close> bytes; a code point that is not
  valid is refused and leaves the builder as it was.
\<close>

theorem utf8_codec:
  "(CBS_get_utf8 s = (Some v, t) \<longleftrightarrow> is_valid_code_point v \<and> s = utf8 (unat v) @ t) \<and>
   (if is_valid_code_point v
    then refines (\<lambda>A. k \<le> nesting A) (CBB_add_utf8 k v) (write_to k (utf8 (unat v))) \<and>
      CBB_get_utf8_len v = length (utf8 (unat v))
    else CBB_add_utf8 k v b = (False, b))"
  using utf8.dec_iff utf8.add_writes utf8.add_refuses CBB_get_utf8_len_eq by simp

text \<open>
  C39: \<open>ASN1_mbstring_ncopy\<close> succeeds exactly on the inputs that decode to a string with the length
  the caller asks for, without a byte order mark, for which one of the permitted types can hold every
  character. Then it returns the first such type in the order of preference, and the object has that
  type and the string in its encoding; otherwise the object is as it was.
\<close>

theorem ASN1_mbstring_ncopy_converts:
  assumes "0 \<le> len" "nat len \<le> length inp" "len \<le> int ASN1_STRING_MAX" "mb_format inform \<noteq> None"
  shows "case ASN1_mbstring_ncopy (\<lambda>_. True) junk (Some slot) inp len inform permitted min_size max_size of
      (Inr type, out) \<Rightarrow> \<exists>vs form str. decodes (mb_decode inform) (take (nat len) inp) vs \<and>
        acceptable inform min_size max_size vs \<and> choose_type (wanted_types permitted) vs = Some (type, form) \<and>
        out = Some (Some str) \<and> str_type str = type \<and> str_bytes str = concat (map (mb_enc form) vs)
    | (Inl _, out) \<Rightarrow> out = Some slot \<and>
        \<not> (\<exists>vs. decodes (mb_decode inform) (take (nat len) inp) vs \<and> acceptable inform min_size max_size vs \<and>
             choose_type (wanted_types permitted) vs \<noteq> None)"
proof (cases "\<exists>vs. decodes (mb_decode inform) (take (nat len) inp) vs \<and> acceptable inform min_size max_size vs \<and>
    choose_type (wanted_types permitted) vs \<noteq> None")
  case True
  then obtain vs type form where vs: "decodes (mb_decode inform) (take (nat len) inp) vs"
    "acceptable inform min_size max_size vs" "choose_type (wanted_types permitted) vs = Some (type, form)" by auto
  from ASN1_mbstring_ncopy_success [OF assms vs, of junk slot] obtain str where
    "ASN1_mbstring_ncopy (\<lambda>_. True) junk (Some slot) inp len inform permitted min_size max_size = (Inr type, Some (Some str))"
    "str_type str = type" "str_bytes str = concat (map (mb_enc form) vs)" by blast
  with vs show ?thesis by auto
next
  case False
  from ASN1_mbstring_ncopy_failure [OF assms(1) False, of "\<lambda>_. True" junk "Some slot"] False show ?thesis by auto
qed

lemmas choice_defs = choose_type_def string_types_def allowed_def can_hold_def wanted_types_def DIRSTRING_TYPE_def
  asn1_is_printable_def OPENSSL_isalnum_def OPENSSL_isalpha_def

lemma be_bytes_2: "be_bytes 2 n = [of_nat (n div 256), of_nat n]"
  by (simp add: numeral_2_eq_2)

lemma bmp_example:
  "decodes (mb_decode MBSTRING_BMP) [0, 0x41, 0, 0xe9] [0x41, 0xe9]" "choose_type (wanted_types 0) [0x41, 0xe9] = Some (20, MBSTRING_ASC)"
  "acceptable MBSTRING_BMP 0 0 [0x41, 0xe9]"
proof -
  have "mb_enc MBSTRING_BMP 0x41 = [0, 0x41]" "mb_enc MBSTRING_BMP 0xe9 = [0, 0xe9]"
    unfolding mb_enc_def be_bytes_2 by simp_all
  moreover have "mb_ok MBSTRING_BMP 0x41" "mb_ok MBSTRING_BMP 0xe9"
    using ascii_valid [of "0x41"] ascii_valid [of "0xe9"] by (simp_all add: mb_ok_def)
  ultimately show "decodes (mb_decode MBSTRING_BMP) [0, 0x41, 0, 0xe9] [0x41, 0xe9]"
    by (simp add: mb.decodes_iff)
qed (simp_all add: choice_defs acceptable_def no_bom_def)

theorem ASN1_mbstring_ncopy_converts_witness:
  "\<exists>str. ASN1_mbstring_ncopy (\<lambda>_. True) (\<lambda>_. 0) (Some None) [0, 0x41, 0, 0xe9] 4 MBSTRING_BMP 0 0 0 =
      (Inr V_ASN1_T61STRING, Some (Some str)) \<and> str_bytes str = [0x41, 0xe9]"
proof -
  let ?r = "ASN1_mbstring_ncopy (\<lambda>_. True) (\<lambda>_. 0) (Some None) [0, 0x41, 0, 0xe9] 4 MBSTRING_BMP 0 0 0"
  have pre: "(0 :: int) \<le> 4" "nat 4 \<le> length [0, 0x41, 0, 0xe9 :: byte]" "4 \<le> int ASN1_STRING_MAX"
    "mb_format MBSTRING_BMP \<noteq> None" by (simp_all add: mb_format_def)
  have all: "take (nat 4) [0, 0x41, 0, 0xe9 :: byte] = [0, 0x41, 0, 0xe9]" by simp
  have enc: "concat (map (mb_enc MBSTRING_ASC) [0x41, 0xe9]) = [0x41, 0xe9]" by (simp add: mb_enc_def)
  note converts = ASN1_mbstring_ncopy_converts
    [OF pre, where junk = "\<lambda>_. 0" and slot = None and permitted = 0 and min_size = 0 and max_size = 0, unfolded all]
  obtain res out where r: "?r = (res, out)" by fastforce
  show ?thesis
  proof (cases res)
    case (Inl e)
    then have False using converts bmp_example unfolding r by auto
    then show ?thesis ..
  next
    case (Inr type)
    then obtain vs form str where vs: "decodes (mb_decode MBSTRING_BMP) [0, 0x41, 0, 0xe9] vs"
      "choose_type (wanted_types 0) vs = Some (type, form)" "out = Some (Some str)" "str_bytes str = concat (map (mb_enc form) vs)"
      using converts unfolding r by auto
    have "vs = [0x41, 0xe9]" by (rule mb.decodes_unique [OF vs(1) bmp_example(1)])
    with vs bmp_example(2) enc Inr show ?thesis unfolding r by simp
  qed
qed

text \<open>
  C40: a NID whose row was registered without \<open>STABLE_NO_MASK\<close> and without the bit of UTF8String is
  given every type of a DirectoryString, not UTF8String only: the mask becomes zero, which
  \<open>ASN1_mbstring_ncopy\<close> takes for its default.
\<close>

theorem ASN1_STRING_set_by_NID_empty_mask:
  assumes "asn1_string_table_get tables n = Some tbl" "flags tbl AND STABLE_NO_MASK = 0"
    "mask_of tbl AND B_ASN1_UTF8STRING = 0"
  shows "ASN1_STRING_set_by_NID alloc junk tables (Some slot) inp len inform n =
    (case ASN1_mbstring_ncopy alloc junk (Some slot) inp len inform DIRSTRING_TYPE (minsize tbl) (maxsize tbl) of
       (Inl _, out) \<Rightarrow> (None, out)
     | (Inr type, out) \<Rightarrow> if type \<le> 0 then (None, out) else (the out, out))"
proof -
  have "DIRSTRING_TYPE \<noteq> 0" by (simp add: DIRSTRING_TYPE_def)
  then have "ASN1_mbstring_ncopy alloc junk (Some slot) inp len inform 0 mn mx =
      ASN1_mbstring_ncopy alloc junk (Some slot) inp len inform DIRSTRING_TYPE mn mx" for mn mx
    by (simp add: ASN1_mbstring_ncopy_def)
  moreover have "nid_parameters tables n = (0, minsize tbl, maxsize tbl)" using assms by (simp add: nid_parameters_def)
  ultimately show ?thesis unfolding ASN1_STRING_set_by_NID_eq by simp
qed

lemma ascii_example:
  "decodes (mb_decode MBSTRING_ASC) [0x41] [0x41]" "choose_type (wanted_types DIRSTRING_TYPE) [0x41] = Some (19, MBSTRING_ASC)"
  "acceptable MBSTRING_ASC 1 9 [0x41]"
  by (simp_all add: mb.decodes_iff mb_enc_def mb_ok_def choice_defs acceptable_def no_bom_def)

theorem ASN1_STRING_set_by_NID_empty_mask_witness:
  "\<exists>tables str. add_run None tables \<and> asn1_string_table_get tables 5 = Some (string_row 5 1 9 B_ASN1_IA5STRING 0) \<and>
     ASN1_STRING_set_by_NID (\<lambda>_. True) (\<lambda>_. 0) tables (Some None) [0x41] 1 MBSTRING_ASC 5 = (Some str, Some (Some str)) \<and>
     str_type str = V_ASN1_PRINTABLESTRING"
proof -
  let ?row = "string_row 5 1 9 B_ASN1_IA5STRING 0"
  obtain made tables where add: "ASN1_STRING_TABLE_add (\<lambda>_. True) None None 5 1 9 B_ASN1_IA5STRING 0 = (made, tables)" by fastforce
  have run: "add_run None tables" by (rule add_run_step [OF add_run_start add])
  have "5 \<notin> nid ` set tbl_standard" by (simp add: tbl_standard_def)
  from get_other [OF this] have none: "asn1_string_table_get None 5 = None" by simp
  have ok: "tables_ok None" by (simp add: tables_ok_def)
  have "made" using ASN1_STRING_TABLE_add_succeeds [OF ok none none, of "\<lambda>_. True" 1 9 B_ASN1_IA5STRING 0] add by simp
  then have get: "asn1_string_table_get tables 5 = Some ?row" using ASN1_STRING_TABLE_add_cases [OF ok add] by simp
  have "\<exists>str. ASN1_mbstring_ncopy (\<lambda>_. True) (\<lambda>_. 0) (Some None) [0x41] 1 MBSTRING_ASC DIRSTRING_TYPE 1 9 =
      (Inr 19, Some (Some str)) \<and> str_type str = 19 \<and> str_bytes str = concat (map (mb_enc MBSTRING_ASC) [0x41])"
    using ascii_example by (intro ASN1_mbstring_ncopy_success) (simp_all add: mb_format_def)
  with ASN1_STRING_set_by_NID_empty_mask [OF get, of "\<lambda>_. True" "\<lambda>_. 0" None "[0x41]" 1 MBSTRING_ASC] run get show ?thesis
    by auto
qed

end
